(* ===== verification/Prelude.thy ===== *)
theory Prelude
  imports Main "HOL-Library.Word" "HOL-Library.Signed_Division"
begin

text \<open>
  Shared vocabulary of the development: the machine types of the C code, the
  faults a C execution can end in, sequencing of fallible computations, and
  the generic lemmas on lists and words that the component theories use.

  Conventions. A pointer argument that the code dereferences is a value here,
  so the \<open>assert (p != NULL)\<close> lines of the source are discharged by the type;
  every other assertion is a branch that ends in \<open>AssertFail\<close>. A C string is
  a \<open>string\<close> without its terminating NUL.
\<close>

unbundle bit_operations_syntax

section \<open>Machine types\<close>

type_synonym u8 = "8 word"
type_synonym u16 = "16 word"
type_synonym u32 = "32 word"
type_synonym u64 = "64 word"
type_synonym size_t = "64 word"

definition INT_MAX :: int where "INT_MAX = 2147483647"
definition INT_MIN :: int where "INT_MIN = -2147483648"
definition LONG_MAX :: int where "LONG_MAX = 9223372036854775807"
definition LONG_MIN :: int where "LONG_MIN = -9223372036854775808"

text \<open>The conversion of a value to \<open>int\<close> (modulo \<open>2^32\<close>, as gcc and clang define it).\<close>

definition to_int32 :: "int \<Rightarrow> int" where
  "to_int32 x = sint (word_of_int x :: 32 word)"

section \<open>Faults and fallible results\<close>

datatype fault =
    AssertFail
  | OutOfBounds
  | Segfault
  | SignedOverflow
  | UseAfterFree
  | Uninitialised
  | DivideByZero
  | Exit int

type_synonym 'a result = "fault + 'a"

definition bind_r :: "'a result \<Rightarrow> ('a \<Rightarrow> 'b result) \<Rightarrow> 'b result" where
  "bind_r r f = (case r of Inl e \<Rightarrow> Inl e | Inr x \<Rightarrow> f x)"

lemma bind_r_simps [simp]:
  "bind_r (Inl e) f = Inl e"
  "bind_r (Inr x) f = f x"
  by (simp_all add: bind_r_def)

lemma bind_r_Inr_iff:
  "bind_r r f = Inr y \<longleftrightarrow> (\<exists>x. r = Inr x \<and> f x = Inr y)"
  by (cases r) simp_all

lemma bind_r_cong [fundef_cong]:
  "r = r' \<Longrightarrow> (\<And>x. r' = Inr x \<Longrightarrow> f x = g x) \<Longrightarrow> bind_r r f = bind_r r' g"
  by (cases r') simp_all

definition assert_c :: "bool \<Rightarrow> 'a result \<Rightarrow> 'a result" where
  "assert_c b r = (if b then r else Inl AssertFail)"

lemma assert_c_simps [simp]:
  "assert_c True r = r"
  "assert_c False r = Inl AssertFail"
  by (simp_all add: assert_c_def)

definition newline :: string where "newline = [char_of (10 :: int)]"

text \<open>The scheduling policies of Linux.\<close>

definition SCHED_OTHER :: int where "SCHED_OTHER = 0"
definition SCHED_FIFO :: int where "SCHED_FIFO = 1"
definition SCHED_RR :: int where "SCHED_RR = 2"

text \<open>Address families, as far as the program tells them apart.\<close>

datatype family = AF_INET | AF_INET6 | AF_OTHER

text \<open>An \<open>int\<close> computation whose exact value must be representable.\<close>

definition int_c :: "int \<Rightarrow> int result" where
  "int_c v = (if INT_MIN \<le> v \<and> v \<le> INT_MAX then Inr v else Inl SignedOverflow)"

text \<open>The same for the 64-bit \<open>long\<close>, the type of \<open>time_t\<close> and \<open>suseconds_t\<close>.\<close>

definition long_c :: "int \<Rightarrow> int result" where
  "long_c v = (if LONG_MIN \<le> v \<and> v \<le> LONG_MAX then Inr v else Inl SignedOverflow)"

lemma long_c_Inr [simp]: "LONG_MIN \<le> v \<Longrightarrow> v \<le> LONG_MAX \<Longrightarrow> long_c v = Inr v"
  by (simp add: long_c_def)

lemma long_c_iff: "long_c v = Inr w \<longleftrightarrow> LONG_MIN \<le> v \<and> v \<le> LONG_MAX \<and> w = v"
  by (auto simp: long_c_def)

lemma to_int32_eq: "to_int32 v = signed_take_bit 31 v"
  by (simp add: to_int32_def sint_uint uint_word_of_int_eq signed_take_bit_take_bit)

lemma to_int32_small [simp]:
  assumes "INT_MIN \<le> v" "v \<le> INT_MAX"
  shows "to_int32 v = v"
  using assms by (simp add: to_int32_eq INT_MIN_def INT_MAX_def signed_take_bit_int_eq_self)

lemma to_int32_bounds: "INT_MIN \<le> to_int32 v" "to_int32 v \<le> INT_MAX"
  using signed_take_bit_int_greater_eq_minus_exp [of 31 v] signed_take_bit_int_less_exp [of 31 v]
  by (simp_all add: to_int32_eq INT_MIN_def INT_MAX_def)

lemma uint_u32: "0 \<le> k \<Longrightarrow> k < 4294967296 \<Longrightarrow> uint (word_of_int k :: u32) = k"
  by (simp add: uint_word_of_int)

text \<open>Statements proved by evaluation over a list of numbers reach their members this way.\<close>

lemma int_in_upt: "0 \<le> v \<Longrightarrow> v < int k \<Longrightarrow> v \<in> set (map int [0..<k])"
  by (rule image_eqI [of _ _ "nat v", THEN subst [of _ _ "\<lambda>S. v \<in> S", rotated]]) auto

end
