(* ===== verification/Seqno.thy ===== *)
theory Seqno
  imports Prelude
begin

text \<open>
  The 16-bit serial-number arithmetic of \<open>util.h\<close>: \<open>seqno_compare\<close>,
  \<open>seqno_minus\<close> and \<open>seqno_plus\<close>. An \<open>unsigned short\<close> is a \<open>16 word\<close>; the
  operands are promoted to \<open>int\<close> before the subtraction, as in C.
\<close>

section \<open>The operations\<close>

definition seqno_compare :: "u16 \<Rightarrow> u16 \<Rightarrow> int" where
  "seqno_compare s1 s2 =
     (if s1 = s2 then 0
      else if (uint s2 - uint s1) AND 0x8000 \<noteq> 0 then 1 else -1)"

definition seqno_minus :: "u16 \<Rightarrow> u16 \<Rightarrow> int" where
  "seqno_minus s1 s2 = sint (word_of_int ((uint s1 - uint s2) AND 0xFFFF) :: 16 word)"

definition seqno_plus :: "u16 \<Rightarrow> int \<Rightarrow> u16" where
  "seqno_plus s n = word_of_int ((uint s + n) AND 0xFFFF)"

section \<open>The operations as modular arithmetic\<close>

lemma and_0xFFFF: "(x::int) AND 0xFFFF = x mod 65536"
proof -
  have "x AND 0xFFFF = take_bit 16 x"
    by (simp add: take_bit_eq_mask mask_eq_exp_minus_1)
  then show ?thesis by (simp add: take_bit_eq_mod)
qed

lemma and_0x8000: "((x::int) AND 0x8000 \<noteq> 0) \<longleftrightarrow> 32768 \<le> x mod 65536"
proof -
  have "(x AND 2 ^ 15 \<noteq> 0) \<longleftrightarrow> odd (x div 2 ^ 15)"
    by (simp only: and_exp_eq_0_iff_not_bit bit_iff_odd not_not)
  moreover have "x mod (32768 * 2) = 32768 * (x div 32768 mod 2) + x mod 32768"
    by (rule zmod_zmult2_eq) simp
  then have "odd (x div 32768) \<longleftrightarrow> 32768 \<le> x mod 65536"
    using pos_mod_bound [of 32768 x] pos_mod_sign [of 32768 x]
    by (cases "x div 32768 mod 2 = 0") (auto simp: odd_iff_mod_2_eq_one)
  ultimately show ?thesis by simp
qed

lemma word16_diff_mod: "word_of_int (x mod 65536) = (word_of_int x :: u16)"
  by (simp add: word_of_int_eq_iff take_bit_eq_mod)

lemma seqno_minus_word: "seqno_minus s1 s2 = sint (s1 - s2)"
  by (simp add: seqno_minus_def and_0xFFFF word16_diff_mod wi_hom_sub [symmetric])

lemma seqno_plus_word: "seqno_plus s n = s + word_of_int n"
  by (simp add: seqno_plus_def and_0xFFFF word16_diff_mod wi_hom_add [symmetric])

lemma seqno_minus_mod:
  "seqno_minus s1 s2 = (uint s1 - uint s2 + 32768) mod 65536 - 32768"
  unfolding seqno_minus_def and_0xFFFF word16_diff_mod int_word_sint by simp

lemma mod_65536_near:
  "-65536 \<le> x \<Longrightarrow> x < 131072 \<Longrightarrow>
   (x::int) mod 65536 = (if x < 0 then x + 65536 else if x < 65536 then x else x - 65536)"
  using mod_add_self2 [of x 65536] minus_mod_self2 [of x 65536]
    mod_pos_pos_trivial [of "x + 65536" 65536] mod_pos_pos_trivial [of "x - 65536" 65536]
  by (auto simp: mod_pos_pos_trivial)

lemma seqno_compare_minus:
  "seqno_compare s1 s2 =
     (if seqno_minus s1 s2 = -32768 then 1 else sgn (seqno_minus s1 s2))"
proof -
  have u: "0 \<le> uint s1" "uint s1 < 65536" "0 \<le> uint s2" "uint s2 < 65536"
    using uint_bounded [of s1] uint_bounded [of s2] by simp_all
  have eq: "s1 = s2 \<longleftrightarrow> uint s1 = uint s2"
    by (simp add: word_uint_eq_iff)
  define a b where "a = uint s1" and "b = uint s2"
  note u' = u [folded a_def b_def]
  have d: "(b - a) mod 65536 = (if b < a then b - a + 65536 else b - a)"
    using u' by (subst mod_65536_near) auto
  have e: "(a - b + 32768) mod 65536 =
      (if a - b + 32768 < 0 then a - b + 98304
       else if a - b + 32768 < 65536 then a - b + 32768 else a - b - 32768)"
    using u' by (subst mod_65536_near) auto
  show ?thesis
    unfolding seqno_compare_def seqno_minus_mod and_0x8000 eq
    unfolding a_def [symmetric] b_def [symmetric] d e
    using u' by (auto simp: sgn_if)
qed

lemma seqno_minus_swap:
  "seqno_minus s2 s1 =
     (if seqno_minus s1 s2 = -32768 then -32768 else - seqno_minus s1 s2)"
proof -
  define a b where "a = uint s1" and "b = uint s2"
  have u: "0 \<le> a" "a < 65536" "0 \<le> b" "b < 65536"
    using uint_bounded [of s1] uint_bounded [of s2] by (simp_all add: a_def b_def)
  have near: "(x - y + 32768) mod 65536 =
      (if x - y + 32768 < 0 then x - y + 98304
       else if x - y + 32768 < 65536 then x - y + 32768 else x - y - 32768)"
    if "0 \<le> x" "x < 65536" "0 \<le> y" "y < 65536" for x y :: int
    using that by (subst mod_65536_near) auto
  show ?thesis
    unfolding seqno_minus_mod unfolding a_def [symmetric] b_def [symmetric]
    unfolding near [OF u] near [OF u(3,4,1,2)]
    using u by auto
qed

lemma seqno_minus_plus_far: "seqno_minus (seqno_plus s 32768) s = -32768"
  by (simp add: seqno_minus_word seqno_plus_word)

lemma seqno_minus_range: "-32768 \<le> seqno_minus s1 s2" "seqno_minus s1 s2 < 32768"
  unfolding seqno_minus_mod
  using pos_mod_bound [of 65536 "uint s1 - uint s2 + 32768"]
    pos_mod_sign [of 65536 "uint s1 - uint s2 + 32768"] by linarith+

section \<open>Properties\<close>

text \<open>
  moving a sequence number forward by \<open>n\<close> and taking the difference gives
  back \<open>n\<close> for every \<open>n\<close> a \<open>short\<close> can hold, across the wrap at 65536.
\<close>

theorem seqno_minus_plus:
  "-32768 \<le> n \<Longrightarrow> n < 32768 \<Longrightarrow> seqno_minus (seqno_plus s n) s = n"
  by (simp add: seqno_minus_word seqno_plus_word int_word_sint)

theorem seqno_minus_plus_witness: "seqno_minus (seqno_plus 65530 10) 65530 = 10"
  by (rule seqno_minus_plus) simp_all

lemma seqno_plus_minus: "seqno_plus s2 (seqno_minus s1 s2) = s1"
  by (simp add: seqno_minus_word seqno_plus_word)

text \<open>
  \<open>seqno_compare\<close> is antisymmetric on every pair of sequence numbers except
  those exactly half the number space apart, where each is greater than the other.
\<close>

theorem seqno_compare_antisym:
  "seqno_compare s1 s2 =
     (if seqno_minus s1 s2 = -32768 then seqno_compare s2 s1 else - seqno_compare s2 s1)"
  unfolding seqno_compare_minus [of s2 s1] seqno_compare_minus [of s1 s2] seqno_minus_swap [of s2 s1]
  using seqno_minus_range [of s1 s2] by (auto simp: sgn_minus)

lemma sint_word_of_int_16_small:
  "-32768 \<le> n \<Longrightarrow> n < 32768 \<Longrightarrow> sint (word_of_int n :: u16) = n"
  by (simp add: int_word_sint)

text \<open>
  a sequence number advanced by up to half the number space compares greater
  than where it started, whatever the starting number.
\<close>

theorem seqno_compare_advance:
  assumes "1 \<le> n" and "n \<le> 32768"
  shows "seqno_compare (seqno_plus s n) s = 1"
proof (cases "n = 32768")
  case True
  then show ?thesis
    by (simp add: seqno_compare_minus seqno_minus_plus_far)
next
  case False
  with assms show ?thesis
    by (simp add: seqno_compare_minus seqno_minus_word seqno_plus_word sint_word_of_int_16_small)
qed

theorem seqno_compare_advance_witness: "seqno_compare (seqno_plus 65535 1) 65535 = 1"
  by (rule seqno_compare_advance) simp_all

end
