(* ===== verification/Byte_Order.thy ===== *)
theory Byte_Order
  imports Prelude
begin

text \<open>
  The macros of \<open>util.h\<close> that load and store numbers in network order, as they are on the
  little-endian machines the first branch of the \<open>#if\<close> is for. A buffer is a list of bytes,
  and an access beyond it is a fault.
\<close>

section \<open>The machine\<close>

definition load16 :: "u8 list \<Rightarrow> u16 result" where
  "load16 s = (if 2 \<le> length s then Inr (ucast (s ! 0) OR push_bit 8 (ucast (s ! 1))) else Inl OutOfBounds)"

definition store16 :: "u8 list \<Rightarrow> u16 \<Rightarrow> u8 list result" where
  "store16 d x =
     (if 2 \<le> length d then Inr (d[0 := ucast x, 1 := ucast (drop_bit 8 x)]) else Inl OutOfBounds)"

definition load32 :: "u8 list \<Rightarrow> u32 result" where
  "load32 s =
     (if 4 \<le> length s
      then Inr (ucast (s ! 0) OR push_bit 8 (ucast (s ! 1)) OR push_bit 16 (ucast (s ! 2))
                OR push_bit 24 (ucast (s ! 3)))
      else Inl OutOfBounds)"

definition store32 :: "u8 list \<Rightarrow> u32 \<Rightarrow> u8 list result" where
  "store32 d x =
     (if 4 \<le> length d
      then Inr (d[0 := ucast x, 1 := ucast (drop_bit 8 x), 2 := ucast (drop_bit 16 x),
                  3 := ucast (drop_bit 24 x)])
      else Inl OutOfBounds)"

text \<open>\<open>htons\<close> and \<open>htonl\<close> reverse the bytes, and so do \<open>ntohs\<close> and \<open>ntohl\<close>.\<close>

definition swap16 :: "u16 \<Rightarrow> u16" where
  "swap16 x = push_bit 8 x OR drop_bit 8 x"

definition swap32 :: "u32 \<Rightarrow> u32" where
  "swap32 x = push_bit 24 x OR push_bit 16 (take_bit 8 (drop_bit 8 x))
     OR push_bit 8 (take_bit 8 (drop_bit 16 x)) OR drop_bit 24 x"

section \<open>The macros\<close>

definition DO_NTOHS :: "u8 list \<Rightarrow> u16 result" where
  "DO_NTOHS s = bind_r (load16 s) (\<lambda>x. Inr (swap16 x))"

definition DO_NTOHL :: "u8 list \<Rightarrow> u32 result" where
  "DO_NTOHL s = bind_r (load32 s) (\<lambda>x. Inr (swap32 x))"

definition DO_HTONS :: "u8 list \<Rightarrow> u16 \<Rightarrow> u8 list result" where
  "DO_HTONS d x = store16 d (swap16 x)"

definition DO_HTONL :: "u8 list \<Rightarrow> u32 \<Rightarrow> u8 list result" where
  "DO_HTONL d x = store32 d (swap32 x)"

text \<open>
  The last branch of the \<open>#if\<close>, for all other machines, copies the bytes instead of
  casting the pointer. \<open>big\<close> is the byte order of such a machine: the order in which
  \<open>memcpy\<close> fills a \<open>short\<close>, and whether \<open>ntohs\<close> and \<open>htons\<close> do anything.
\<close>

definition memcpy_load16 :: "bool \<Rightarrow> u8 list \<Rightarrow> u16 result" where
  "memcpy_load16 big s =
     (if 2 \<le> length s
      then Inr (if big then push_bit 8 (ucast (s ! 0)) OR ucast (s ! 1)
                else ucast (s ! 0) OR push_bit 8 (ucast (s ! 1)))
      else Inl OutOfBounds)"

definition memcpy_store16 :: "bool \<Rightarrow> u8 list \<Rightarrow> u16 \<Rightarrow> u8 list result" where
  "memcpy_store16 big d x =
     (if 2 \<le> length d
      then Inr (if big then d[0 := ucast (drop_bit 8 x), 1 := ucast x]
                else d[0 := ucast x, 1 := ucast (drop_bit 8 x)])
      else Inl OutOfBounds)"

definition ntohs :: "bool \<Rightarrow> u16 \<Rightarrow> u16" where
  "ntohs big x = (if big then x else swap16 x)"

definition DO_NTOHS_memcpy :: "bool \<Rightarrow> u8 list \<Rightarrow> u16 result" where
  "DO_NTOHS_memcpy big s = bind_r (memcpy_load16 big s) (\<lambda>dd. Inr (ntohs big dd))"

definition DO_HTONS_memcpy :: "bool \<Rightarrow> u8 list \<Rightarrow> u16 \<Rightarrow> u8 list result" where
  "DO_HTONS_memcpy big d x = (let dd = ntohs big x in memcpy_store16 big d dd)"

section \<open>Lemmas\<close>

lemma swap16_bytes:
  "ucast (swap16 x) = (ucast (drop_bit 8 x) :: u8)"
  "ucast (drop_bit 8 (swap16 x)) = (ucast x :: u8)"
  by (rule bit_word_eqI; auto simp: swap16_def bit_simps)+

lemma bytes_swap16:
  "swap16 (ucast (a :: u8) OR push_bit 8 (ucast (b :: u8))) = push_bit 8 (ucast a) OR ucast b"
  by (rule bit_word_eqI) (auto simp: swap16_def bit_simps dest: bit_imp_le_length)

lemma join16:
  "(push_bit 8 (ucast (ucast (drop_bit 8 x) :: u8)) OR ucast (ucast x :: u8)) = (x :: u16)"
  by (rule bit_word_eqI) (auto simp: bit_simps)

lemma swap32_bytes:
  "ucast (swap32 x) = (ucast (drop_bit 24 x) :: u8)"
  "ucast (drop_bit 8 (swap32 x)) = (ucast (drop_bit 16 x) :: u8)"
  "ucast (drop_bit 16 (swap32 x)) = (ucast (drop_bit 8 x) :: u8)"
  "ucast (drop_bit 24 (swap32 x)) = (ucast x :: u8)"
  by (rule bit_word_eqI; auto simp: swap32_def bit_simps)+

lemma bit32_cases:
  assumes "n < LENGTH(32)"
  obtains k :: nat where "k < 8" "n = k" | k where "k < 8" "n = 8 + k"
    | k where "k < 8" "n = 16 + k" | k where "k < 8" "n = 24 + k"
proof -
  have "n < 32" using assms by simp
  then consider "n < 8" | "8 \<le> n" "n < 16" | "16 \<le> n" "n < 24" | "24 \<le> n" "n < 32" by linarith
  then show ?thesis
  proof cases
    case 1 then show ?thesis by (rule that(1)) simp
  next
    case 2 then show ?thesis by (intro that(2) [of "n - 8"]) linarith+
  next
    case 3 then show ?thesis by (intro that(3) [of "n - 16"]) linarith+
  next
    case 4 then show ?thesis by (intro that(4) [of "n - 24"]) linarith+
  qed
qed

lemma bytes_swap32:
  "swap32 (ucast (a :: u8) OR push_bit 8 (ucast (b :: u8)) OR push_bit 16 (ucast (c :: u8))
     OR push_bit 24 (ucast (d :: u8))) =
   push_bit 24 (ucast a) OR push_bit 16 (ucast b) OR push_bit 8 (ucast c) OR ucast d"
proof (rule bit_word_eqI)
  fix n assume "n < LENGTH(32)"
  moreover have small: "\<not> bit w k" if "8 \<le> k" for w :: u8 and k
    using that bit_imp_le_length [of w k] by auto
  ultimately show "bit (swap32 (ucast a OR push_bit 8 (ucast b) OR push_bit 16 (ucast c) OR push_bit 24 (ucast d))) n =
      bit (push_bit 24 (ucast a) OR push_bit 16 (ucast b) OR push_bit 8 (ucast c) OR ucast d :: u32) n"
    by (cases rule: bit32_cases) (simp_all add: swap32_def bit_simps small)
qed

lemma join32:
  "push_bit 24 (ucast (ucast (drop_bit 24 x) :: u8)) OR push_bit 16 (ucast (ucast (drop_bit 16 x) :: u8))
     OR push_bit 8 (ucast (ucast (drop_bit 8 x) :: u8)) OR ucast (ucast x :: u8) = (x :: u32)"
proof (rule bit_word_eqI)
  fix n assume "n < LENGTH(32)"
  then show "bit (push_bit 24 (ucast (ucast (drop_bit 24 x) :: u8)) OR push_bit 16 (ucast (ucast (drop_bit 16 x) :: u8))
     OR push_bit 8 (ucast (ucast (drop_bit 8 x) :: u8)) OR ucast (ucast x :: u8) :: u32) n = bit x n"
    by (cases rule: bit32_cases) (simp_all add: bit_simps)
qed

section \<open>Properties\<close>

text \<open>
  \<open>DO_HTONS\<close> and \<open>DO_HTONL\<close> store the bytes of a number with the most significant one first,
  leave the rest of the buffer alone, and fault exactly when the buffer is too short;
  \<open>DO_NTOHS\<close> and \<open>DO_NTOHL\<close> read the number back.
\<close>

theorem network_order_roundtrip:
  "DO_HTONS d x = (if 2 \<le> length d then Inr (ucast (drop_bit 8 x) # ucast x # drop 2 d) else Inl OutOfBounds) \<and>
   DO_HTONL d y =
     (if 4 \<le> length d
      then Inr (ucast (drop_bit 24 y) # ucast (drop_bit 16 y) # ucast (drop_bit 8 y) # ucast y # drop 4 d)
      else Inl OutOfBounds) \<and>
   bind_r (DO_HTONS d x) DO_NTOHS = (if 2 \<le> length d then Inr x else Inl OutOfBounds) \<and>
   bind_r (DO_HTONL d y) DO_NTOHL = (if 4 \<le> length d then Inr y else Inl OutOfBounds)"
proof -
  have two: "\<exists>a b r. d = a # b # r" if "2 \<le> length d"
    using that by (cases d; cases "tl d") auto
  have four: "\<exists>a b c e r. d = a # b # c # e # r" if "4 \<le> length d"
    using that by (cases d; cases "tl d"; cases "tl (tl d)"; cases "tl (tl (tl d))") auto
  have s: "DO_HTONS d x = (if 2 \<le> length d then Inr (ucast (drop_bit 8 x) # ucast x # drop 2 d) else Inl OutOfBounds)"
    using two by (auto simp: DO_HTONS_def store16_def swap16_bytes)
  have l: "DO_HTONL d y =
     (if 4 \<le> length d
      then Inr (ucast (drop_bit 24 y) # ucast (drop_bit 16 y) # ucast (drop_bit 8 y) # ucast y # drop 4 d)
      else Inl OutOfBounds)"
    using four by (auto simp: DO_HTONL_def store32_def swap32_bytes)
  have "bind_r (DO_HTONS d x) DO_NTOHS = (if 2 \<le> length d then Inr x else Inl OutOfBounds)"
    unfolding s by (simp add: DO_NTOHS_def load16_def bytes_swap16 join16)
  moreover have "bind_r (DO_HTONL d y) DO_NTOHL = (if 4 \<le> length d then Inr y else Inl OutOfBounds)"
    unfolding l by (simp add: DO_NTOHL_def load32_def bytes_swap32 join32)
  ultimately show ?thesis using s l by blast
qed

text \<open>
  on machines of either byte order the copying macros do what the others do on the
  little-endian ones.
\<close>

theorem memcpy_macros_agree:
  "DO_NTOHS_memcpy big s = DO_NTOHS s \<and> DO_HTONS_memcpy big d x = DO_HTONS d x"
  by (simp add: DO_NTOHS_memcpy_def DO_NTOHS_def memcpy_load16_def load16_def ntohs_def bytes_swap16
      DO_HTONS_memcpy_def DO_HTONS_def memcpy_store16_def store16_def swap16_bytes)

end
