(* ===== verification/Cstring.thy ===== *)
theory Cstring
  imports Prelude
begin

text \<open>
  The functions of the C library on strings and characters that the program
  calls, in the "C" locale: character classes, comparison without case,
  \<open>strtol\<close>, searches, and the conversions \<open>%d\<close> and \<open>%x\<close> of \<open>snprintf\<close>. A C string
  is the list of its characters without the terminating NUL; a pointer into a
  string is the suffix it points to.
\<close>

section \<open>Characters\<close>

definition ord :: "char \<Rightarrow> int" where
  "ord c = of_char c"

definition isspace :: "char \<Rightarrow> bool" where
  "isspace c \<longleftrightarrow> ord c = 32 \<or> (9 \<le> ord c \<and> ord c \<le> 13)"

definition isdigit :: "char \<Rightarrow> bool" where
  "isdigit c \<longleftrightarrow> 48 \<le> ord c \<and> ord c \<le> 57"

definition tolower :: "char \<Rightarrow> char" where
  "tolower c = (if 65 \<le> ord c \<and> ord c \<le> 90 then char_of (ord c + 32) else c)"

lemma ord_bounds [simp]: "0 \<le> ord c" "ord c < 256"
  by (simp_all add: ord_def of_char_def horner_sum_bit_eq_take_bit)

lemma ord_char_of [simp]: "ord (char_of n) = n mod 256"
  by (simp add: ord_def)

lemma ord_inject [simp]: "ord c = ord d \<longleftrightarrow> c = d"
  by (simp add: ord_def)

lemma ord_tolower: "ord (tolower c) = (if 65 \<le> ord c \<and> ord c \<le> 90 then ord c + 32 else ord c)"
  by (simp add: tolower_def)

lemma isspace_tolower [simp]: "isspace (tolower c) = isspace c"
  by (auto simp: isspace_def ord_tolower)

lemma tolower_idem [simp]: "tolower (tolower c) = tolower c"
  by (simp add: tolower_def)

lemma tolower_eq_iff_nonalpha:
  assumes "ord d < 65 \<or> (90 < ord d \<and> ord d < 97) \<or> 122 < ord d"
  shows "tolower c = d \<longleftrightarrow> c = d"
  using assms unfolding ord_inject [symmetric] ord_tolower by auto

section \<open>Comparison without case\<close>

fun strcasecmp :: "string \<Rightarrow> string \<Rightarrow> int" where
  "strcasecmp [] [] = 0"
| "strcasecmp [] (d # ds) = - ord (tolower d)"
| "strcasecmp (c # cs) [] = ord (tolower c)"
| "strcasecmp (c # cs) (d # ds) =
     (if tolower c = tolower d then strcasecmp cs ds
      else ord (tolower c) - ord (tolower d))"

lemma strcasecmp_fold:
  "map tolower s = map tolower s' \<Longrightarrow> strcasecmp s t = strcasecmp s' t"
proof (induction s t arbitrary: s' rule: strcasecmp.induct)
  case (4 c cs d ds)
  then obtain c' cs' where "s' = c' # cs'" by (cases s') auto
  with 4 show ?case by auto
qed (auto simp: Cons_eq_map_conv)

section \<open>strtol\<close>

definition digit_value :: "char \<Rightarrow> int option" where
  "digit_value c =
     (if isdigit c then Some (ord c - 48)
      else let n = ord (tolower c) in if 97 \<le> n \<and> n \<le> 122 then Some (n - 87) else None)"

definition is_digit_of :: "int \<Rightarrow> char \<Rightarrow> bool" where
  "is_digit_of base c = (case digit_value c of None \<Rightarrow> False | Some v \<Rightarrow> v < base)"

definition digits_value :: "int \<Rightarrow> string \<Rightarrow> int" where
  "digits_value base ds =
     foldl (\<lambda>acc c. acc * base + (case digit_value c of None \<Rightarrow> 0 | Some v \<Rightarrow> v)) 0 ds"

text \<open>The optional sign: (negative, rest).\<close>

fun strtol_sign :: "string \<Rightarrow> bool \<times> string" where
  "strtol_sign (c # s) =
     (if c = CHR ''-'' then (True, s) else if c = CHR ''+'' then (False, s) else (False, c # s))"
| "strtol_sign [] = (False, [])"

text \<open>
  The base prefix: \<open>0x\<close> counts only in front of a hexadecimal digit, as the
  subject sequence of the C standard demands. (base, digits and what follows).
\<close>

definition has_hex_prefix :: "string \<Rightarrow> bool" where
  "has_hex_prefix s \<longleftrightarrow>
     (case s of
        c # x # d # _ \<Rightarrow> c = CHR ''0'' \<and> tolower x = CHR ''x'' \<and> is_digit_of 16 d
      | _ \<Rightarrow> False)"

definition strtol_base :: "int \<Rightarrow> string \<Rightarrow> int \<times> string" where
  "strtol_base base s =
     (if (base = 0 \<or> base = 16) \<and> has_hex_prefix s then (16, drop 2 s)
      else if base = 0 then (if s \<noteq> [] \<and> hd s = CHR ''0'' then 8 else 10, s)
      else (base, s))"

definition clamp_long :: "int \<Rightarrow> int" where
  "clamp_long v = (if v > LONG_MAX then LONG_MAX else if v < LONG_MIN then LONG_MIN else v)"

lemma clamp_long_id [simp]: "LONG_MIN \<le> v \<Longrightarrow> v \<le> LONG_MAX \<Longrightarrow> clamp_long v = v"
  by (simp add: clamp_long_def)

text \<open>\<open>strtol(s,&end,base)\<close>: (value, end); without a conversion the end is \<open>s\<close> itself.\<close>

definition strtol :: "string \<Rightarrow> int \<Rightarrow> int \<times> string" where
  "strtol s base =
     (let (neg, s1) = strtol_sign (dropWhile isspace s);
          (b, s2) = strtol_base base s1;
          ds = takeWhile (is_digit_of b) s2;
          v = digits_value b ds
      in if ds = [] then (0, s)
         else (clamp_long (if neg then - v else v), dropWhile (is_digit_of b) s2))"

lemma digit_value_tolower [simp]: "digit_value (tolower c) = digit_value c"
  by (auto simp: digit_value_def isdigit_def ord_tolower)

lemma is_digit_of_tolower [simp]: "is_digit_of b (tolower c) = is_digit_of b c"
  by (simp add: is_digit_of_def)

lemma digits_value_tolower [simp]: "digits_value b (map tolower ds) = digits_value b ds"
proof -
  have "foldl (\<lambda>acc c. acc * b + (case digit_value c of None \<Rightarrow> 0 | Some v \<Rightarrow> v)) a (map tolower ds) =
        foldl (\<lambda>acc c. acc * b + (case digit_value c of None \<Rightarrow> 0 | Some v \<Rightarrow> v)) a ds" for a
    by (induction ds arbitrary: a) simp_all
  then show ?thesis by (simp add: digits_value_def)
qed

lemma dropWhile_map_fold: "(\<And>c. P (f c) = P c) \<Longrightarrow> dropWhile P (map f s) = map f (dropWhile P s)"
  by (induction s) auto

lemma takeWhile_map_fold: "(\<And>c. P (f c) = P c) \<Longrightarrow> takeWhile P (map f s) = map f (takeWhile P s)"
  by (induction s) auto

lemma strtol_sign_tolower:
  "strtol_sign (map tolower s) = (fst (strtol_sign s), map tolower (snd (strtol_sign s)))"
  by (cases s) (auto simp: tolower_eq_iff_nonalpha ord_def)

lemma has_hex_prefix_tolower: "has_hex_prefix (map tolower s) = has_hex_prefix s"
  by (auto simp: has_hex_prefix_def tolower_eq_iff_nonalpha ord_def split: list.splits)

lemma hd_map_tolower_zero:
  "map tolower s \<noteq> [] \<and> hd (map tolower s) = CHR ''0'' \<longleftrightarrow> s \<noteq> [] \<and> hd s = CHR ''0''"
  by (cases s) (simp_all add: tolower_eq_iff_nonalpha ord_def)

lemma strtol_base_tolower:
  "strtol_base b (map tolower s) = (fst (strtol_base b s), map tolower (snd (strtol_base b s)))"
  unfolding strtol_base_def has_hex_prefix_tolower hd_map_tolower_zero by (simp add: drop_map)

lemma strtol_tolower:
  "strtol (map tolower s) b = (fst (strtol s b), map tolower (snd (strtol s b)))"
  by (simp add: strtol_def dropWhile_map_fold takeWhile_map_fold strtol_sign_tolower
      strtol_base_tolower split_beta Let_def)

lemma strtol_fold_case:
  assumes "map tolower s = map tolower t"
  shows "fst (strtol s b) = fst (strtol t b) \<and> (snd (strtol s b) = [] \<longleftrightarrow> snd (strtol t b) = [])"
  using strtol_tolower [of s b] strtol_tolower [of t b] assms
  by (metis fst_conv snd_conv map_is_Nil_conv)

section \<open>Printing\<close>

definition digit_char :: "int \<Rightarrow> char" where
  "digit_char d = (if d < 10 then char_of (48 + d) else char_of (87 + d))"

text \<open>The digits of \<open>n\<close> in base \<open>b\<close>, most significant first.\<close>

function print_base :: "int \<Rightarrow> int \<Rightarrow> string" where
  "print_base b n =
     (if b < 2 \<or> n < b then [digit_char n]
      else print_base b (n div b) @ [digit_char (n mod b)])"
  by pat_completeness auto

termination
proof (relation "measure (\<lambda>(b, n). nat n)")
  fix b n :: int
  assume "\<not> (b < 2 \<or> n < b)"
  then have "n div b < n" "0 \<le> n div b"
    by (simp_all add: int_div_less_self pos_imp_zdiv_nonneg_iff)
  then show "((b, n div b), (b, n)) \<in> measure (\<lambda>(b, n). nat n)" by simp
qed simp

declare print_base.simps [simp del]

text \<open>\<open>%d\<close>, and \<open>%02x\<close> of a value that is not negative.\<close>

definition print_int :: "int \<Rightarrow> string" where
  "print_int v = (if v < 0 then CHR ''-'' # print_base 10 (- v) else print_base 10 v)"

definition print_02x :: "int \<Rightarrow> string" where
  "print_02x n = (let s = print_base 16 n in replicate (2 - length s) CHR ''0'' @ s)"

section \<open>What is printed reads back\<close>

lemma digit_char_table:
  "list_all (\<lambda>d. digit_value (digit_char d) = Some d \<and>
      (digit_char d = CHR ''0'' \<longleftrightarrow> d = 0) \<and> \<not> isspace (digit_char d) \<and>
      digit_char d \<noteq> CHR ''-'' \<and> digit_char d \<noteq> CHR ''+'' \<and>
      (d < 16 \<longrightarrow> tolower (digit_char d) \<noteq> CHR ''x'')) (map int [0..<36])"
  by code_simp

lemma digit_char_facts:
  assumes "0 \<le> d" "d < 36"
  shows "digit_value (digit_char d) = Some d" "digit_char d = CHR ''0'' \<longleftrightarrow> d = 0"
    "\<not> isspace (digit_char d)" "digit_char d \<noteq> CHR ''-''" "digit_char d \<noteq> CHR ''+''"
    "d < 16 \<Longrightarrow> tolower (digit_char d) \<noteq> CHR ''x''"
  using bspec [OF digit_char_table [unfolded list_all_iff], OF int_in_upt [of d 36]] assms
  by simp_all

lemma digits_value_snoc [simp]:
  "digits_value b (s @ [c]) =
     digits_value b s * b + (case digit_value c of None \<Rightarrow> 0 | Some v \<Rightarrow> v)"
  by (simp add: digits_value_def)

lemma digits_value_zeros [simp]:
  "digits_value b (CHR ''0'' # s) = digits_value b s"
  "digits_value b (replicate k CHR ''0'' @ s) = digits_value b s"
proof -
  have zero: "digit_value CHR ''0'' = Some 0" by code_simp
  then show one: "digits_value b (CHR ''0'' # s) = digits_value b s" for s
    by (simp add: digits_value_def)
  show "digits_value b (replicate k CHR ''0'' @ s) = digits_value b s"
    by (induction k) (simp_all add: one)
qed

lemma print_base_digits:
  assumes "2 \<le> b" "b \<le> 36" "0 \<le> n"
  shows "digits_value b (print_base b n) = n \<and> print_base b n \<noteq> [] \<and>
    list_all (is_digit_of b) (print_base b n) \<and>
    (\<exists>d. 0 \<le> d \<and> d < b \<and> hd (print_base b n) = digit_char d \<and> (0 < n \<longrightarrow> 0 < d)) \<and>
    (n = 0 \<longrightarrow> print_base b n = ''0'')"
  using assms
proof (induction b n rule: print_base.induct)
  case (1 b n)
  show ?case
  proof (cases "n < b")
    case True
    with "1.prems" have "print_base b n = [digit_char n]"
      by (subst print_base.simps) simp
    moreover have "digit_char 0 = CHR ''0''" by code_simp
    ultimately show ?thesis
      using True "1.prems" digit_char_facts [of n]
      by (auto simp: digits_value_def is_digit_of_def)
  next
    case False
    with "1.prems" have eq: "print_base b n = print_base b (n div b) @ [digit_char (n mod b)]"
      by (subst print_base.simps) simp
    have q: "0 < n div b" "0 \<le> n mod b" "n mod b < b"
      using False "1.prems" by (simp_all add: pos_imp_zdiv_pos_iff)
    moreover have "n mod b < 36" using q "1.prems" by linarith
    ultimately show ?thesis
      using 1 False digit_char_facts [of "n mod b"] unfolding eq
      by (auto simp: is_digit_of_def)
  qed
qed

lemma takeWhile_all: "list_all P s \<Longrightarrow> takeWhile P s = s"
  by (induction s) auto

lemma dropWhile_all: "list_all P s \<Longrightarrow> dropWhile P s = []"
  by (induction s) auto

lemma strtol_plain:
  assumes "strtol_sign (dropWhile isspace s) = (neg, s1)"
    and "strtol_base base s1 = (b, ds)" "ds \<noteq> []" "list_all (is_digit_of b) ds"
  shows "strtol s base = (clamp_long (if neg then - digits_value b ds else digits_value b ds), [])"
  using assms unfolding strtol_def by (simp add: takeWhile_all dropWhile_all)

lemma dropWhile_front:
  "list_all P ws \<Longrightarrow> s = [] \<or> \<not> P (hd s) \<Longrightarrow> dropWhile P (ws @ s) = s"
  by (induction ws) (auto simp: dropWhile_eq_self_iff)

text \<open>Decimal, hexadecimal and octal text of a number, read with base 0.\<close>

lemma strtol_base_print_int:
  assumes "0 \<le> n"
  obtains b where "strtol_base 0 (print_base 10 n) = (b, print_base 10 n)"
    "list_all (is_digit_of b) (print_base 10 n)" "digits_value b (print_base 10 n) = n"
proof (cases "n = 0")
  case True
  have "print_base 10 0 = ''0''" "strtol_base 0 ''0'' = (8, ''0'')" "is_digit_of 8 CHR ''0''"
    "digits_value 8 ''0'' = 0" by code_simp+
  with True show ?thesis by (intro that [of 8]) simp_all
next
  case False
  note p = print_base_digits [of 10 n, simplified, OF assms]
  let ?s = "print_base 10 n"
  from p obtain d where d: "0 \<le> d" "d < 10" "hd ?s = digit_char d" "0 < n \<longrightarrow> 0 < d" by blast
  then have h: "hd ?s \<noteq> CHR ''0''" using False assms digit_char_facts [of d] by simp
  then have "\<not> has_hex_prefix ?s"
    by (auto simp: has_hex_prefix_def split: list.splits)
  with h have "strtol_base 0 ?s = (10, ?s)" by (simp add: strtol_base_def)
  with p show ?thesis by (intro that [of 10]) simp_all
qed

lemma strtol_print_int:
  assumes "list_all isspace ws"
  shows "strtol (ws @ print_int v) 0 = (clamp_long v, [])"
proof -
  let ?s = "print_base 10 \<bar>v\<bar>"
  obtain b where b: "strtol_base 0 ?s = (b, ?s)" "list_all (is_digit_of b) ?s"
    "digits_value b ?s = \<bar>v\<bar>"
    using strtol_base_print_int [of "\<bar>v\<bar>"] by auto
  from print_base_digits [of 10 "\<bar>v\<bar>"] obtain d c r
    where s: "?s = c # r" and d: "0 \<le> d" "d < 10" "c = digit_char d"
    by (cases ?s) auto
  have m: "\<not> isspace CHR ''-''" by code_simp
  have "dropWhile isspace (ws @ print_int v) = print_int v"
    using assms d m s digit_char_facts(3) [of d]
    by (intro dropWhile_front) (auto simp: print_int_def)
  moreover have "strtol_sign (print_int v) = (v < 0, ?s)"
    using d s digit_char_facts(4,5) [of d] by (auto simp: print_int_def)
  ultimately have "strtol_sign (dropWhile isspace (ws @ print_int v)) = (v < 0, ?s)" by simp
  from strtol_plain [OF this b(1) _ b(2)] s have
    "strtol (ws @ print_int v) 0 = (clamp_long (if v < 0 then - \<bar>v\<bar> else \<bar>v\<bar>), [])"
    unfolding b(3) by simp
  then show ?thesis by (cases "v < 0") simp_all
qed

lemma strtol_octal:
  assumes "0 \<le> n"
  shows "strtol (CHR ''0'' # print_base 8 n) 0 = (clamp_long n, [])"
proof -
  note p = print_base_digits [of 8 n, simplified, OF assms]
  let ?s = "print_base 8 n"
  from p obtain d where d: "0 \<le> d" "d < 8" "hd ?s = digit_char d" by blast
  have z: "is_digit_of 8 CHR ''0''" "\<not> isspace CHR ''0''" by code_simp+
  have "tolower (hd ?s) \<noteq> CHR ''x''" using d digit_char_facts(6) [of d] by simp
  then have "\<not> has_hex_prefix (CHR ''0'' # ?s)"
    by (auto simp: has_hex_prefix_def split: list.splits)
  then have b: "strtol_base 0 (CHR ''0'' # ?s) = (8, CHR ''0'' # ?s)" by (simp add: strtol_base_def)
  from strtol_plain [OF _ b, of "CHR ''0'' # ?s" False] p z show ?thesis by simp
qed

lemma strtol_hex:
  assumes "0 \<le> n"
  shows "strtol (''0x'' @ print_02x n) 0 = (clamp_long n, [])"
proof -
  note p = print_base_digits [of 16 n, simplified, OF assms]
  let ?s = "print_02x n"
  have z: "is_digit_of 16 CHR ''0''" "\<not> isspace CHR ''0''" "tolower CHR ''x'' = CHR ''x''"
    by code_simp+
  have s: "?s \<noteq> []" "list_all (is_digit_of 16) ?s" "digits_value 16 ?s = n"
    using p z by (auto simp: print_02x_def Let_def list_all_iff)
  then obtain c r where c: "?s = c # r" "is_digit_of 16 c" by (cases ?s) auto
  then have "has_hex_prefix (''0x'' @ ?s)" by (simp add: has_hex_prefix_def z)
  then have b: "strtol_base 0 (''0x'' @ ?s) = (16, ?s)" by (simp add: strtol_base_def)
  from strtol_plain [OF _ b, of "''0x'' @ ?s" False] s z show ?thesis by simp
qed

lemma strtol_blank:
  assumes "list_all isspace ws"
  shows "strtol ws 0 = (0, ws)"
proof -
  have "dropWhile isspace ws = []" using assms by (rule dropWhile_all)
  then have "strtol_sign (dropWhile isspace ws) = (False, [])"
    by (simp only: strtol_sign.simps)
  then show ?thesis unfolding strtol_def by (simp add: strtol_base_def has_hex_prefix_def)
qed

section \<open>strtoul\<close>

text \<open>The value of \<open>strtoul(s,NULL,base)\<close>: too large a number gives \<open>ULONG_MAX\<close>, a minus sign negates modulo \<open>2^64\<close>.\<close>

definition strtoul :: "string \<Rightarrow> int \<Rightarrow> u64" where
  "strtoul s base =
     (let (neg, s1) = strtol_sign (dropWhile isspace s);
          (b, s2) = strtol_base base s1;
          v = digits_value b (takeWhile (is_digit_of b) s2)
      in if v > 18446744073709551615 then - 1
         else if neg then - word_of_int v else word_of_int v)"

lemma strtoul_print_base:
  "strtoul (print_base 10 (uint (w :: u64))) 10 = w"
proof -
  let ?s = "print_base 10 (uint w)"
  note p = print_base_digits [of 10 "uint w", simplified]
  obtain d c r where s: "?s = c # r" and d: "0 \<le> d" "d < 10" "c = digit_char d"
    using p by (cases ?s) auto
  have "strtol_sign (dropWhile isspace ?s) = (False, ?s)"
    using d s digit_char_facts(3,4,5) [of d] by simp
  moreover have "strtol_base 10 ?s = (10, ?s)" by (simp add: strtol_base_def)
  moreover have "digits_value 10 (takeWhile (is_digit_of 10) ?s) = uint w"
    using p by (simp add: takeWhile_all)
  moreover have "uint w \<le> 18446744073709551615" using uint_lt2p [of w] by simp
  ultimately show ?thesis by (simp add: strtoul_def Let_def)
qed

end
