(* ===== verification/Ringbuffer.thy ===== *)
theory Ringbuffer
  imports Prelude
begin

text \<open>
  The byte ring of \<open>ringbuffer.c\<close>. \<open>ringbuffer_init\<close> maps one shared-memory
  file of \<open>size\<close> bytes twice, back to back, so address \<open>i < 2 * size\<close> of the
  buffer is byte \<open>i mod size\<close> of the file; an access beyond \<open>2 * size\<close>, or to a
  buffer that is not mapped, is a fault. The indices are \<open>size_t\<close> values and wrap.

  \<open>byte_fifo\<close> is the contract the rest of the program relies on (a bounded
  FIFO of bytes); the model of \<open>ringbuffer.c\<close> interprets it.
\<close>

section \<open>Memory: the doubly mapped file\<close>

datatype mapping = Unmapped | Mirrored "u8 list"

definition load_bytes :: "mapping \<Rightarrow> nat \<Rightarrow> nat \<Rightarrow> u8 list result" where
  "load_bytes m i n =
     (case m of
        Unmapped \<Rightarrow> Inl Segfault
      | Mirrored f \<Rightarrow>
          if i + n \<le> 2 * length f then Inr (map (\<lambda>k. f ! (k mod length f)) [i..<i + n])
          else Inl OutOfBounds)"

fun poke :: "u8 list \<Rightarrow> nat \<Rightarrow> u8 list \<Rightarrow> u8 list" where
  "poke f i [] = f"
| "poke f i (b # bs) = poke (f[i mod length f := b]) (Suc i) bs"

definition store_bytes :: "mapping \<Rightarrow> nat \<Rightarrow> u8 list \<Rightarrow> mapping result" where
  "store_bytes m i bs =
     (case m of
        Unmapped \<Rightarrow> Inl Segfault
      | Mirrored f \<Rightarrow>
          if i + length bs \<le> 2 * length f then Inr (Mirrored (poke f i bs))
          else Inl OutOfBounds)"

text \<open>\<open>memcpy(dest,src,n)\<close> between an ordinary object and the ring.\<close>

definition copy_in :: "mapping \<Rightarrow> nat \<Rightarrow> u8 list \<Rightarrow> nat \<Rightarrow> mapping result" where
  "copy_in m i src n =
     (if n \<le> length src then store_bytes m i (take n src) else Inl OutOfBounds)"

definition copy_out :: "mapping \<Rightarrow> nat \<Rightarrow> u8 list \<Rightarrow> nat \<Rightarrow> u8 list result" where
  "copy_out m i dest n =
     (if n \<le> length dest
      then bind_r (load_bytes m i n) (\<lambda>bs. Inr (bs @ drop n dest))
      else Inl OutOfBounds)"

section \<open>The structure and its operations\<close>

record ringbuffer_s =
  rb_address :: mapping
  rb_size :: size_t
  rb_used :: size_t
  rb_ridx :: size_t
  rb_widx :: size_t

definition min_size_t :: "size_t \<Rightarrow> size_t \<Rightarrow> size_t" where
  "min_size_t a b = (if a < b then a else b)"

definition ringbuffer_avail :: "ringbuffer_s \<Rightarrow> size_t" where
  "ringbuffer_avail rbuf = rb_size rbuf - (rb_widx rbuf - rb_ridx rbuf)"

definition ringbuffer_used :: "ringbuffer_s \<Rightarrow> size_t" where
  "ringbuffer_used rbuf = rb_widx rbuf - rb_ridx rbuf"

definition old_ringbuffer_used :: "ringbuffer_s \<Rightarrow> size_t" where
  "old_ringbuffer_used rbuf =
     (let size = rb_size rbuf; widx = rb_widx rbuf; ridx = rb_ridx rbuf;
          temp = (if widx > size then (if ridx > size then widx - ridx else ridx - (widx - size))
                  else (if ridx > size then widx - (ridx - size) else widx - ridx));
          temp' = (if sint temp < 0 then - temp else temp)
      in temp')"

definition ringbuffer_write ::
  "ringbuffer_s \<Rightarrow> u8 list \<Rightarrow> size_t \<Rightarrow> (ringbuffer_s \<times> size_t) result" where
  "ringbuffer_write rbuf src amount =
     assert_c (amount > 0)
       (let len = min_size_t (rb_size rbuf - ringbuffer_used rbuf) amount
        in if len > 0
           then bind_r (copy_in (rb_address rbuf) (unat (rb_widx rbuf)) src (unat len)) (\<lambda>m.
                  Inr (rbuf\<lparr>rb_address := m, rb_widx := rb_widx rbuf + len\<rparr>, len))
           else Inr (rbuf, len))"

text \<open>
  \<open>atomic_compare_and_swap\<close> returns the value it found and stores the new one
  when that was the expected value: (new contents, value found).
\<close>

definition atomic_compare_and_swap :: "size_t \<Rightarrow> size_t \<Rightarrow> size_t \<Rightarrow> size_t \<times> size_t" where
  "atomic_compare_and_swap cur old new = (if cur = old then new else cur, cur)"

text \<open>
  One pass of the retry loop that moves \<open>widx\<close> down by \<open>size\<close>: (structure, whether
  the exchange failed, so that the loop goes round again).
\<close>

definition widx_wrap_try :: "ringbuffer_s \<Rightarrow> size_t \<Rightarrow> ringbuffer_s \<times> bool" where
  "widx_wrap_try rbuf temp =
     (let temp2 = temp - rb_size rbuf;
          r = atomic_compare_and_swap (rb_widx rbuf) temp temp2
      in (rbuf\<lparr>rb_widx := fst r\<rparr>, snd r \<noteq> temp))"

text \<open>Without another thread the exchange succeeds in its first pass.\<close>

lemma widx_wrap_try_alone [simp]:
  "temp = rb_widx rbuf \<Longrightarrow>
   widx_wrap_try rbuf temp = (rbuf\<lparr>rb_widx := rb_widx rbuf - rb_size rbuf\<rparr>, False)"
  by (simp add: widx_wrap_try_def atomic_compare_and_swap_def Let_def)

definition ringbuffer_read ::
  "ringbuffer_s \<Rightarrow> u8 list \<Rightarrow> size_t \<Rightarrow> (ringbuffer_s \<times> u8 list \<times> size_t) result" where
  "ringbuffer_read rbuf dest amount =
     assert_c (amount > 0)
       (let size = rb_size rbuf; used = ringbuffer_used rbuf
        in if used > 0
           then let len = min_size_t used amount
                in bind_r (copy_out (rb_address rbuf) (unat (rb_ridx rbuf)) dest (unat len)) (\<lambda>dest'.
                     let rbuf1 = rbuf\<lparr>rb_ridx := rb_ridx rbuf + len\<rparr>;
                         rbuf2 = (if rb_ridx rbuf1 > size
                                  then let rbuf' = fst (widx_wrap_try rbuf1 (rb_widx rbuf1))
                                       in rbuf'\<lparr>rb_ridx := rb_ridx rbuf' - size\<rparr>
                                  else rbuf1)
                     in Inr (rbuf2, dest', len))
           else Inr (rbuf, dest, 0))"

definition ringbuffer_peek ::
  "ringbuffer_s \<Rightarrow> u8 list \<Rightarrow> size_t \<Rightarrow> (ringbuffer_s \<times> u8 list \<times> size_t) result" where
  "ringbuffer_peek rbuf dest amount =
     assert_c (amount > 0)
       (let used = ringbuffer_used rbuf
        in if used > 0
           then let len = min_size_t used amount
                in bind_r (copy_out (rb_address rbuf) (unat (rb_ridx rbuf)) dest (unat len)) (\<lambda>dest'.
                     Inr (rbuf, dest', len))
           else Inr (rbuf, dest, 0))"

definition ringbuffer_reset :: "ringbuffer_s \<Rightarrow> ringbuffer_s \<times> int" where
  "ringbuffer_reset buff = (buff\<lparr>rb_ridx := 0, rb_widx := 0\<rparr>, 0)"

text \<open>\<open>munmap\<close> of the whole mapping; \<open>munmap_errno\<close> is the \<open>errno\<close> it leaves, 0 on success.\<close>

definition ringbuffer_destroy :: "int \<Rightarrow> ringbuffer_s \<Rightarrow> ringbuffer_s \<times> int" where
  "ringbuffer_destroy munmap_errno rbuf =
     (if munmap_errno = 0 then (rbuf\<lparr>rb_address := Unmapped\<rparr>, 0) else (rbuf, munmap_errno))"

section \<open>Well-formed rings and their contents\<close>

definition rb_bytes :: "ringbuffer_s \<Rightarrow> u8 list" where
  "rb_bytes rbuf =
     (case rb_address rbuf of
        Unmapped \<Rightarrow> []
      | Mirrored f \<Rightarrow> map (\<lambda>k. f ! (k mod length f)) [unat (rb_ridx rbuf)..<unat (rb_widx rbuf)])"

definition rb_capacity :: "ringbuffer_s \<Rightarrow> nat" where
  "rb_capacity rbuf = unat (rb_size rbuf)"

definition rb_inv :: "ringbuffer_s \<Rightarrow> bool" where
  "rb_inv rbuf \<longleftrightarrow>
     (case rb_address rbuf of
        Unmapped \<Rightarrow> False
      | Mirrored f \<Rightarrow> length f = unat (rb_size rbuf)) \<and>
     0 < unat (rb_size rbuf) \<and> unat (rb_size rbuf) < 2 ^ 62 \<and>
     unat (rb_ridx rbuf) \<le> unat (rb_size rbuf) \<and>
     unat (rb_ridx rbuf) \<le> unat (rb_widx rbuf) \<and>
     unat (rb_widx rbuf) \<le> unat (rb_ridx rbuf) + unat (rb_size rbuf)"

section \<open>Memory lemmas\<close>

lemma length_poke [simp]: "length (poke f i bs) = length f"
  by (induction f i bs rule: poke.induct) simp_all

lemma mod_eq_close:
  assumes "k mod n = i mod n" "k \<le> i" "i < k + (n::nat)"
  shows "k = i"
proof (rule ccontr)
  assume "k \<noteq> i"
  with assms(2) have "0 < i - k" by simp
  moreover have "n dvd i - k"
    using assms(1,2) by (metis mod_eq_dvd_iff_nat)
  ultimately have "n \<le> i - k" by (simp add: dvd_imp_le)
  with assms(2,3) show False by simp
qed

lemma mod_window_eq:
  assumes "lo \<le> i" "i < lo + n" "lo \<le> k" "k < lo + (n::nat)"
  shows "k mod n = i mod n \<longleftrightarrow> k = i"
  using mod_eq_close [of k n i] mod_eq_close [of i n k] assms
  by (cases "k \<le> i") auto

text \<open>
  Addresses of one window of \<open>length f\<close> consecutive positions are different
  bytes of the file, so a store inside the window is seen exactly there.
\<close>

lemma poke_window:
  assumes "f \<noteq> []" "lo \<le> i" "i + length bs \<le> lo + length f"
    and "lo \<le> k" "k < lo + length f"
  shows "poke f i bs ! (k mod length f) =
    (if i \<le> k \<and> k < i + length bs then bs ! (k - i) else f ! (k mod length f))"
  using assms
proof (induction bs arbitrary: f i)
  case Nil
  then show ?case by auto
next
  case (Cons b bs)
  let ?f = "f[i mod length f := b]"
  have "poke ?f (Suc i) bs ! (k mod length ?f) =
      (if Suc i \<le> k \<and> k < Suc i + length bs then bs ! (k - Suc i) else ?f ! (k mod length ?f))"
    by (rule Cons.IH) (use Cons.prems in auto)
  moreover have "k mod length f = i mod length f \<longleftrightarrow> k = i"
    by (rule mod_window_eq [of lo]) (use Cons.prems in auto)
  ultimately show ?case
    using Cons.prems by (auto simp: nth_list_update nth_Cons' Suc_diff_Suc)
qed


lemma poke_prefix_window:
  assumes "f \<noteq> []" "length bs \<le> length f"
    and "i \<le> k" "k < i + length bs"
  shows "poke f i bs ! (k mod length f) = bs ! (k - i)"
  using poke_window [of f i i bs k] assms by simp

section \<open>Index arithmetic under the invariant\<close>

lemma unat_min_size_t [simp]: "unat (min_size_t a b) = min (unat a) (unat b)"
  by (simp add: min_size_t_def word_less_nat_alt min_def)

lemma word_gt_0_unat: "(0 < (a :: size_t)) \<longleftrightarrow> 0 < unat a"
  by (simp add: word_less_nat_alt)

lemma unat_add_small: "unat a + unat b < 2 ^ 64 \<Longrightarrow> unat (a + b :: size_t) = unat a + unat b"
  by (simp add: unat_word_ariths)

lemma unat_sub_le: "unat b \<le> unat a \<Longrightarrow> unat (a - b :: size_t) = unat a - unat b"
  by (simp add: unat_sub word_le_nat_alt)

lemma sint_nonneg_size_t: "unat (x :: size_t) < 2 ^ 63 \<Longrightarrow> \<not> sint x < 0"
proof -
  assume "unat x < 2 ^ 63"
  then have "uint x < 2 ^ 63"
    by (metis of_nat_less_iff of_nat_numeral of_nat_power uint_nat)
  moreover have "sint x = (uint x + 2 ^ 63) mod 2 ^ 64 - 2 ^ 63"
    using int_word_sint [of "uint x", where 'a = 64] by simp
  ultimately show ?thesis by (simp add: mod_pos_pos_trivial)
qed

lemma rb_invE:
  assumes "rb_inv rbuf"
  obtains f where "rb_address rbuf = Mirrored f" "length f = unat (rb_size rbuf)"
    "0 < unat (rb_size rbuf)" "unat (rb_size rbuf) < 2 ^ 62"
    "unat (rb_ridx rbuf) \<le> unat (rb_size rbuf)"
    "unat (rb_ridx rbuf) \<le> unat (rb_widx rbuf)"
    "unat (rb_widx rbuf) \<le> unat (rb_ridx rbuf) + unat (rb_size rbuf)"
  using assms by (auto simp: rb_inv_def split: mapping.splits)

lemma length_rb_bytes:
  "rb_inv rbuf \<Longrightarrow> length (rb_bytes rbuf) = unat (rb_widx rbuf) - unat (rb_ridx rbuf)"
  by (erule rb_invE) (simp add: rb_bytes_def)

lemma unat_ringbuffer_used: "rb_inv rbuf \<Longrightarrow> unat (ringbuffer_used rbuf) = length (rb_bytes rbuf)"
  by (simp add: length_rb_bytes ringbuffer_used_def) (auto elim!: rb_invE simp: unat_sub_le)

lemma rb_bytes_le_capacity: "rb_inv rbuf \<Longrightarrow> length (rb_bytes rbuf) \<le> rb_capacity rbuf"
  by (simp add: length_rb_bytes rb_capacity_def) (auto elim!: rb_invE)

lemma unat_ringbuffer_avail:
  "rb_inv rbuf \<Longrightarrow> unat (ringbuffer_avail rbuf) = rb_capacity rbuf - length (rb_bytes rbuf)"
  using unat_ringbuffer_used [of rbuf] rb_bytes_le_capacity [of rbuf]
  by (simp add: ringbuffer_avail_def ringbuffer_used_def rb_capacity_def unat_sub_le)

lemma unat_free_space:
  "rb_inv rbuf \<Longrightarrow>
   unat (rb_size rbuf - ringbuffer_used rbuf) = rb_capacity rbuf - length (rb_bytes rbuf)"
  using unat_ringbuffer_avail [of rbuf] by (simp add: ringbuffer_avail_def ringbuffer_used_def)

section \<open>Each operation on the bytes of the ring\<close>

lemma copy_in_ring:
  assumes inv: "rb_inv rbuf" and n: "n \<le> rb_capacity rbuf - length (rb_bytes rbuf)"
    and src: "n \<le> length src"
  obtains f where "rb_address rbuf = Mirrored f"
    "copy_in (rb_address rbuf) (unat (rb_widx rbuf)) src n =
       Inr (Mirrored (poke f (unat (rb_widx rbuf)) (take n src)))"
proof -
  from inv obtain f where f: "rb_address rbuf = Mirrored f" "length f = unat (rb_size rbuf)"
    and i: "unat (rb_ridx rbuf) \<le> unat (rb_size rbuf)" "unat (rb_ridx rbuf) \<le> unat (rb_widx rbuf)"
    "unat (rb_widx rbuf) \<le> unat (rb_ridx rbuf) + unat (rb_size rbuf)"
    by (rule rb_invE)
  have "unat (rb_widx rbuf) + n \<le> 2 * length f"
    using n f(2) i by (simp add: length_rb_bytes [OF inv] rb_capacity_def)
  with f src show ?thesis
    by (intro that) (simp_all add: copy_in_def store_bytes_def min_absorb2)
qed

lemma rb_bytes_after_write:
  assumes inv: "rb_inv rbuf" and f: "rb_address rbuf = Mirrored f"
    and n: "unat n \<le> rb_capacity rbuf - length (rb_bytes rbuf)" and src: "unat n \<le> length src"
  defines "rbuf' \<equiv> rbuf\<lparr>rb_address := Mirrored (poke f (unat (rb_widx rbuf)) (take (unat n) src)),
                        rb_widx := rb_widx rbuf + n\<rparr>"
  shows "rb_bytes rbuf' = rb_bytes rbuf @ take (unat n) src \<and> rb_inv rbuf'"
proof -
  let ?r = "unat (rb_ridx rbuf)" and ?w = "unat (rb_widx rbuf)" and ?s = "unat (rb_size rbuf)"
  from inv f have lf: "length f = ?s" and s: "0 < ?s" "?s < 2 ^ 62"
    and i: "?r \<le> ?s" "?r \<le> ?w" "?w \<le> ?r + ?s"
    by (auto elim!: rb_invE)
  have n': "?w + unat n \<le> ?r + ?s"
    using n i by (simp add: length_rb_bytes [OF inv] rb_capacity_def)
  have w': "unat (rb_widx rbuf + n) = ?w + unat n"
    by (rule unat_add_small) (use n' i s in simp)
  have ne: "f \<noteq> []" using lf s by auto
  let ?g = "poke f ?w (take (unat n) src)"
  have g: "?g ! (k mod length f) =
      (if ?w \<le> k \<and> k < ?w + unat n then src ! (k - ?w) else f ! (k mod length f))"
    if "?r \<le> k" "k < ?w + unat n" for k
    using poke_window [of f ?r ?w "take (unat n) src" k] that n' i ne lf src
    by (auto simp: min_absorb2)
  have "map (\<lambda>k. ?g ! (k mod length f)) [?r..<?w + unat n] =
      map (\<lambda>k. f ! (k mod length f)) [?r..<?w] @ take (unat n) src"
  proof (rule nth_equalityI)
    show "length (map (\<lambda>k. ?g ! (k mod length f)) [?r..<?w + unat n]) =
        length (map (\<lambda>k. f ! (k mod length f)) [?r..<?w] @ take (unat n) src)"
      using i src by simp
  next
    fix j assume "j < length (map (\<lambda>k. ?g ! (k mod length f)) [?r..<?w + unat n])"
    then have j: "?r + j < ?w + unat n" by simp
    then show "map (\<lambda>k. ?g ! (k mod length f)) [?r..<?w + unat n] ! j =
        (map (\<lambda>k. f ! (k mod length f)) [?r..<?w] @ take (unat n) src) ! j"
      using g [of "?r + j"] i by (auto simp: nth_append add.commute)
  qed
  then show ?thesis
    using f lf i s n' w'
    by (simp add: rbuf'_def rb_bytes_def rb_inv_def)
qed

lemma ringbuffer_write_spec:
  assumes inv: "rb_inv rbuf" and a: "0 < amount" and src: "unat amount \<le> length src"
  obtains rbuf' n where "ringbuffer_write rbuf src amount = Inr (rbuf', n)"
    "unat n = min (rb_capacity rbuf - length (rb_bytes rbuf)) (unat amount)"
    "rb_bytes rbuf' = rb_bytes rbuf @ take (unat n) src"
    "rb_capacity rbuf' = rb_capacity rbuf" "rb_inv rbuf'" "rb_ridx rbuf' = rb_ridx rbuf"
proof -
  define n where "n = min_size_t (rb_size rbuf - ringbuffer_used rbuf) amount"
  have n: "unat n = min (rb_capacity rbuf - length (rb_bytes rbuf)) (unat amount)"
    by (simp add: n_def unat_free_space [OF inv])
  show ?thesis
  proof (cases "n = 0")
    case True
    then show ?thesis
      using a n inv n_def by (intro that [of rbuf n]) (simp_all add: ringbuffer_write_def Let_def)
  next
    case False
    then have pos: "0 < n" by (simp add: word_neq_0_conv)
    obtain f where f: "rb_address rbuf = Mirrored f"
      "copy_in (rb_address rbuf) (unat (rb_widx rbuf)) src (unat n) =
         Inr (Mirrored (poke f (unat (rb_widx rbuf)) (take (unat n) src)))"
      by (rule copy_in_ring [OF inv, of "unat n" src]) (use n src in auto)
    let ?rbuf = "rbuf\<lparr>rb_address := Mirrored (poke f (unat (rb_widx rbuf)) (take (unat n) src)),
                       rb_widx := rb_widx rbuf + n\<rparr>"
    have "rb_bytes ?rbuf = rb_bytes rbuf @ take (unat n) src \<and> rb_inv ?rbuf"
      by (rule rb_bytes_after_write [OF inv f(1)]) (use n src in auto)
    moreover have "ringbuffer_write rbuf src amount = Inr (?rbuf, n)"
      using a pos f by (simp add: ringbuffer_write_def Let_def n_def [symmetric])
    ultimately show ?thesis
      using n by (intro that [of ?rbuf n]) (simp_all add: rb_capacity_def)
  qed
qed


lemma copy_out_ring:
  assumes inv: "rb_inv rbuf" and n: "n \<le> length (rb_bytes rbuf)" and dest: "n \<le> length dest"
  shows "copy_out (rb_address rbuf) (unat (rb_ridx rbuf)) dest n =
    Inr (take n (rb_bytes rbuf) @ drop n dest)"
proof -
  from inv obtain f where f: "rb_address rbuf = Mirrored f" "length f = unat (rb_size rbuf)"
    and i: "unat (rb_ridx rbuf) \<le> unat (rb_size rbuf)" "unat (rb_ridx rbuf) \<le> unat (rb_widx rbuf)"
    "unat (rb_widx rbuf) \<le> unat (rb_ridx rbuf) + unat (rb_size rbuf)"
    by (rule rb_invE)
  have n': "unat (rb_ridx rbuf) + n \<le> unat (rb_widx rbuf)"
    using n i by (simp add: length_rb_bytes [OF inv])
  then have "take n [unat (rb_ridx rbuf)..<unat (rb_widx rbuf)] =
      [unat (rb_ridx rbuf)..<unat (rb_ridx rbuf) + n]"
    by (simp add: take_upt)
  with f i n' dest show ?thesis
    by (simp add: copy_out_def load_bytes_def rb_bytes_def take_map)
qed

text \<open>Moving both indices down by \<open>size\<close> changes neither the bytes nor the distance.\<close>

lemma rb_bytes_after_read:
  assumes inv: "rb_inv rbuf" and n: "unat n \<le> length (rb_bytes rbuf)"
  defines "rbuf1 \<equiv> rbuf\<lparr>rb_ridx := rb_ridx rbuf + n\<rparr>"
  defines "rbuf2 \<equiv> (if rb_ridx rbuf1 > rb_size rbuf
     then rbuf1\<lparr>rb_widx := rb_widx rbuf1 - rb_size rbuf, rb_ridx := rb_ridx rbuf1 - rb_size rbuf\<rparr>
     else rbuf1)"
  shows "rb_bytes rbuf2 = drop (unat n) (rb_bytes rbuf) \<and> rb_inv rbuf2"
proof -
  let ?r = "unat (rb_ridx rbuf)" and ?w = "unat (rb_widx rbuf)" and ?s = "unat (rb_size rbuf)"
  from inv obtain f where f: "rb_address rbuf = Mirrored f" and lf: "length f = ?s"
    and s: "0 < ?s" "?s < 2 ^ 62" and i: "?r \<le> ?s" "?r \<le> ?w" "?w \<le> ?r + ?s"
    by (rule rb_invE)
  have n': "?r + unat n \<le> ?w"
    using n i by (simp add: length_rb_bytes [OF inv])
  have r': "unat (rb_ridx rbuf + n) = ?r + unat n"
    by (rule unat_add_small) (use n' i s in simp)
  show ?thesis
  proof (cases "rb_ridx rbuf + n > rb_size rbuf")
    case True
    then have gt: "?s < ?r + unat n" by (simp add: word_less_nat_alt r')
    have "unat (rb_ridx rbuf + n - rb_size rbuf) = ?r + unat n - ?s"
      using gt r' by (simp add: unat_sub_le)
    moreover have "unat (rb_widx rbuf - rb_size rbuf) = ?w - ?s"
      using gt n' by (simp add: unat_sub_le)
    moreover have "map (\<lambda>k. f ! (k mod ?s)) [?r + unat n - ?s..<?w - ?s] =
        map (\<lambda>k. f ! (k mod ?s)) [?r + unat n..<?w]"
      using gt n' by (intro nth_equalityI) (auto simp: le_mod_geq)
    ultimately show ?thesis
      using True f lf s i n' gt
      by (simp add: rbuf2_def rbuf1_def rb_bytes_def rb_inv_def drop_map) (intro conjI; linarith)
  next
    case False
    then have "?r + unat n \<le> ?s" by (simp add: word_less_nat_alt r')
    then show ?thesis
      using False f lf s i n' r'
      by (simp add: rbuf2_def rbuf1_def rb_bytes_def rb_inv_def drop_map)
  qed
qed

lemma ringbuffer_read_spec:
  assumes inv: "rb_inv rbuf" and a: "0 < amount" and dest: "unat amount \<le> length dest"
  obtains rbuf' n where
    "ringbuffer_read rbuf dest amount =
       Inr (rbuf', take (unat n) (rb_bytes rbuf) @ drop (unat n) dest, n)"
    "unat n = min (length (rb_bytes rbuf)) (unat amount)"
    "rb_bytes rbuf' = drop (unat n) (rb_bytes rbuf)"
    "rb_capacity rbuf' = rb_capacity rbuf" "rb_inv rbuf'"
proof (cases "ringbuffer_used rbuf > 0")
  case False
  then have "ringbuffer_used rbuf = 0" by (simp add: word_gt_0)
  then have "rb_bytes rbuf = []"
    using unat_ringbuffer_used [OF inv] by simp
  with False a inv show ?thesis
    by (intro that [of rbuf 0]) (simp_all add: ringbuffer_read_def Let_def)
next
  case True
  define n where "n = min_size_t (ringbuffer_used rbuf) amount"
  have n: "unat n = min (length (rb_bytes rbuf)) (unat amount)"
    by (simp add: n_def unat_ringbuffer_used [OF inv])
  let ?rbuf1 = "rbuf\<lparr>rb_ridx := rb_ridx rbuf + n\<rparr>"
  let ?rbuf2 = "if rb_ridx ?rbuf1 > rb_size rbuf
     then ?rbuf1\<lparr>rb_widx := rb_widx ?rbuf1 - rb_size rbuf, rb_ridx := rb_ridx ?rbuf1 - rb_size rbuf\<rparr>
     else ?rbuf1"
  have "rb_bytes ?rbuf2 = drop (unat n) (rb_bytes rbuf) \<and> rb_inv ?rbuf2"
    by (rule rb_bytes_after_read [OF inv]) (simp add: n)
  moreover have "copy_out (rb_address rbuf) (unat (rb_ridx rbuf)) dest (unat n) =
      Inr (take (unat n) (rb_bytes rbuf) @ drop (unat n) dest)"
    by (rule copy_out_ring [OF inv]) (use n dest in auto)
  ultimately show ?thesis
    using True a n
    by (intro that [of ?rbuf2 n])
      (simp_all add: ringbuffer_read_def Let_def n_def [symmetric] rb_capacity_def)
qed

lemma ringbuffer_peek_spec:
  assumes inv: "rb_inv rbuf" and a: "0 < amount" and dest: "unat amount \<le> length dest"
  obtains n where
    "ringbuffer_peek rbuf dest amount =
       Inr (rbuf, take (unat n) (rb_bytes rbuf) @ drop (unat n) dest, n)"
    "unat n = min (length (rb_bytes rbuf)) (unat amount)"
proof (cases "ringbuffer_used rbuf > 0")
  case False
  then have "ringbuffer_used rbuf = 0" by (simp add: word_gt_0)
  then have "rb_bytes rbuf = []"
    using unat_ringbuffer_used [OF inv] by simp
  with False a show ?thesis
    by (intro that [of 0]) (simp_all add: ringbuffer_peek_def Let_def)
next
  case True
  define n where "n = min_size_t (ringbuffer_used rbuf) amount"
  have n: "unat n = min (length (rb_bytes rbuf)) (unat amount)"
    by (simp add: n_def unat_ringbuffer_used [OF inv])
  have "copy_out (rb_address rbuf) (unat (rb_ridx rbuf)) dest (unat n) =
      Inr (take (unat n) (rb_bytes rbuf) @ drop (unat n) dest)"
    by (rule copy_out_ring [OF inv]) (use n dest in auto)
  with True a n show ?thesis
    by (intro that [of n]) (simp_all add: ringbuffer_peek_def Let_def n_def [symmetric])
qed

lemma ringbuffer_reset_spec:
  "rb_inv rbuf \<Longrightarrow> rb_inv (fst (ringbuffer_reset rbuf)) \<and> rb_bytes (fst (ringbuffer_reset rbuf)) = []"
  by (auto simp: ringbuffer_reset_def rb_inv_def rb_bytes_def split: mapping.splits)


section \<open>The contract: a bounded FIFO of bytes\<close>

datatype fifo_op = Put "u8 list" | Get "u8 list"

fun fifo_op_ok :: "fifo_op \<Rightarrow> bool" where
  "fifo_op_ok (Put src) = (0 < length src \<and> length src < 2 ^ 64)"
| "fifo_op_ok (Get dest) = (0 < length dest \<and> length dest < 2 ^ 64)"

text \<open>
  A client's sequence of writes and reads: final ring, the bytes the writes
  accepted and the bytes the reads delivered, each in order.
\<close>

fun fifo_run ::
  "('q \<Rightarrow> u8 list \<Rightarrow> size_t \<Rightarrow> ('q \<times> size_t) result) \<Rightarrow>
   ('q \<Rightarrow> u8 list \<Rightarrow> size_t \<Rightarrow> ('q \<times> u8 list \<times> size_t) result) \<Rightarrow>
   'q \<Rightarrow> fifo_op list \<Rightarrow> ('q \<times> u8 list \<times> u8 list) result" where
  "fifo_run wr rd q [] = Inr (q, [], [])"
| "fifo_run wr rd q (Put src # ops) =
     bind_r (wr q src (of_nat (length src))) (\<lambda>(q', n).
       bind_r (fifo_run wr rd q' ops) (\<lambda>(q'', put, got).
         Inr (q'', take (unat n) src @ put, got)))"
| "fifo_run wr rd q (Get dest # ops) =
     bind_r (rd q dest (of_nat (length dest))) (\<lambda>(q', dest', n).
       bind_r (fifo_run wr rd q' ops) (\<lambda>(q'', put, got).
         Inr (q'', put, take (unat n) dest' @ got)))"

lemma of_nat_len_size_t:
  "0 < n \<Longrightarrow> n < 2 ^ 64 \<Longrightarrow> unat (of_nat n :: size_t) = n \<and> 0 < (of_nat n :: size_t)"
  by (simp add: unat_of_nat word_gt_0_unat)

locale byte_fifo =
  fixes wr :: "'q \<Rightarrow> u8 list \<Rightarrow> size_t \<Rightarrow> ('q \<times> size_t) result"
    and rd :: "'q \<Rightarrow> u8 list \<Rightarrow> size_t \<Rightarrow> ('q \<times> u8 list \<times> size_t) result"
    and bytes :: "'q \<Rightarrow> u8 list"
    and capacity :: "'q \<Rightarrow> nat"
    and inv :: "'q \<Rightarrow> bool"
  assumes bytes_bound: "inv q \<Longrightarrow> length (bytes q) \<le> capacity q"
    and write_law: "inv q \<Longrightarrow> 0 < amount \<Longrightarrow> unat amount \<le> length src \<Longrightarrow>
      \<exists>q' n. wr q src amount = Inr (q', n) \<and>
        unat n = min (capacity q - length (bytes q)) (unat amount) \<and>
        bytes q' = bytes q @ take (unat n) src \<and> capacity q' = capacity q \<and> inv q'"
    and read_law: "inv q \<Longrightarrow> 0 < amount \<Longrightarrow> unat amount \<le> length dest \<Longrightarrow>
      \<exists>q' n. rd q dest amount = Inr (q', take (unat n) (bytes q) @ drop (unat n) dest, n) \<and>
        unat n = min (length (bytes q)) (unat amount) \<and>
        bytes q' = drop (unat n) (bytes q) \<and> capacity q' = capacity q \<and> inv q'"
begin

text \<open>Whatever is read is what was written, in order; the rest is still queued.\<close>

lemma run_fifo:
  assumes "inv q" and "list_all fifo_op_ok ops"
  shows "\<exists>q' put got. fifo_run wr rd q ops = Inr (q', put, got) \<and> inv q' \<and>
    capacity q' = capacity q \<and> bytes q @ put = got @ bytes q'"
  using assms
proof (induction ops arbitrary: q)
  case Nil
  then show ?case by simp
next
  case (Cons op ops)
  show ?case
  proof (cases op)
    case (Put src)
    with Cons.prems have len: "unat (of_nat (length src) :: size_t) = length src"
      "0 < (of_nat (length src) :: size_t)"
      using of_nat_len_size_t [of "length src"] by simp_all
    with write_law [OF Cons.prems(1), of "of_nat (length src)" src]
    obtain q' n where w: "wr q src (of_nat (length src)) = Inr (q', n)"
      and b: "bytes q' = bytes q @ take (unat n) src" "capacity q' = capacity q" "inv q'"
      by auto
    from Cons.IH [OF b(3)] Cons.prems(2) obtain q'' put got where
      "fifo_run wr rd q' ops = Inr (q'', put, got)" "inv q''"
      "capacity q'' = capacity q'" "bytes q' @ put = got @ bytes q''"
      by auto
    with w b Put show ?thesis by simp
  next
    case (Get dest)
    with Cons.prems have len: "unat (of_nat (length dest) :: size_t) = length dest"
      "0 < (of_nat (length dest) :: size_t)"
      using of_nat_len_size_t [of "length dest"] by simp_all
    with read_law [OF Cons.prems(1), of "of_nat (length dest)" dest]
    obtain q' n where r:
      "rd q dest (of_nat (length dest)) = Inr (q', take (unat n) (bytes q) @ drop (unat n) dest, n)"
      and n: "unat n \<le> length (bytes q)"
      and b: "bytes q' = drop (unat n) (bytes q)" "capacity q' = capacity q" "inv q'"
      by auto
    from Cons.IH [OF b(3)] Cons.prems(2) obtain q'' put got where
      run: "fifo_run wr rd q' ops = Inr (q'', put, got)" "inv q''"
      "capacity q'' = capacity q'" and eq: "bytes q' @ put = got @ bytes q''"
      by auto
    have "bytes q @ put = take (unat n) (bytes q) @ bytes q' @ put"
      by (simp add: b(1) append_take_drop_id [symmetric] del: append_take_drop_id)
    with eq have "bytes q @ put = take (unat n) (bytes q) @ got @ bytes q''" by simp
    with r run b n Get show ?thesis by simp
  qed
qed

text \<open>
  Records of \<open>m\<close> bytes that divide the capacity are never torn: a write takes
  a whole record or nothing, a read delivers a whole record or nothing.
\<close>

lemma write_record:
  assumes "inv q" "0 < amount" "unat amount \<le> length src"
    and "unat amount dvd capacity q" "unat amount dvd length (bytes q)"
  shows "\<exists>q' n. wr q src amount = Inr (q', n) \<and> (n = 0 \<or> n = amount) \<and> inv q' \<and>
    capacity q' = capacity q \<and> unat amount dvd length (bytes q')"
proof -
  from write_law [OF assms(1-3)] obtain q' n where w: "wr q src amount = Inr (q', n)"
    and n: "unat n = min (capacity q - length (bytes q)) (unat amount)"
    and b: "bytes q' = bytes q @ take (unat n) src" "capacity q' = capacity q" "inv q'"
    by blast
  have "unat amount dvd capacity q - length (bytes q)"
    using assms(4,5) by simp
  then have "unat n = 0 \<or> unat n = unat amount"
    using n assms(2) by (auto simp: min_def word_gt_0_unat dest: dvd_imp_le)
  then have "n = 0 \<or> n = amount" by (simp add: word_unat_eq_iff)
  moreover from this have "unat amount dvd length (bytes q')"
    using b(1) assms(3,5) by (auto simp: min_absorb2)
  ultimately show ?thesis using w b by blast
qed

lemma read_record:
  assumes "inv q" "0 < amount" "unat amount \<le> length dest"
    and "unat amount dvd length (bytes q)"
  shows "\<exists>q' dest' n. rd q dest amount = Inr (q', dest', n) \<and> (n = 0 \<or> n = amount) \<and> inv q' \<and>
    capacity q' = capacity q \<and> unat amount dvd length (bytes q')"
proof -
  from read_law [OF assms(1-3)] obtain q' n where
    r: "rd q dest amount = Inr (q', take (unat n) (bytes q) @ drop (unat n) dest, n)"
    and n: "unat n = min (length (bytes q)) (unat amount)"
    and b: "bytes q' = drop (unat n) (bytes q)" "capacity q' = capacity q" "inv q'"
    by blast
  have "unat n = 0 \<or> unat n = unat amount"
    using n assms(2,4) by (auto simp: min_def word_gt_0_unat dest: dvd_imp_le)
  then have "n = 0 \<or> n = amount" by (simp add: word_unat_eq_iff)
  moreover from this have "unat amount dvd length (bytes q')"
    using b(1) assms(4) by auto
  ultimately show ?thesis using r b by blast
qed

end

interpretation ring: byte_fifo ringbuffer_write ringbuffer_read rb_bytes rb_capacity rb_inv
proof unfold_locales
  fix q :: ringbuffer_s and amount :: size_t and src :: "u8 list"
  assume inv: "rb_inv q" and a: "0 < amount" and l: "unat amount \<le> length src"
  show "\<exists>q' n. ringbuffer_write q src amount = Inr (q', n) \<and>
      unat n = min (rb_capacity q - length (rb_bytes q)) (unat amount) \<and>
      rb_bytes q' = rb_bytes q @ take (unat n) src \<and> rb_capacity q' = rb_capacity q \<and> rb_inv q'"
    by (rule ringbuffer_write_spec [OF inv a l]) blast
  show "\<exists>q' n. ringbuffer_read q src amount =
        Inr (q', take (unat n) (rb_bytes q) @ drop (unat n) src, n) \<and>
      unat n = min (length (rb_bytes q)) (unat amount) \<and>
      rb_bytes q' = drop (unat n) (rb_bytes q) \<and> rb_capacity q' = rb_capacity q \<and> rb_inv q'"
    by (rule ringbuffer_read_spec [OF inv a l]) blast
qed (rule rb_bytes_le_capacity)


section \<open>Properties\<close>

text \<open>A page-sized stand-in small enough to evaluate: the fresh ring of \<open>n\<close> bytes.\<close>

definition fresh_ring :: "nat \<Rightarrow> ringbuffer_s" where
  "fresh_ring n = \<lparr>rb_address = Mirrored (replicate n 0), rb_size = of_nat n, rb_used = 0,
                   rb_ridx = 0, rb_widx = 0\<rparr>"

lemma fresh_ring_inv: "0 < n \<Longrightarrow> n < 2 ^ 62 \<Longrightarrow> rb_inv (fresh_ring n)"
  by (simp add: fresh_ring_def rb_inv_def unat_of_nat)

lemma fresh_ring_bytes [simp]: "rb_bytes (fresh_ring n) = []"
  by (simp add: fresh_ring_def rb_bytes_def)

lemma fresh_ring_capacity: "n < 2 ^ 64 \<Longrightarrow> rb_capacity (fresh_ring n) = n"
  by (simp add: fresh_ring_def rb_capacity_def unat_of_nat)

text \<open>
  C1: for every sequence of \<open>ringbuffer_write\<close> and \<open>ringbuffer_read\<close> calls of one
  thread, across any number of wraps of the indices, no call faults, the ring stays
  well formed, and the bytes delivered followed by the bytes still queued are the
  bytes queued at the start followed by the bytes the writes accepted.
\<close>

theorem ringbuffer_fifo:
  assumes "rb_inv rbuf" and "list_all fifo_op_ok ops"
  shows "\<exists>rbuf' put got.
    fifo_run ringbuffer_write ringbuffer_read rbuf ops = Inr (rbuf', put, got) \<and>
    rb_inv rbuf' \<and> rb_capacity rbuf' = rb_capacity rbuf \<and>
    rb_bytes rbuf @ put = got @ rb_bytes rbuf'"
  using assms by (rule ring.run_fifo)

theorem ringbuffer_fifo_witness:
  "\<exists>rbuf' put got.
    fifo_run ringbuffer_write ringbuffer_read (fresh_ring 4)
      [Put [1, 2, 3], Get [0, 0], Put [4, 5, 6], Get [0, 0, 0, 0]] = Inr (rbuf', put, got) \<and>
    rb_inv rbuf' \<and> rb_capacity rbuf' = rb_capacity (fresh_ring 4) \<and>
    rb_bytes (fresh_ring 4) @ put = got @ rb_bytes rbuf'"
  by (rule ringbuffer_fifo) (simp_all add: fresh_ring_inv)

text \<open>
  C22: \<open>ringbuffer_write\<close> takes exactly as many bytes as there is room for, up to
  the amount asked: it appends that prefix of the source to the queue, leaves the
  read index alone and returns the count, which is what \<open>ringbuffer_avail\<close>
  announced when the amount was larger.
\<close>

theorem ringbuffer_write_appends:
  assumes "rb_inv rbuf" and "0 < amount" and "unat amount \<le> length src"
  shows "\<exists>rbuf' n. ringbuffer_write rbuf src amount = Inr (rbuf', n) \<and>
    n = min_size_t (ringbuffer_avail rbuf) amount \<and>
    rb_bytes rbuf' = rb_bytes rbuf @ take (unat n) src \<and>
    rb_ridx rbuf' = rb_ridx rbuf \<and> rb_inv rbuf' \<and>
    unat (ringbuffer_used rbuf') = unat (ringbuffer_used rbuf) + unat n"
proof (rule ringbuffer_write_spec [OF assms])
  fix rbuf' n
  assume w: "ringbuffer_write rbuf src amount = Inr (rbuf', n)"
    and n: "unat n = min (rb_capacity rbuf - length (rb_bytes rbuf)) (unat amount)"
    and b: "rb_bytes rbuf' = rb_bytes rbuf @ take (unat n) src" "rb_capacity rbuf' = rb_capacity rbuf"
      "rb_inv rbuf'" "rb_ridx rbuf' = rb_ridx rbuf"
  have "n = min_size_t (ringbuffer_avail rbuf) amount"
    by (simp add: word_unat_eq_iff n unat_ringbuffer_avail [OF assms(1)])
  moreover have "unat (ringbuffer_used rbuf') = unat (ringbuffer_used rbuf) + unat n"
    using b(1) n assms(3)
    by (simp add: unat_ringbuffer_used [OF b(3)] unat_ringbuffer_used [OF assms(1)] min_absorb2)
  ultimately show ?thesis using w b by blast
qed

theorem ringbuffer_write_appends_witness:
  "\<exists>rbuf' n. ringbuffer_write (fresh_ring 4) [1, 2, 3, 4, 5, 6] 6 = Inr (rbuf', n) \<and>
    n = min_size_t (ringbuffer_avail (fresh_ring 4)) 6 \<and>
    rb_bytes rbuf' = rb_bytes (fresh_ring 4) @ take (unat n) [1, 2, 3, 4, 5, 6] \<and>
    rb_ridx rbuf' = rb_ridx (fresh_ring 4) \<and> rb_inv rbuf' \<and>
    unat (ringbuffer_used rbuf') = unat (ringbuffer_used (fresh_ring 4)) + unat n"
  by (rule ringbuffer_write_appends) (simp_all add: fresh_ring_inv)

text \<open>
  \<open>ringbuffer_peek\<close> shows the reader exactly the bytes and the count that
  \<open>ringbuffer_read\<close> would deliver, and consumes nothing.
\<close>

theorem ringbuffer_peek_previews_read:
  assumes "rb_inv rbuf" and "0 < amount" and "unat amount \<le> length dest"
  shows "\<exists>rbuf' dest' n. ringbuffer_read rbuf dest amount = Inr (rbuf', dest', n) \<and>
    ringbuffer_peek rbuf dest amount = Inr (rbuf, dest', n) \<and>
    take (unat n) dest' @ rb_bytes rbuf' = rb_bytes rbuf"
proof -
  obtain rbuf' n where
    r: "ringbuffer_read rbuf dest amount =
       Inr (rbuf', take (unat n) (rb_bytes rbuf) @ drop (unat n) dest, n)"
    and n: "unat n = min (length (rb_bytes rbuf)) (unat amount)"
    and b: "rb_bytes rbuf' = drop (unat n) (rb_bytes rbuf)"
    by (rule ringbuffer_read_spec [OF assms])
  obtain m where
    p: "ringbuffer_peek rbuf dest amount =
       Inr (rbuf, take (unat m) (rb_bytes rbuf) @ drop (unat m) dest, m)"
    and m: "unat m = min (length (rb_bytes rbuf)) (unat amount)"
    by (rule ringbuffer_peek_spec [OF assms])
  have "m = n" using m n by (simp add: word_unat_eq_iff)
  with r p n b show ?thesis by (auto simp: min_absorb2)
qed

theorem ringbuffer_peek_previews_read_witness:
  "\<exists>rbuf' dest' n. ringbuffer_read (fresh_ring 4) [9, 9] 2 = Inr (rbuf', dest', n) \<and>
    ringbuffer_peek (fresh_ring 4) [9, 9] 2 = Inr (fresh_ring 4, dest', n) \<and>
    take (unat n) dest' @ rb_bytes rbuf' = rb_bytes (fresh_ring 4)"
  by (rule ringbuffer_peek_previews_read) (simp_all add: fresh_ring_inv)

text \<open>
  the retired \<open>old_ringbuffer_used\<close> agrees with \<open>ringbuffer_used\<close> only while the
  write index is in the first page; beyond it, it reports the free space instead. A
  full ring read from index \<open>ridx > 0\<close> is therefore reported empty, which is the
  lock-up its comment describes.
\<close>

theorem old_ringbuffer_used_value:
  assumes "rb_inv rbuf"
  shows "old_ringbuffer_used rbuf =
    (if rb_widx rbuf \<le> rb_size rbuf then ringbuffer_used rbuf else ringbuffer_avail rbuf)"
proof -
  from assms have s: "unat (rb_size rbuf) < 2 ^ 62"
    and i: "unat (rb_ridx rbuf) \<le> unat (rb_size rbuf)" "unat (rb_ridx rbuf) \<le> unat (rb_widx rbuf)"
      "unat (rb_widx rbuf) \<le> unat (rb_ridx rbuf) + unat (rb_size rbuf)"
    by (auto elim!: rb_invE)
  have le: "rb_widx rbuf \<le> rb_size rbuf \<longleftrightarrow> \<not> rb_size rbuf < rb_widx rbuf"
    by (simp add: not_less)
  have ridx: "\<not> rb_ridx rbuf > rb_size rbuf"
    using i by (simp add: word_less_nat_alt)
  have "unat (ringbuffer_used rbuf) < 2 ^ 63" "unat (ringbuffer_avail rbuf) < 2 ^ 63"
    using s unat_ringbuffer_used [OF assms] unat_ringbuffer_avail [OF assms]
      rb_bytes_le_capacity [OF assms] by (simp_all add: rb_capacity_def)
  moreover have "rb_ridx rbuf - (rb_widx rbuf - rb_size rbuf) = ringbuffer_avail rbuf"
    by (simp add: ringbuffer_avail_def)
  ultimately show ?thesis
    using ridx sint_nonneg_size_t
    by (simp add: old_ringbuffer_used_def Let_def ringbuffer_used_def [symmetric] le)
qed

theorem old_ringbuffer_used_value_witness:
  "old_ringbuffer_used ((fresh_ring 4)\<lparr>rb_ridx := 2, rb_widx := 6\<rparr>) =
    (if rb_widx ((fresh_ring 4)\<lparr>rb_ridx := 2, rb_widx := 6\<rparr>)
        \<le> rb_size ((fresh_ring 4)\<lparr>rb_ridx := 2, rb_widx := 6\<rparr>)
     then ringbuffer_used ((fresh_ring 4)\<lparr>rb_ridx := 2, rb_widx := 6\<rparr>)
     else ringbuffer_avail ((fresh_ring 4)\<lparr>rb_ridx := 2, rb_widx := 6\<rparr>)) \<and>
   old_ringbuffer_used ((fresh_ring 4)\<lparr>rb_ridx := 2, rb_widx := 6\<rparr>) = 0 \<and>
   ringbuffer_used ((fresh_ring 4)\<lparr>rb_ridx := 2, rb_widx := 6\<rparr>) = 4"
proof -
  have "rb_inv ((fresh_ring 4)\<lparr>rb_ridx := 2, rb_widx := 6\<rparr>)"
    by (simp add: fresh_ring_def rb_inv_def)
  from old_ringbuffer_used_value [OF this] show ?thesis
    by (simp add: fresh_ring_def ringbuffer_avail_def ringbuffer_used_def)
qed

text \<open>
  a stream of records of one size crosses the ring whole when that size divides
  the capacity: every write takes the whole record or nothing, and every read
  delivers a whole record or nothing, so \<open>TRUNCATED READ\<close> cannot be printed.
\<close>

theorem ringbuffer_records_whole:
  assumes "rb_inv rbuf" and "0 < amount" and "unat amount \<le> length buf"
    and "unat amount dvd rb_capacity rbuf" and "unat amount dvd length (rb_bytes rbuf)"
  shows "(\<exists>rbuf' n. ringbuffer_write rbuf buf amount = Inr (rbuf', n) \<and> (n = 0 \<or> n = amount) \<and>
      rb_inv rbuf' \<and> rb_capacity rbuf' = rb_capacity rbuf \<and> unat amount dvd length (rb_bytes rbuf')) \<and>
    (\<exists>rbuf' dest n. ringbuffer_read rbuf buf amount = Inr (rbuf', dest, n) \<and> (n = 0 \<or> n = amount) \<and>
      rb_inv rbuf' \<and> rb_capacity rbuf' = rb_capacity rbuf \<and> unat amount dvd length (rb_bytes rbuf'))"
  using ring.write_record [OF assms] ring.read_record [OF assms(1-3,5)] by blast

theorem ringbuffer_records_whole_witness:
  "(\<exists>rbuf' n. ringbuffer_write (fresh_ring 4096) (replicate 16 7) 16 = Inr (rbuf', n) \<and>
      (n = 0 \<or> n = 16) \<and> rb_inv rbuf' \<and> rb_capacity rbuf' = rb_capacity (fresh_ring 4096) \<and>
      unat (16 :: size_t) dvd length (rb_bytes rbuf')) \<and>
    (\<exists>rbuf' dest n. ringbuffer_read (fresh_ring 4096) (replicate 16 7) 16 = Inr (rbuf', dest, n) \<and>
      (n = 0 \<or> n = 16) \<and> rb_inv rbuf' \<and> rb_capacity rbuf' = rb_capacity (fresh_ring 4096) \<and>
      unat (16 :: size_t) dvd length (rb_bytes rbuf'))"
  by (rule ringbuffer_records_whole) (simp_all add: fresh_ring_inv fresh_ring_capacity)

end
