(* ===== verification/Ringbuffer_Init.thy ===== *)
theory Ringbuffer_Init
  imports Ringbuffer
begin

text \<open>
  \<open>ringbuffer_init\<close> of \<open>ringbuffer.c\<close>: the temporary file in shared memory, the
  anonymous reservation of twice the size and the two fixed mappings over it. The state of
  the operating system is the record \<open>kernel\<close>, with the address space byte by byte; each
  system call of the source changes it. Whether a call succeeds, and where the reservation
  is placed, are the parameter \<open>ring_os\<close>.
\<close>

section \<open>The operating system\<close>

text \<open>
  What lies behind an address: a reservation without access (\<open>PROT_NONE\<close>), or the byte of
  the temporary file at an offset, readable and writable (\<open>MAP_SHARED\<close>).
\<close>

datatype backing = Reserved | File_byte nat

type_synonym address_space = "nat \<Rightarrow> backing option"

record kernel =
  k_vm :: address_space
  k_file :: "u8 list"
  k_name :: bool
  k_fd :: bool

text \<open>
  The answers. \<open>mmap_anon\<close> gets the length asked for. A mapping with \<open>MAP_FIXED\<close> is placed
  at the address asked for or fails.
\<close>

record ring_os =
  page_size :: size_t
  vm_before :: address_space
  mkstemp_fd :: int
  mkstemp_errno :: int
  ftruncate_rc :: int
  ftruncate_errno :: int
  mmap_anon :: "nat \<Rightarrow> nat option"
  mmap_anon_errno :: int
  mmap_low_ok :: bool
  mmap_high_ok :: bool
  mmap_high_errno :: int

definition ENOMEM :: int where "ENOMEM = 12"

text \<open>Mappings cover whole pages.\<close>

definition round_up :: "nat \<Rightarrow> nat \<Rightarrow> nat" where
  "round_up page n = (n + (page - 1)) div page * page"

definition in_range :: "nat \<Rightarrow> nat \<Rightarrow> nat \<Rightarrow> bool" where
  "in_range base n a \<longleftrightarrow> base \<le> a \<and> a < base + n"

definition pages :: "ring_os \<Rightarrow> size_t \<Rightarrow> nat" where
  "pages os len = round_up (unat (page_size os)) (unat len)"

definition mkstemp :: "kernel \<Rightarrow> kernel" where
  "mkstemp k = k\<lparr>k_file := [], k_name := True, k_fd := True\<rparr>"

definition unlink :: "kernel \<Rightarrow> kernel" where
  "unlink k = k\<lparr>k_name := False\<rparr>"

definition close :: "kernel \<Rightarrow> kernel" where
  "close k = k\<lparr>k_fd := False\<rparr>"

definition ftruncate :: "size_t \<Rightarrow> kernel \<Rightarrow> kernel" where
  "ftruncate len k =
     k\<lparr>k_file := take (unat len) (k_file k) @ replicate (unat len - length (k_file k)) 0\<rparr>"

definition mmap_reserve :: "ring_os \<Rightarrow> size_t \<Rightarrow> kernel \<Rightarrow> nat option \<times> kernel" where
  "mmap_reserve os len k =
     (case mmap_anon os (unat len) of
        None \<Rightarrow> (None, k)
      | Some base \<Rightarrow>
          (Some base, k\<lparr>k_vm := \<lambda>a. if in_range base (pages os len) a then Some Reserved else k_vm k a\<rparr>))"

definition mmap_file :: "ring_os \<Rightarrow> bool \<Rightarrow> nat \<Rightarrow> size_t \<Rightarrow> kernel \<Rightarrow> nat option \<times> kernel" where
  "mmap_file os ok addr len k =
     (if ok
      then (Some addr,
        k\<lparr>k_vm := \<lambda>a. if in_range addr (pages os len) a then Some (File_byte (a - addr)) else k_vm k a\<rparr>)
      else (None, k))"

definition munmap :: "ring_os \<Rightarrow> nat \<Rightarrow> size_t \<Rightarrow> kernel \<Rightarrow> kernel" where
  "munmap os addr len k =
     k\<lparr>k_vm := \<lambda>a. if in_range addr (pages os len) a then None else k_vm k a\<rparr>"

section \<open>ringbuffer\_init\<close>

text \<open>
  What the operations of the ring can use at address \<open>base\<close>: the doubly mapped file, if
  every one of the \<open>2 * size\<close> addresses shows the byte of the file it should.
\<close>

definition ring_memory :: "kernel \<Rightarrow> nat \<Rightarrow> nat \<Rightarrow> mapping" where
  "ring_memory k base n =
     (if 0 < n \<and> length (k_file k) = n \<and>
         list_all (\<lambda>i. k_vm k (base + i) = Some (File_byte (i mod n))) [0..<2 * n]
      then Mirrored (k_file k) else Unmapped)"

definition set_address :: "kernel \<Rightarrow> nat \<Rightarrow> ringbuffer_s \<Rightarrow> ringbuffer_s" where
  "set_address k base buff = buff\<lparr>rb_address := ring_memory k base (unat (rb_size buff))\<rparr>"

text \<open>
  The returned value, the structure, and the operating system afterwards; \<open>errno\<close> is read
  after the \<open>close\<close> that precedes each \<open>return errno\<close>. The address in the structure stands
  for what can be reached through it when the function returns.
\<close>

definition ringbuffer_init ::
  "ring_os \<Rightarrow> ringbuffer_s \<Rightarrow> size_t \<Rightarrow> (int \<times> ringbuffer_s \<times> kernel) result" where
  "ringbuffer_init os buff sz =
     assert_c (sz \<ge> page_size os) (assert_c (sz mod page_size os = 0)
       (let k = \<lparr>k_vm = vm_before os, k_file = [], k_name = False, k_fd = False\<rparr> in
        if mkstemp_fd os = -1 then Inr (mkstemp_errno os, buff, k)
        else
        let k = unlink (mkstemp k);
            buff = buff\<lparr>rb_size := sz, rb_ridx := 0, rb_widx := 0\<rparr>
        in if ftruncate_rc os < 0 then Inr (ftruncate_errno os, buff, close k)
        else
        let k = ftruncate (rb_size buff) k;
            (address, k) = mmap_reserve os (rb_size buff * 2) k
        in case address of
             None \<Rightarrow> Inr (mmap_anon_errno os, buff\<lparr>rb_address := Unmapped\<rparr>, close k)
           | Some base \<Rightarrow>
        let (address, k) = mmap_file os (mmap_low_ok os) base (rb_size buff) k
        in if address \<noteq> Some base then
             let k = close (munmap os base (rb_size buff * 2) k)
             in Inr (ENOMEM, set_address k base buff, k)
        else
        let (address, k) = mmap_file os (mmap_high_ok os) (base + unat (rb_size buff)) (rb_size buff) k
        in if address \<noteq> Some (base + unat sz) then
             let k = close (munmap os base (rb_size buff * 2) k)
             in Inr (mmap_high_errno os, set_address k base buff, k)
        else let k = close k in Inr (0, set_address k base buff, k)))"

text \<open>A call that fails leaves a nonzero \<open>errno\<close>, as POSIX documents.\<close>

definition errno_set :: "ring_os \<Rightarrow> bool" where
  "errno_set os \<longleftrightarrow> mkstemp_errno os \<noteq> 0 \<and> ftruncate_errno os \<noteq> 0 \<and>
     mmap_anon_errno os \<noteq> 0 \<and> mmap_high_errno os \<noteq> 0"

text \<open>\<open>mmap\<close> without an address takes pages that are free: as many as it was asked for.\<close>

definition takes_free :: "ring_os \<Rightarrow> bool" where
  "takes_free os \<longleftrightarrow>
     (\<forall>len base a. mmap_anon os len = Some base \<longrightarrow>
        in_range base (round_up (unat (page_size os)) len) a \<longrightarrow> vm_before os a = None)"

section \<open>Lemmas\<close>

lemma round_up_multiple: "0 < page \<Longrightarrow> n mod page = 0 \<Longrightarrow> round_up page n = n"
proof -
  assume page: "0 < page" and "n mod page = 0"
  then obtain k where n: "n = page * k" by (auto simp: mod_eq_0_iff_dvd elim: dvdE)
  have "(n + (page - 1)) div page = k" using page by (intro div_nat_eqI) (auto simp: n)
  then show ?thesis by (simp add: round_up_def n)
qed

lemma pages_multiple:
  assumes "page_size os \<le> sz" "sz mod page_size os = 0" "0 < sz"
  shows "pages os sz = unat sz"
    and "unat sz < 2 ^ 62 \<Longrightarrow> pages os (sz * 2) = 2 * unat sz"
    and "unat sz < 2 ^ 62 \<Longrightarrow> unat (sz * 2) = 2 * unat sz"
proof -
  have "page_size os \<noteq> 0" using assms(2,3) by auto
  then have page: "0 < unat (page_size os)" by (simp add: unat_gt_0)
  have mult: "unat sz mod unat (page_size os) = 0"
    using arg_cong [OF assms(2), of unat] by (simp add: unat_mod)
  then show "pages os sz = unat sz" by (simp add: pages_def round_up_multiple [OF page])
  show twice: "unat (sz * 2) = 2 * unat sz" if "unat sz < 2 ^ 62"
    using that by (simp add: unat_word_ariths)
  show "pages os (sz * 2) = 2 * unat sz" if "unat sz < 2 ^ 62"
    using mult by (simp add: pages_def twice [OF that] round_up_multiple [OF page] mod_mult_right_eq [symmetric])
qed

text \<open>The address space with the file mapped twice at \<open>base\<close>.\<close>

definition doubled :: "address_space \<Rightarrow> nat \<Rightarrow> nat \<Rightarrow> address_space" where
  "doubled vm base n = (\<lambda>a. if in_range base (2 * n) a then Some (File_byte ((a - base) mod n)) else vm a)"

lemma ring_memory_doubled:
  "0 < n \<Longrightarrow> k_vm k = doubled vm base n \<Longrightarrow> length (k_file k) = n \<Longrightarrow> ring_memory k base n = Mirrored (k_file k)"
  by (simp add: ring_memory_def doubled_def in_range_def list_all_iff)

lemma ring_memory_gone: "k_vm k base = None \<Longrightarrow> ring_memory k base n = Unmapped"
  by (auto simp: ring_memory_def list_all_iff intro!: bexI [of _ 0])

lemma two_mappings:
  assumes "0 < n"
  shows "(\<lambda>a. if in_range (base + n) n a then Some (File_byte (a - (base + n)))
      else if in_range base n a then Some (File_byte (a - base))
      else if in_range base (2 * n) a then Some Reserved else vm a) = doubled vm base n"
proof
  fix a
  show "(if in_range (base + n) n a then Some (File_byte (a - (base + n)))
      else if in_range base n a then Some (File_byte (a - base))
      else if in_range base (2 * n) a then Some Reserved else vm a) = doubled vm base n a"
    by (auto simp: doubled_def in_range_def mod_if le_mod_geq)
qed

text \<open>The operating system with the file closed and without a name, and a range unmapped.\<close>

definition idle :: "address_space \<Rightarrow> u8 list \<Rightarrow> kernel" where
  "idle vm f = \<lparr>k_vm = vm, k_file = f, k_name = False, k_fd = False\<rparr>"

definition without :: "address_space \<Rightarrow> nat \<Rightarrow> nat \<Rightarrow> address_space" where
  "without vm base n = (\<lambda>a. if in_range base n a then None else vm a)"

lemma in_range_first: "in_range base n a \<Longrightarrow> in_range base (2 * n) a"
  by (simp add: in_range_def)

lemma ringbuffer_init_value:
  fixes buff :: ringbuffer_s
  assumes "page_size os \<le> sz" "sz mod page_size os = 0" "0 < sz" "unat sz < 2 ^ 62"
  defines "fresh \<equiv> buff\<lparr>rb_size := sz, rb_ridx := 0, rb_widx := 0\<rparr>"
    and "zeros \<equiv> replicate (unat sz) 0"
  shows "ringbuffer_init os buff sz =
    Inr (if mkstemp_fd os = -1 then (mkstemp_errno os, buff, idle (vm_before os) [])
      else if ftruncate_rc os < 0 then (ftruncate_errno os, fresh, idle (vm_before os) [])
      else case mmap_anon os (2 * unat sz) of
          None \<Rightarrow> (mmap_anon_errno os, fresh\<lparr>rb_address := Unmapped\<rparr>, idle (vm_before os) zeros)
        | Some base \<Rightarrow>
            if mmap_low_ok os \<and> mmap_high_ok os
            then (0, fresh\<lparr>rb_address := Mirrored zeros\<rparr>, idle (doubled (vm_before os) base (unat sz)) zeros)
            else (if mmap_low_ok os then mmap_high_errno os else ENOMEM,
              fresh\<lparr>rb_address := Unmapped\<rparr>, idle (without (vm_before os) base (2 * unat sz)) zeros))"
proof -
  have pos: "0 < unat sz" using assms(3) by (simp add: word_gt_0_unat)
  note size = pages_multiple(1) [OF assms(1-3)] pages_multiple(2,3) [OF assms(1-4)]
  have checks: "assert_c (page_size os \<le> sz) (assert_c (sz mod page_size os = 0) r) = r"
    for r :: "(int \<times> ringbuffer_s \<times> kernel) result"
    using assms(1,2) by simp
  note body = ringbuffer_init_def [of os buff sz, unfolded checks Let_def] idle_def fresh_def zeros_def
    mkstemp_def unlink_def close_def ftruncate_def mmap_reserve_def mmap_file_def munmap_def size
  show ?thesis
  proof (cases "mkstemp_fd os = -1 \<or> ftruncate_rc os < 0")
    case True
    then show ?thesis by (auto simp: body)
  next
    case False
    show ?thesis
    proof (cases "mmap_anon os (2 * unat sz)")
      case None
      with False show ?thesis by (simp add: body)
    next
      case (Some base)
      have gone: "ring_memory (idle (without vm base (2 * unat sz)) f) base (unat sz) = Unmapped" for vm f
        using pos by (intro ring_memory_gone) (simp add: idle_def without_def in_range_def)
      have there: "ring_memory (idle (doubled vm base (unat sz)) zeros) base (unat sz) = Mirrored zeros" for vm
        using pos by (subst ring_memory_doubled) (simp_all add: idle_def zeros_def)
      have twice: "(\<lambda>a. if in_range base (2 * unat sz) a then None else vm a) = without vm base (2 * unat sz)"
        "without (\<lambda>a. if in_range base (unat sz) a then Some (File_byte (a - base))
            else if in_range base (2 * unat sz) a then Some Reserved else vm a) base (2 * unat sz) =
          without vm base (2 * unat sz)"
        "without (\<lambda>a. if in_range base (2 * unat sz) a then Some Reserved else vm a) base (2 * unat sz) =
          without vm base (2 * unat sz)" for vm
        by (auto simp: without_def fun_eq_iff dest: in_range_first)
      show ?thesis
        using False Some gone [unfolded idle_def, of "vm_before os" "replicate (unat sz) 0"]
          there [of "vm_before os", unfolded idle_def zeros_def]
        by (simp add: body set_address_def twice two_mappings [OF pos] cong: if_cong)
    qed
  qed
qed

lemma ringbuffer_init_success:
  assumes "page_size os \<le> sz" "sz mod page_size os = 0" "0 < sz" "unat sz < 2 ^ 62" "errno_set os"
    and "ringbuffer_init os buff sz = Inr (0, ring, k)"
  shows "ring = buff\<lparr>rb_size := sz, rb_ridx := 0, rb_widx := 0, rb_address := Mirrored (replicate (unat sz) 0)\<rparr>"
  using assms(5,6) unfolding ringbuffer_init_value [OF assms(1-4)]
  by (auto simp: errno_set_def ENOMEM_def split: if_splits option.splits)

lemma ringbuffer_init_checks:
  assumes "ringbuffer_init os buff sz = Inr r"
  shows "page_size os \<le> sz" "sz mod page_size os = 0"
  using assms by (auto simp: ringbuffer_init_def assert_c_def split: if_splits)

section \<open>Properties\<close>

text \<open>
  C17: called with a positive multiple of the page size, \<open>ringbuffer_init\<close> either
  returns 0 with an empty, well-formed ring of that capacity, and the address space differs
  from the one before in exactly \<open>2 * size\<close> addresses, which were free and now show the file
  twice; or it returns an error and the address space is as before. On every path the
  temporary file has neither a name nor an open descriptor.
\<close>

theorem ringbuffer_init_all_or_nothing:
  assumes "page_size os \<le> sz" and "sz mod page_size os = 0"
    and "0 < sz" and "unat sz < 2 ^ 62" and "errno_set os" and "takes_free os"
  shows "\<exists>ret buff' k. ringbuffer_init os buff sz = Inr (ret, buff', k) \<and>
    \<not> k_fd k \<and> \<not> k_name k \<and>
    (if ret = 0
     then rb_inv buff' \<and> rb_bytes buff' = [] \<and> rb_capacity buff' = unat sz \<and>
       (\<exists>base. \<forall>a. k_vm k a =
          (if in_range base (2 * unat sz) a then Some (File_byte ((a - base) mod unat sz)) else vm_before os a) \<and>
          (if in_range base (2 * unat sz) a then vm_before os a = None else True))
     else k_vm k = vm_before os)"
proof -
  have pos: "0 < unat sz" using assms(3) by (simp add: word_gt_0_unat)
  have free: "vm_before os a = None"
    if "mmap_anon os (2 * unat sz) = Some base" "in_range base (2 * unat sz) a" for a base
    using assms(6) that pages_multiple(2,3) [OF assms(1-4)] by (fastforce simp: takes_free_def pages_def)
  note outcome = ringbuffer_init_value [OF assms(1-4), of buff]
  note errs = assms(5) [unfolded errno_set_def] ENOMEM_def idle_def
  show ?thesis
  proof (cases "mkstemp_fd os = -1 \<or> ftruncate_rc os < 0 \<or> mmap_anon os (2 * unat sz) = None")
    case True
    then show ?thesis using errs by (auto simp: outcome)
  next
    case False
    then obtain base where base: "mmap_anon os (2 * unat sz) = Some base" by auto
    show ?thesis
    proof (cases "mmap_low_ok os \<and> mmap_high_ok os")
      case True
      have "doubled (vm_before os) base (unat sz) a =
          (if in_range base (2 * unat sz) a then Some (File_byte ((a - base) mod unat sz)) else vm_before os a) \<and>
          (if in_range base (2 * unat sz) a then vm_before os a = None else True)" for a
        using free [OF base] by (simp add: doubled_def)
      moreover have "rb_inv r \<and> rb_bytes r = [] \<and> rb_capacity r = unat sz"
        if "r = buff\<lparr>rb_size := sz, rb_ridx := 0, rb_widx := 0, rb_address := Mirrored (replicate (unat sz) 0)\<rparr>" for r
        using assms(4) pos by (simp add: that rb_inv_def rb_bytes_def rb_capacity_def)
      ultimately show ?thesis
        using False base True by (simp add: outcome idle_def) blast
    next
      case bad: False
      have "without (vm_before os) base (2 * unat sz) = vm_before os"
        using free [OF base] by (auto simp: without_def fun_eq_iff)
      then show ?thesis using False base bad errs by (simp add: outcome)
    qed
  qed
qed

definition good_os :: ring_os where
  "good_os = \<lparr>page_size = 4096, vm_before = (\<lambda>a. if a < 65536 then Some Reserved else None),
     mkstemp_fd = 3, mkstemp_errno = 2, ftruncate_rc = 0, ftruncate_errno = 27,
     mmap_anon = (\<lambda>_. Some 65536), mmap_anon_errno = 12, mmap_low_ok = True,
     mmap_high_ok = True, mmap_high_errno = 12\<rparr>"

theorem ringbuffer_init_all_or_nothing_witness:
  "\<exists>ret buff' k. ringbuffer_init good_os (fresh_ring 1) 4096 = Inr (ret, buff', k) \<and>
    \<not> k_fd k \<and> \<not> k_name k \<and>
    (if ret = 0
     then rb_inv buff' \<and> rb_bytes buff' = [] \<and> rb_capacity buff' = unat (4096 :: size_t) \<and>
       (\<exists>base. \<forall>a. k_vm k a =
          (if in_range base (2 * unat (4096 :: size_t)) a
           then Some (File_byte ((a - base) mod unat (4096 :: size_t))) else vm_before good_os a) \<and>
          (if in_range base (2 * unat (4096 :: size_t)) a then vm_before good_os a = None else True))
     else k_vm k = vm_before good_os)"
  by (rule ringbuffer_init_all_or_nothing)
    (simp_all add: good_os_def errno_set_def takes_free_def in_range_def)

end
