(* ===== verification/Ring_Threads.thy ===== *)
theory Ring_Threads
  imports Ringbuffer
begin

text \<open>
  The ring shared by one writer thread and one reader thread, as the threaded tests
  and the collector of \<open>test_simple.c\<close> share it. Each load, copy and update of
  \<open>ringbuffer_write\<close> and \<open>ringbuffer_read\<close> is one step, and the steps of the two
  threads interleave freely. \<open>sent\<close> and \<open>got\<close> record the bytes published by the
  writer and released by the reader; the code does not have them.

  The comment at the head of \<open>ringbuffer.c\<close> says that sharing a ring is not safe.
  The first property shows the unsafe runs; the second one that the move of both
  indices down by \<open>size\<close> is the only unsafe moment: if no such move is in progress
  while the writer reads the two indices, every interleaving is safe and FIFO.
\<close>

section \<open>Threads\<close>

text \<open>
  Program counters. The writer has loaded \<open>widx\<close> (\<open>WGotW\<close>), has computed the
  length it may write (\<open>WRoom\<close>), has copied (\<open>WStored\<close>). The reader has computed
  the length to read (\<open>RRoom\<close>), has copied (\<open>RTaken\<close>), has advanced \<open>ridx\<close> beyond
  \<open>size\<close> (\<open>RWrapping\<close>), has loaded \<open>widx\<close> for the exchange (\<open>RGotW\<close>), has exchanged
  it (\<open>RSwapped\<close>).
\<close>

datatype writer_pc =
    WIdle
  | WCalled "u8 list" size_t
  | WGotW "u8 list" size_t size_t
  | WRoom "u8 list" size_t
  | WStored "u8 list"

datatype reader_pc =
    RIdle
  | RRoom size_t
  | RTaken "u8 list"
  | RWrapping
  | RGotW size_t
  | RSwapped

record threads =
  ring :: ringbuffer_s
  wpc :: writer_pc
  rpc :: reader_pc
  sent :: "u8 list"
  got :: "u8 list"
  faulted :: "fault option"

datatype action =
    WCall "u8 list" size_t | WLoadW | WLoadR | WCopy | WAdd
  | RCall size_t | RCopy | RAdv | RLoadW | RCas | RSub

section \<open>The steps of ringbuffer\_write\<close>

fun writer_step :: "threads \<Rightarrow> action \<Rightarrow> threads option" where
  "writer_step s (WCall src amount) =
     (if wpc s = WIdle \<and> amount > 0 \<and> unat amount \<le> length src
      then Some (s\<lparr>wpc := WCalled src amount\<rparr>) else None)"
| "writer_step s WLoadW =
     (case wpc s of
        WCalled src amount \<Rightarrow> Some (s\<lparr>wpc := WGotW src amount (rb_widx (ring s))\<rparr>)
      | _ \<Rightarrow> None)"
| "writer_step s WLoadR =
     (case wpc s of
        WGotW src amount widx \<Rightarrow>
          let used = widx - rb_ridx (ring s);
              len = min_size_t (rb_size (ring s) - used) amount
          in Some (s\<lparr>wpc := (if len > 0 then WRoom src len else WIdle)\<rparr>)
      | _ \<Rightarrow> None)"
| "writer_step s WCopy =
     (case wpc s of
        WRoom src len \<Rightarrow>
          (case copy_in (rb_address (ring s)) (unat (rb_widx (ring s))) src (unat len) of
             Inl e \<Rightarrow> Some (s\<lparr>faulted := Some e\<rparr>)
           | Inr m \<Rightarrow> Some (s\<lparr>ring := (ring s)\<lparr>rb_address := m\<rparr>,
                              wpc := WStored (take (unat len) src)\<rparr>))
      | _ \<Rightarrow> None)"
| "writer_step s WAdd =
     (case wpc s of
        WStored bs \<Rightarrow>
          Some (s\<lparr>ring := (ring s)\<lparr>rb_widx := rb_widx (ring s) + of_nat (length bs)\<rparr>,
                  wpc := WIdle, sent := sent s @ bs\<rparr>)
      | _ \<Rightarrow> None)"
| "writer_step s _ = None"

section \<open>The steps of ringbuffer\_read\<close>

fun reader_step :: "threads \<Rightarrow> action \<Rightarrow> threads option" where
  "reader_step s (RCall amount) =
     (if rpc s = RIdle \<and> amount > 0
      then let used = rb_widx (ring s) - rb_ridx (ring s)
           in Some (s\<lparr>rpc := (if used > 0 then RRoom (min_size_t used amount) else RIdle)\<rparr>)
      else None)"
| "reader_step s RCopy =
     (case rpc s of
        RRoom len \<Rightarrow>
          (case load_bytes (rb_address (ring s)) (unat (rb_ridx (ring s))) (unat len) of
             Inl e \<Rightarrow> Some (s\<lparr>faulted := Some e\<rparr>)
           | Inr bs \<Rightarrow> Some (s\<lparr>rpc := RTaken bs\<rparr>))
      | _ \<Rightarrow> None)"
| "reader_step s RAdv =
     (case rpc s of
        RTaken bs \<Rightarrow>
          let ridx = rb_ridx (ring s) + of_nat (length bs)
          in Some (s\<lparr>ring := (ring s)\<lparr>rb_ridx := ridx\<rparr>,
                     rpc := (if ridx > rb_size (ring s) then RWrapping else RIdle),
                     got := got s @ bs\<rparr>)
      | _ \<Rightarrow> None)"
| "reader_step s RLoadW =
     (case rpc s of
        RWrapping \<Rightarrow> Some (s\<lparr>rpc := RGotW (rb_widx (ring s))\<rparr>)
      | _ \<Rightarrow> None)"
| "reader_step s RCas =
     (case rpc s of
        RGotW temp \<Rightarrow>
          let (ring', again) = widx_wrap_try (ring s) temp
          in Some (s\<lparr>ring := ring', rpc := (if again then RWrapping else RSwapped)\<rparr>)
      | _ \<Rightarrow> None)"
| "reader_step s RSub =
     (case rpc s of
        RSwapped \<Rightarrow>
          Some (s\<lparr>ring := (ring s)\<lparr>rb_ridx := rb_ridx (ring s) - rb_size (ring s)\<rparr>, rpc := RIdle\<rparr>)
      | _ \<Rightarrow> None)"
| "reader_step s _ = None"

definition thread_step :: "threads \<Rightarrow> action \<Rightarrow> threads option" where
  "thread_step s a =
     (if faulted s \<noteq> None then None
      else case writer_step s a of Some t \<Rightarrow> Some t | None \<Rightarrow> reader_step s a)"

fun thread_run :: "threads \<Rightarrow> action list \<Rightarrow> threads option" where
  "thread_run s [] = Some s"
| "thread_run s (a # as) =
     (case thread_step s a of None \<Rightarrow> None | Some t \<Rightarrow> thread_run t as)"

definition threads_init :: "ringbuffer_s \<Rightarrow> threads" where
  "threads_init rbuf =
     \<lparr>ring = rbuf, wpc = WIdle, rpc = RIdle, sent = [], got = [], faulted = None\<rparr>"

section \<open>The interleavings that are safe\<close>

definition wrapping :: "threads \<Rightarrow> bool" where
  "wrapping s = (case rpc s of RWrapping \<Rightarrow> True | RGotW _ \<Rightarrow> True | RSwapped \<Rightarrow> True | _ \<Rightarrow> False)"

definition starts_wrap :: "threads \<Rightarrow> action \<Rightarrow> bool" where
  "starts_wrap s a =
     (case rpc s of
        RTaken bs \<Rightarrow> a = RAdv \<and> rb_ridx (ring s) + of_nat (length bs) > rb_size (ring s)
      | _ \<Rightarrow> False)"

definition loading :: "threads \<Rightarrow> bool" where
  "loading s = (case wpc s of WGotW _ _ _ \<Rightarrow> True | _ \<Rightarrow> False)"

text \<open>
  The writer loads the indices only while no wrap is in progress, and the reader does
  not begin a wrap between the writer's two loads.
\<close>

definition paced_step :: "threads \<Rightarrow> action \<Rightarrow> bool" where
  "paced_step s a \<longleftrightarrow>
     (a = WLoadW \<or> a = WLoadR \<longrightarrow> \<not> wrapping s) \<and> (loading s \<longrightarrow> \<not> starts_wrap s a)"

fun paced :: "threads \<Rightarrow> action list \<Rightarrow> bool" where
  "paced s [] = True"
| "paced s (a # as) =
     (paced_step s a \<and> (case thread_step s a of None \<Rightarrow> True | Some t \<Rightarrow> paced t as))"

text \<open>An unpaced run of a two-byte ring in which bytes are delivered that were not sent there.\<close>

definition lost_run :: "action list" where
  "lost_run =
     [WCall [1, 2] 2, WLoadW, WLoadR, WCopy, WAdd,
      RCall 1, RCopy, RAdv,
      WCall [3] 1, WLoadW, WLoadR, WCopy, WAdd,
      RCall 2, RCopy, RAdv, RLoadW, RCas,
      WCall [4, 5, 6] 3, WLoadW, WLoadR, WCopy, WAdd,
      RSub, RCall 3, RCopy, RAdv]"


section \<open>The invariant of paced runs\<close>

text \<open>
  Positions are counted from the start of the stream: \<open>length sent\<close> for the writer,
  \<open>length got\<close> for the reader. Each index is its position less a multiple of the
  capacity, the same multiple for both except between the exchange of \<open>widx\<close> and the
  adjustment of \<open>ridx\<close>.
\<close>

definition pending :: "threads \<Rightarrow> nat" where
  "pending s = (case wpc s of WRoom _ len \<Rightarrow> unat len | WStored bs \<Rightarrow> length bs | _ \<Rightarrow> 0)"

definition indices_ok :: "nat \<Rightarrow> threads \<Rightarrow> bool" where
  "indices_ok n s \<longleftrightarrow>
     (\<exists>q. length (got s) = q * n + unat (rb_ridx (ring s)) \<and>
        length (sent s) = (if rpc s = RSwapped then n else 0) + q * n + unat (rb_widx (ring s))) \<and>
     (if wrapping s then n < unat (rb_ridx (ring s)) \<and> unat (rb_ridx (ring s)) \<le> 2 * n
      else unat (rb_ridx (ring s)) \<le> n) \<and>
     length (got s) \<le> length (sent s) \<and>
     length (sent s) + pending s \<le> length (got s) + n \<and>
     unat (rb_widx (ring s)) + pending s \<le> 2 * n"

definition memory_ok :: "nat \<Rightarrow> u8 list \<Rightarrow> threads \<Rightarrow> bool" where
  "memory_ok n f s \<longleftrightarrow>
     (\<forall>k. length (got s) \<le> k \<and> k < length (sent s) \<longrightarrow> f ! (k mod n) = sent s ! k) \<and>
     (case wpc s of
        WStored bs \<Rightarrow> \<forall>k < length bs. f ! ((length (sent s) + k) mod n) = bs ! k
      | _ \<Rightarrow> True)"

definition writer_ok :: "threads \<Rightarrow> bool" where
  "writer_ok s =
     (case wpc s of
        WCalled src amount \<Rightarrow> 0 < unat amount \<and> unat amount \<le> length src
      | WGotW src amount widx \<Rightarrow> 0 < unat amount \<and> unat amount \<le> length src \<and>
          widx = rb_widx (ring s) \<and> \<not> wrapping s
      | WRoom src len \<Rightarrow> unat len \<le> length src
      | _ \<Rightarrow> True)"

definition reader_ok :: "threads \<Rightarrow> bool" where
  "reader_ok s =
     (case rpc s of
        RRoom len \<Rightarrow> 0 < unat len \<and> length (got s) + unat len \<le> length (sent s)
      | RTaken bs \<Rightarrow> 0 < length bs \<and> length (got s) + length bs \<le> length (sent s) \<and>
          bs = take (length bs) (drop (length (got s)) (sent s))
      | _ \<Rightarrow> True)"

definition threads_inv :: "nat \<Rightarrow> threads \<Rightarrow> bool" where
  "threads_inv n s \<longleftrightarrow>
     0 < n \<and> n < 2 ^ 62 \<and> unat (rb_size (ring s)) = n \<and> faulted s = None \<and>
     (\<exists>f. rb_address (ring s) = Mirrored f \<and> length f = n \<and> memory_ok n f s) \<and>
     indices_ok n s \<and> writer_ok s \<and> reader_ok s \<and>
     got s = take (length (got s)) (sent s)"

lemmas inv_defs = threads_inv_def indices_ok_def memory_ok_def writer_ok_def reader_ok_def
  pending_def wrapping_def

lemma poke_mod: "i mod length f = j mod length f \<Longrightarrow> poke f i bs = poke f j bs"
proof (induction bs arbitrary: f i j)
  case Nil
  then show ?case by simp
next
  case (Cons b bs)
  have "Suc i mod length f = Suc j mod length f"
    using Cons.prems mod_Suc_eq [of i "length f"] mod_Suc_eq [of j "length f"] by simp
  with Cons.IH [of "Suc i" "f[j mod length f := b]" "Suc j"] Cons.prems show ?case by simp
qed

text \<open>The position of an index: its byte in the file is that of its position.\<close>

lemma indices_okE:
  assumes "indices_ok n s"
  obtains q where "length (got s) = q * n + unat (rb_ridx (ring s))"
    "length (sent s) = (if rpc s = RSwapped then n else 0) + q * n + unat (rb_widx (ring s))"
    "length (got s) \<le> length (sent s)"
    "length (sent s) + pending s \<le> length (got s) + n"
    "unat (rb_widx (ring s)) + pending s \<le> 2 * n"
  using assms by (auto simp only: indices_ok_def)

lemma write_position:
  assumes "indices_ok n s"
  shows "unat (rb_widx (ring s)) mod n = length (sent s) mod n"
proof -
  from assms obtain q where
    "length (sent s) = (if rpc s = RSwapped then n else 0) + q * n + unat (rb_widx (ring s))"
    by (rule indices_okE)
  then have "length (sent s) = unat (rb_widx (ring s)) + (if rpc s = RSwapped then Suc q else q) * n"
    by simp
  then show ?thesis by (simp only: mod_mult_self1)
qed

lemma read_position:
  assumes "indices_ok n s"
  shows "unat (rb_ridx (ring s)) mod n = length (got s) mod n"
  using assms by (rule indices_okE) simp

text \<open>While no wrap is in progress both indices have the same base.\<close>

lemma same_base:
  assumes "indices_ok n s" "\<not> wrapping s"
  shows "unat (rb_widx (ring s)) + length (got s) = unat (rb_ridx (ring s)) + length (sent s)"
    and "unat (rb_ridx (ring s)) \<le> n" and "unat (rb_ridx (ring s)) \<le> unat (rb_widx (ring s))"
    and "unat (rb_widx (ring s)) \<le> 2 * n"
proof -
  have "rpc s \<noteq> RSwapped" using assms(2) by (auto simp: wrapping_def)
  moreover from assms(1) obtain q where "length (got s) = q * n + unat (rb_ridx (ring s))"
    "length (sent s) = (if rpc s = RSwapped then n else 0) + q * n + unat (rb_widx (ring s))"
    "length (got s) \<le> length (sent s)" "unat (rb_widx (ring s)) + pending s \<le> 2 * n"
    by (rule indices_okE)
  ultimately show "unat (rb_widx (ring s)) + length (got s) = unat (rb_ridx (ring s)) + length (sent s)"
    "unat (rb_ridx (ring s)) \<le> unat (rb_widx (ring s))" "unat (rb_widx (ring s)) \<le> 2 * n"
    by simp_all
  show "unat (rb_ridx (ring s)) \<le> n"
    using assms by (simp add: indices_ok_def)
qed

section \<open>The writer's steps keep the invariant\<close>

lemma wpc_frame [simp]:
  "wrapping (s\<lparr>wpc := pc\<rparr>) = wrapping s" "reader_ok (s\<lparr>wpc := pc\<rparr>) = reader_ok s"
  by (simp_all add: wrapping_def reader_ok_def split: reader_pc.split)

lemma memory_ok_wpc:
  "memory_ok n f s \<Longrightarrow> (\<And>bs. pc \<noteq> WStored bs) \<Longrightarrow> memory_ok n f (s\<lparr>wpc := pc\<rparr>)"
  by (cases pc) (auto simp: memory_ok_def)

text \<open>A step of the writer that changes its program counter only.\<close>

lemma inv_wpc:
  assumes "threads_inv n s" "writer_ok (s\<lparr>wpc := pc\<rparr>)" "indices_ok n (s\<lparr>wpc := pc\<rparr>)"
    and "\<And>bs. pc \<noteq> WStored bs"
  shows "threads_inv n (s\<lparr>wpc := pc\<rparr>)"
  using assms by (auto simp: threads_inv_def memory_ok_wpc)

lemma indices_ok_wpc:
  "indices_ok n s \<Longrightarrow> pending (s\<lparr>wpc := pc\<rparr>) = 0 \<Longrightarrow> indices_ok n (s\<lparr>wpc := pc\<rparr>)"
  by (simp add: indices_ok_def)

lemma inv_WCall:
  assumes "threads_inv n s" and "writer_step s (WCall src amount) = Some t"
  shows "threads_inv n t"
proof -
  have t: "t = s\<lparr>wpc := WCalled src amount\<rparr>" "0 < amount" "unat amount \<le> length src"
    using assms(2) by (auto split: if_splits)
  show ?thesis unfolding t(1)
  proof (rule inv_wpc [OF assms(1)])
    show "indices_ok n (s\<lparr>wpc := WCalled src amount\<rparr>)"
      using assms(1) by (intro indices_ok_wpc) (simp_all add: threads_inv_def pending_def)
  qed (use t in \<open>simp_all add: writer_ok_def word_gt_0_unat\<close>)
qed

lemma inv_WLoadW:
  assumes "threads_inv n s" and "\<not> wrapping s" and "writer_step s WLoadW = Some t"
  shows "threads_inv n t"
proof -
  obtain src amount where pc: "wpc s = WCalled src amount"
    and t: "t = s\<lparr>wpc := WGotW src amount (rb_widx (ring s))\<rparr>"
    using assms(3) by (auto split: writer_pc.splits)
  show ?thesis unfolding t
  proof (rule inv_wpc [OF assms(1)])
    show "indices_ok n (s\<lparr>wpc := WGotW src amount (rb_widx (ring s))\<rparr>)"
      using assms(1) by (intro indices_ok_wpc) (simp_all add: threads_inv_def pending_def)
  qed (use assms(1,2) pc in \<open>simp_all add: threads_inv_def writer_ok_def\<close>)
qed

lemma inv_WLoadR:
  assumes inv: "threads_inv n s" and step: "writer_step s WLoadR = Some t"
  shows "threads_inv n t"
proof -
  from step obtain src amount widx where pc: "wpc s = WGotW src amount widx"
    by (auto split: writer_pc.splits)
  have idx: "indices_ok n s" and n: "unat (rb_size (ring s)) = n" "n < 2 ^ 62"
    using inv by (simp_all add: threads_inv_def)
  have w: "widx = rb_widx (ring s)" "\<not> wrapping s" "unat amount \<le> length src"
    using inv pc by (simp_all add: threads_inv_def writer_ok_def)
  note base = same_base [OF idx w(2)]
  have used: "unat (widx - rb_ridx (ring s)) = length (sent s) - length (got s)"
    using base w(1) by (simp add: unat_sub_le)
  define len where "len = min_size_t (rb_size (ring s) - (widx - rb_ridx (ring s))) amount"
  have bnd: "length (sent s) \<le> length (got s) + n" "length (got s) \<le> length (sent s)"
    using idx by (simp_all add: indices_ok_def)
  then have len: "unat len \<le> length (got s) + n - length (sent s)" "unat len \<le> length src"
    using n used w(3) by (simp_all add: len_def unat_sub_le)
  have t: "t = s\<lparr>wpc := (if len > 0 then WRoom src len else WIdle)\<rparr>"
    using step pc by (auto simp: len_def Let_def)
  show ?thesis unfolding t
  proof (rule inv_wpc [OF inv])
    show "indices_ok n (s\<lparr>wpc := if len > 0 then WRoom src len else WIdle\<rparr>)"
      using idx len base w(2) bnd
      by (simp add: indices_ok_def pending_def) (intro impI conjI; linarith)
    show "writer_ok (s\<lparr>wpc := if len > 0 then WRoom src len else WIdle\<rparr>)"
      using len by (simp add: writer_ok_def)
  qed simp
qed

lemma inv_WCopy:
  assumes inv: "threads_inv n s" and step: "writer_step s WCopy = Some t"
  shows "threads_inv n t"
proof -
  from step obtain src len where pc: "wpc s = WRoom src len"
    by (auto split: writer_pc.splits)
  obtain f where f: "rb_address (ring s) = Mirrored f" "length f = n" "memory_ok n f s"
    and n: "0 < n"
    using inv by (auto simp: threads_inv_def)
  have idx: "indices_ok n s" and len: "unat len \<le> length src"
    using inv pc by (simp_all add: threads_inv_def writer_ok_def)
  let ?w = "unat (rb_widx (ring s))" and ?bs = "take (unat len) src"
  have room: "?w + unat len \<le> 2 * n" "length (sent s) + unat len \<le> length (got s) + n"
    "length (got s) \<le> length (sent s)"
    using idx pc by (simp_all add: indices_ok_def pending_def)
  have ne: "f \<noteq> []" using f(2) n by auto
  let ?g = "poke f ?w ?bs"
  have t: "t = s\<lparr>ring := (ring s)\<lparr>rb_address := Mirrored ?g\<rparr>, wpc := WStored ?bs\<rparr>"
    using step pc f room(1) len by (simp add: copy_in_def store_bytes_def min_absorb2)
  have g: "?g = poke f (length (sent s)) ?bs"
    by (rule poke_mod) (use write_position [OF idx] f(2) in simp)
  have "?g ! (k mod n) =
      (if length (sent s) \<le> k \<and> k < length (sent s) + unat len then ?bs ! (k - length (sent s))
       else f ! (k mod n))"
    if "length (got s) \<le> k" "k < length (got s) + n" for k
    using poke_window [of f "length (got s)" "length (sent s)" ?bs k] that room len f(2) ne
    by (auto simp: g min_absorb2)
  then have "memory_ok n ?g t"
    using f(3) room by (simp add: memory_ok_def pc t)
  moreover have "indices_ok n t"
    using idx pc len by (simp add: indices_ok_def pending_def wrapping_def t min_absorb2)
  ultimately show ?thesis
    using inv f(2) by (auto simp: threads_inv_def writer_ok_def reader_ok_def t split: reader_pc.splits)
qed

lemma inv_WAdd:
  assumes inv: "threads_inv n s" and step: "writer_step s WAdd = Some t"
  shows "threads_inv n t"
proof -
  from step obtain bs where pc: "wpc s = WStored bs"
    by (auto split: writer_pc.splits)
  have idx: "indices_ok n s" and n: "n < 2 ^ 62"
    using inv by (simp_all add: threads_inv_def)
  have room: "unat (rb_widx (ring s)) + length bs \<le> 2 * n" and le: "length (got s) \<le> length (sent s)"
    using idx pc by (simp_all add: indices_ok_def pending_def)
  have bs: "unat (of_nat (length bs) :: size_t) = length bs"
    using room n by (simp add: unat_of_nat)
  have "unat (rb_widx (ring s) + of_nat (length bs)) = unat (rb_widx (ring s)) + length bs"
    using unat_add_small [of "rb_widx (ring s)" "of_nat (length bs)"] bs room n by simp
  moreover have t: "t = s\<lparr>ring := (ring s)\<lparr>rb_widx := rb_widx (ring s) + of_nat (length bs)\<rparr>,
      wpc := WIdle, sent := sent s @ bs\<rparr>"
    using step pc by simp
  ultimately have "indices_ok n t"
    using idx pc by (auto simp: indices_ok_def pending_def wrapping_def)
  moreover have "memory_ok n f t" if "memory_ok n f s" for f
    using that pc by (auto simp: memory_ok_def t nth_append) (metis add_diff_inverse_nat less_diff_conv2 linorder_not_less nat_add_left_cancel_less)
  ultimately show ?thesis
    using inv le by (auto simp: threads_inv_def writer_ok_def reader_ok_def t split: reader_pc.splits)
qed


section \<open>The reader's steps keep the invariant\<close>

text \<open>A step of the reader that changes its program counter only, outside the wrap.\<close>

lemma inv_rpc:
  assumes "threads_inv n s" "reader_ok (s\<lparr>rpc := pc\<rparr>)"
    and "wrapping (s\<lparr>rpc := pc\<rparr>) = wrapping s" "pc = RSwapped \<longleftrightarrow> rpc s = RSwapped"
  shows "threads_inv n (s\<lparr>rpc := pc\<rparr>)"
  using assms by (simp add: threads_inv_def memory_ok_def indices_ok_def writer_ok_def pending_def
      cong: writer_pc.case_cong)

lemma inv_RCall:
  assumes inv: "threads_inv n s" and step: "reader_step s (RCall amount) = Some t"
  shows "threads_inv n t"
proof -
  have pc: "rpc s = RIdle" and a: "0 < amount"
    and t: "t = s\<lparr>rpc := (if rb_widx (ring s) - rb_ridx (ring s) > 0
        then RRoom (min_size_t (rb_widx (ring s) - rb_ridx (ring s)) amount) else RIdle)\<rparr>"
    using step by (auto simp: Let_def split: if_splits)
  have idx: "indices_ok n s" "\<not> wrapping s"
    using inv pc by (simp_all add: threads_inv_def wrapping_def)
  note base = same_base [OF idx]
  have "unat (rb_widx (ring s) - rb_ridx (ring s)) = length (sent s) - length (got s)"
    using base by (simp add: unat_sub_le)
  then show ?thesis unfolding t
    using pc a inv by (intro inv_rpc) (auto simp: reader_ok_def wrapping_def word_gt_0_unat)
qed

lemma inv_RCopy:
  assumes inv: "threads_inv n s" and step: "reader_step s RCopy = Some t"
  shows "threads_inv n t"
proof -
  from step obtain len where pc: "rpc s = RRoom len"
    by (auto split: reader_pc.splits)
  obtain f where f: "rb_address (ring s) = Mirrored f" "length f = n" "memory_ok n f s"
    using inv by (auto simp: threads_inv_def)
  have idx: "indices_ok n s" "\<not> wrapping s"
    and len: "0 < unat len" "length (got s) + unat len \<le> length (sent s)"
    using inv pc by (simp_all add: threads_inv_def wrapping_def reader_ok_def)
  let ?r = "unat (rb_ridx (ring s))"
  let ?bs = "map (\<lambda>k. f ! (k mod n)) [?r..<?r + unat len]"
  have "?r + unat len \<le> 2 * n"
    using same_base [OF idx] len by linarith
  then have t: "t = s\<lparr>rpc := RTaken ?bs\<rparr>"
    using step pc f by (simp add: load_bytes_def)
  have "f ! ((?r + k) mod n) = sent s ! (length (got s) + k)" if "k < unat len" for k
  proof -
    have "(?r + k) mod n = (length (got s) + k) mod n"
      using read_position [OF idx(1)] by (metis mod_add_left_eq)
    with f(3) that len show ?thesis by (simp add: memory_ok_def)
  qed
  then have "?bs = take (unat len) (drop (length (got s)) (sent s))"
    using len by (intro nth_equalityI) simp_all
  then show ?thesis unfolding t
    using pc len inv by (intro inv_rpc) (simp_all add: reader_ok_def wrapping_def)
qed

lemma inv_RAdv:
  assumes inv: "threads_inv n s" and paced: "paced_step s RAdv"
    and step: "reader_step s RAdv = Some t"
  shows "threads_inv n t"
proof -
  from step obtain bs where pc: "rpc s = RTaken bs"
    by (auto split: reader_pc.splits)
  let ?ridx = "rb_ridx (ring s) + of_nat (length bs)"
  have t: "t = s\<lparr>ring := (ring s)\<lparr>rb_ridx := ?ridx\<rparr>,
      rpc := (if ?ridx > rb_size (ring s) then RWrapping else RIdle), got := got s @ bs\<rparr>"
    using step pc by (simp add: Let_def)
  have idx: "indices_ok n s" "\<not> wrapping s" and n: "n < 2 ^ 62" "unat (rb_size (ring s)) = n"
    and bs: "0 < length bs" "length (got s) + length bs \<le> length (sent s)"
      "bs = take (length bs) (drop (length (got s)) (sent s))"
    and pre: "got s = take (length (got s)) (sent s)"
    using inv pc by (simp_all add: threads_inv_def wrapping_def reader_ok_def)
  note base = same_base [OF idx]
  have le: "unat (rb_ridx (ring s)) + length bs \<le> 2 * n"
    using base bs(2) by linarith
  have "unat (of_nat (length bs) :: size_t) = length bs"
    using le n by (simp add: unat_of_nat)
  then have r: "unat ?ridx = unat (rb_ridx (ring s)) + length bs"
    using unat_add_small [of "rb_ridx (ring s)" "of_nat (length bs)"] le n by simp
  have gt: "?ridx > rb_size (ring s) \<longleftrightarrow> n < unat (rb_ridx (ring s)) + length bs"
    using r n by (simp add: word_less_nat_alt)
  have "indices_ok n t"
    using idx pc le bs(2) r gt by (auto simp: indices_ok_def pending_def wrapping_def t)
  moreover have "writer_ok t"
    using inv paced pc gt
    by (auto simp: threads_inv_def writer_ok_def t wrapping_def paced_step_def loading_def
        starts_wrap_def split: writer_pc.splits)
  moreover have "got t = take (length (got t)) (sent t)"
  proof -
    have "take (length (got s) + length bs) (sent s) = got s @ bs"
      by (simp only: take_add pre [symmetric] bs(3) [symmetric])
    then show ?thesis by (simp add: t)
  qed
  moreover have "memory_ok n f t" if "memory_ok n f s" for f
    using that bs by (simp add: memory_ok_def t cong: writer_pc.case_cong)
  moreover have "reader_ok t"
    by (simp add: reader_ok_def t)
  moreover have fields: "rb_size (ring t) = rb_size (ring s)"
    "rb_address (ring t) = rb_address (ring s)" "faulted t = faulted s"
    by (simp_all add: t)
  ultimately show ?thesis
    using inv unfolding threads_inv_def fields by blast
qed

lemma inv_RLoadW:
  assumes inv: "threads_inv n s" and step: "reader_step s RLoadW = Some t"
  shows "threads_inv n t"
proof -
  from step have "rpc s = RWrapping" and t: "t = s\<lparr>rpc := RGotW (rb_widx (ring s))\<rparr>"
    by (auto split: reader_pc.splits)
  then show ?thesis unfolding t
    using inv by (intro inv_rpc) (simp_all add: reader_ok_def wrapping_def)
qed

lemma inv_RCas:
  assumes inv: "threads_inv n s" and step: "reader_step s RCas = Some t"
  shows "threads_inv n t"
proof -
  from step obtain temp where pc: "rpc s = RGotW temp"
    by (auto split: reader_pc.splits)
  show ?thesis
  proof (cases "rb_widx (ring s) = temp")
    case False
    then have "t = s\<lparr>rpc := RWrapping\<rparr>"
      using step pc by (simp add: widx_wrap_try_def atomic_compare_and_swap_def Let_def)
    then show ?thesis
      using inv pc by (auto intro!: inv_rpc simp: reader_ok_def wrapping_def)
  next
    case True
    let ?widx = "rb_widx (ring s) - rb_size (ring s)"
    have t: "t = s\<lparr>ring := (ring s)\<lparr>rb_widx := ?widx\<rparr>, rpc := RSwapped\<rparr>"
      using step pc True by simp
    have idx: "indices_ok n s" and n: "unat (rb_size (ring s)) = n"
      and wr: "wrapping s"
      using inv pc by (simp_all add: threads_inv_def wrapping_def)
    from idx obtain q where q: "length (got s) = q * n + unat (rb_ridx (ring s))"
      "length (sent s) = (if rpc s = RSwapped then n else 0) + q * n + unat (rb_widx (ring s))"
      "length (got s) \<le> length (sent s)"
      by (rule indices_okE)
    have ridx: "n < unat (rb_ridx (ring s))"
      using idx wr by (simp add: indices_ok_def)
    then have w: "n \<le> unat (rb_widx (ring s))"
      using q pc by simp
    then have "unat ?widx = unat (rb_widx (ring s)) - n"
      using n by (simp add: unat_sub_le)
    then have "indices_ok n t"
      using idx q pc w wr ridx by (auto simp: indices_ok_def pending_def wrapping_def t)
    moreover have "writer_ok t"
      using inv wr by (auto simp: threads_inv_def writer_ok_def t wrapping_def split: writer_pc.splits)
    ultimately show ?thesis
      using inv by (auto simp: threads_inv_def reader_ok_def memory_ok_def t split: writer_pc.splits)
  qed
qed

lemma inv_RSub:
  assumes inv: "threads_inv n s" and step: "reader_step s RSub = Some t"
  shows "threads_inv n t"
proof -
  from step have pc: "rpc s = RSwapped"
    and t: "t = s\<lparr>ring := (ring s)\<lparr>rb_ridx := rb_ridx (ring s) - rb_size (ring s)\<rparr>, rpc := RIdle\<rparr>"
    by (auto split: reader_pc.splits)
  have idx: "indices_ok n s" and n: "unat (rb_size (ring s)) = n" and wr: "wrapping s"
    using inv pc by (simp_all add: threads_inv_def wrapping_def)
  from idx obtain q where q: "length (got s) = q * n + unat (rb_ridx (ring s))"
    "length (sent s) = (if rpc s = RSwapped then n else 0) + q * n + unat (rb_widx (ring s))"
    "length (got s) \<le> length (sent s)"
    by (rule indices_okE)
  have ridx: "n < unat (rb_ridx (ring s))" "unat (rb_ridx (ring s)) \<le> 2 * n"
    using idx wr by (simp_all add: indices_ok_def)
  then have "unat (rb_ridx (ring s) - rb_size (ring s)) = unat (rb_ridx (ring s)) - n"
    using n by (simp add: unat_sub_le)
  then have "indices_ok n t"
    using idx q pc ridx by (auto simp: indices_ok_def pending_def wrapping_def t intro!: exI [of _ "Suc q"])
  moreover have "writer_ok t"
    using inv wr by (auto simp: threads_inv_def writer_ok_def t wrapping_def split: writer_pc.splits)
  ultimately show ?thesis
    using inv by (auto simp: threads_inv_def reader_ok_def memory_ok_def t split: writer_pc.splits)
qed


section \<open>Runs\<close>

lemma thread_step_inv:
  assumes "threads_inv n s" and "paced_step s a" and "thread_step s a = Some t"
  shows "threads_inv n t"
proof -
  from assms(3) have "writer_step s a = Some t \<or> reader_step s a = Some t"
    by (auto simp: thread_step_def split: if_splits option.splits)
  then show ?thesis
    using assms(1,2)
    by (cases a)
      (auto simp: paced_step_def intro: inv_WCall inv_WLoadW inv_WLoadR inv_WCopy inv_WAdd
        inv_RCall inv_RCopy inv_RAdv inv_RLoadW inv_RCas inv_RSub
        simp del: writer_step.simps(1-5) reader_step.simps(1-6))
qed

lemma thread_run_inv:
  "threads_inv n s \<Longrightarrow> paced s acts \<Longrightarrow> thread_run s acts = Some t \<Longrightarrow> threads_inv n t"
proof (induction acts arbitrary: s)
  case Nil
  then show ?case by simp
next
  case (Cons a acts)
  then show ?case
    by (auto split: option.splits intro: thread_step_inv)
qed

lemma threads_init_inv:
  assumes "rb_inv rbuf" and "rb_bytes rbuf = []"
    and "rb_ridx rbuf = 0"
  shows "threads_inv (rb_capacity rbuf) (threads_init rbuf)"
proof -
  have "unat (rb_widx rbuf) = 0"
    using assms by (auto elim!: rb_invE simp: rb_bytes_def)
  then show ?thesis
    using assms
    by (auto elim!: rb_invE simp: inv_defs threads_init_def rb_capacity_def)
qed

section \<open>Properties\<close>

text \<open>
  C2: in every interleaving of one writer and one reader in which the writer does not
  load the two indices while the reader is moving them down by \<open>size\<close>, neither thread
  leaves the mapping, what the reader has taken is a prefix of what the writer has
  sent, and the writer is never more than the capacity ahead. The copies, the
  publication of \<open>widx\<close> and the retry loop of the exchange interleave freely.
\<close>

theorem paced_runs_fifo:
  assumes "rb_inv rbuf" and "rb_bytes rbuf = []" and "rb_ridx rbuf = 0"
    and "paced (threads_init rbuf) acts" and "thread_run (threads_init rbuf) acts = Some s"
  shows "faulted s = None \<and> got s = take (length (got s)) (sent s) \<and>
    length (sent s) \<le> length (got s) + rb_capacity rbuf"
  using thread_run_inv [OF threads_init_inv [OF assms(1-3)] assms(4,5)]
  by (auto simp: threads_inv_def indices_ok_def)

definition paced_example :: "action list" where
  "paced_example =
     [WCall [1, 2] 2, WLoadW, WLoadR, WCopy, WAdd,
      RCall 1, RCopy, RAdv,
      WCall [3] 1, WLoadW, WLoadR, WCopy,
      RCall 1, RCopy, RAdv, WAdd, RCall 1, RCopy, RAdv, RLoadW, RCas, RSub]"

theorem paced_runs_fifo_witness:
  "\<exists>s. thread_run (threads_init (fresh_ring 2)) paced_example = Some s \<and>
    faulted s = None \<and> got s = take (length (got s)) (sent s) \<and>
    length (sent s) \<le> length (got s) + rb_capacity (fresh_ring 2)"
proof -
  have p: "paced (threads_init (fresh_ring 2)) paced_example" by code_simp
  obtain s where s: "thread_run (threads_init (fresh_ring 2)) paced_example = Some s"
    by (cases "thread_run (threads_init (fresh_ring 2)) paced_example")
      (use p in \<open>simp_all, code_simp\<close>)
  show ?thesis
    using paced_runs_fifo [OF _ _ _ p s] s by (simp add: fresh_ring_inv, simp add: fresh_ring_def)
qed

text \<open>
  The unpaced run for a ring of \<open>n\<close> bytes: the writer fills it, the reader drains it,
  twice over, and the writer looks for room after the reader's last advance of \<open>ridx\<close>
  and before the indices have been moved down.
\<close>

definition oob_run :: "size_t \<Rightarrow> action list" where
  "oob_run n =
     (let write = [WCall (replicate (unat n) 0) n, WLoadW, WLoadR, WCopy, WAdd];
          read = [RCall n, RCopy, RAdv]
      in write @ read @ write @ read @ [WCall [0] 1, WLoadW, WLoadR, WCopy])"

text \<open>
  C19: without that care the ring is not memory safe, whatever its size: an
  interleaving of the two functions from the empty ring ends with the writer's
  \<open>memcpy\<close> running beyond the doubled mapping.
\<close>

theorem shared_ring_overruns:
  assumes "0 < n" and "unat n < 2 ^ 62"
  shows "map_option faulted (thread_run (threads_init (fresh_ring (unat n))) (oob_run n)) =
    Some (Some OutOfBounds)"
proof -
  have nn: "unat (n + n) = 2 * unat n"
    using unat_add_small [of n n] assms by simp
  have pos: "0 < unat n" using assms by (simp add: word_gt_0_unat)
  have gt: "n < n + n" "0 < n + n" using nn pos by (simp_all add: word_less_nat_alt)
  have m: "min_size_t n 1 = 1" using pos unfolding word_unat_eq_iff unat_min_size_t by simp
  have mm: "min_size_t n n = n" by (simp add: min_size_t_def)
  show ?thesis
    using assms pos gt nn
    by (simp add: oob_run_def Let_def thread_step_def threads_init_def fresh_ring_def mm m
        copy_in_def store_bytes_def load_bytes_def)
qed

theorem shared_ring_overruns_witness:
  "map_option faulted (thread_run (threads_init (fresh_ring (unat (4096 :: size_t)))) (oob_run 4096)) =
    Some (Some OutOfBounds)"
  by (rule shared_ring_overruns) simp_all

text \<open>
  a race that does not fault loses data silently. Between the exchange of \<open>widx\<close>
  and the adjustment of \<open>ridx\<close> the free space computed by the writer is too large by
  the capacity; the writer then overwrites bytes that it has itself just queued, and
  the reader takes 6 where 4 was sent.
\<close>

theorem shared_ring_corrupts:
  "map_option (\<lambda>s. (faulted s, sent s, got s)) (thread_run (threads_init (fresh_ring 2)) lost_run) =
     Some (None, [1, 2, 3, 4, 5, 6], [1, 2, 3, 6, 5, 6])"
  by code_simp

end
