(* ===== verification/Ring_Test.thy ===== *)
theory Ring_Test
  imports Ringbuffer_Init Cstring
begin

text \<open>
  The tests of \<open>test_ringbuffer.c\<close> that run in one thread, and \<open>main\<close> up to the test with
  two threads (\<open>Ring_Test_Threads\<close>). The tests store \<open>int\<close> values, four bytes each on the
  little-endian machines the program runs on; what a test prints is a list of lines.
\<close>

section \<open>Integers as bytes\<close>

definition word_bytes :: "u32 \<Rightarrow> u8 list" where
  "word_bytes w = [ucast w, ucast (drop_bit 8 w), ucast (drop_bit 16 w), ucast (drop_bit 24 w)]"

definition bytes_word :: "u8 list \<Rightarrow> u32" where
  "bytes_word bs = ucast (bs ! 0) OR push_bit 8 (ucast (bs ! 1)) OR push_bit 16 (ucast (bs ! 2))
     OR push_bit 24 (ucast (bs ! 3))"

lemma length_word_bytes [simp]: "length (word_bytes w) = 4"
  by (simp add: word_bytes_def)

lemma bytes_word_bytes [simp]: "bytes_word (word_bytes w @ bs) = w"
proof (rule bit_word_eqI)
  fix n assume "n < LENGTH(32)"
  then show "bit (bytes_word (word_bytes w @ bs)) n = bit w n"
    by (cases "n < 8"; cases "n < 16"; cases "n < 24")
      (auto simp: bytes_word_def word_bytes_def bit_simps)
qed

lemma bytes_word_bytes_alone [simp]: "bytes_word (word_bytes w) = w"
  using bytes_word_bytes [of w "[]"] by simp

section \<open>test\_basic\<close>

text \<open>\<open>c\<close> is what the uninitialised \<open>c\<close> holds. The result is the ring and the status.\<close>

definition test_basic :: "ringbuffer_s \<Rightarrow> u32 \<Rightarrow> (ringbuffer_s \<times> int) result" where
  "test_basic rbuf c =
     (let a = 1; b = 2 in
      bind_r (ringbuffer_write rbuf (word_bytes a) 4) (\<lambda>(rbuf, _).
      bind_r (ringbuffer_write rbuf (word_bytes b) 4) (\<lambda>(rbuf, _).
      bind_r (ringbuffer_read rbuf (word_bytes c) 4) (\<lambda>(rbuf, dest, count).
      if count \<noteq> 4 then Inr (rbuf, -1)
      else if bytes_word dest \<noteq> a then Inr (rbuf, -2)
      else
      bind_r (ringbuffer_read rbuf dest 4) (\<lambda>(rbuf, dest, count).
      if count \<noteq> 4 then Inr (rbuf, -1)
      else if bytes_word dest \<noteq> b then Inr (rbuf, -2)
      else
      bind_r (ringbuffer_read rbuf dest 4) (\<lambda>(rbuf, dest, count).
      if count \<noteq> 0 then Inr (rbuf, -3)
      else if a \<noteq> 1 then Inr (rbuf, -4)
      else if b \<noteq> 2 then Inr (rbuf, -4)
      else Inr (rbuf, 0)))))))"

section \<open>test\_rollover\<close>

text \<open>
  The loop that writes \<open>a\<close>: \<open>k\<close> passes are left, \<open>i\<close> is the counter. It carries the ring,
  \<open>res\<close> and the lines printed; \<open>problem\<close> is the text in front of the numbers.
\<close>

fun write_loop ::
  "string \<Rightarrow> u32 \<Rightarrow> nat \<Rightarrow> int \<Rightarrow> ringbuffer_s \<Rightarrow> int \<Rightarrow> string list \<Rightarrow>
   (ringbuffer_s \<times> int \<times> string list) result" where
  "write_loop problem a 0 i rbuf res lines = Inr (rbuf, res, lines)"
| "write_loop problem a (Suc k) i rbuf res lines =
     bind_r (ringbuffer_write rbuf (word_bytes a) 4) (\<lambda>(rbuf, n).
       let count = to_int32 (uint n)
       in if word_of_int count \<noteq> (4 :: size_t)
          then write_loop problem a k (i + 1) rbuf (res OR 1)
                 (lines @ [problem @ print_int count @ '' at '' @ print_int i])
          else write_loop problem a k (i + 1) rbuf res lines)"

text \<open>
  The loop that reads while the value is \<open>want\<close>. \<open>count\<close> receives the result of the
  comparison \<open>ringbuffer_read(..) == sizeof(c)\<close>. The result is the ring, \<open>c\<close>, \<open>count\<close>, \<open>i\<close>.
\<close>

function read_loop ::
  "u32 \<Rightarrow> ringbuffer_s \<Rightarrow> u32 \<Rightarrow> int \<Rightarrow> (ringbuffer_s \<times> u32 \<times> int \<times> int) result" where
  "read_loop want rbuf c i =
     bind_r (ringbuffer_read rbuf (word_bytes c) 4) (\<lambda>(rbuf, dest, n).
       let count = (if n = 4 then 1 else 0); c = bytes_word dest
       in if count \<noteq> 0 \<and> c = want
          then if i < 1024 then read_loop want rbuf c (i + 1) else Inr (rbuf, c, count, i + 1)
          else Inr (rbuf, c, count, i))"
  by pat_completeness auto

termination
  by (relation "measure (\<lambda>(want, rbuf, c, i). nat (1024 - i))") auto

declare read_loop.simps [simp del]

definition boom :: "string \<Rightarrow> int \<Rightarrow> u32 \<Rightarrow> int \<Rightarrow> string" where
  "boom what i c count = what @ '': i='' @ print_int i @ '' c='' @ print_int (sint c) @
     '' count='' @ print_int count"

definition test_rollover :: "ringbuffer_s \<Rightarrow> (ringbuffer_s \<times> int \<times> string list) result" where
  "test_rollover rbuf =
     (let a = 1; c = 1; res = 0 in
      bind_r (write_loop ''We have an early problem: count = '' a 1024 0 rbuf res [])
        (\<lambda>(rbuf, res, lines).
      bind_r (read_loop 1 rbuf c 0) (\<lambda>(rbuf, c, count, i).
      let (res, lines) =
            (if i = 1024 \<and> c = 1 \<and> count = 0 then (res, lines @ [''All good before rollover''])
             else (res OR 1, lines @ [boom ''Read goes BOOM'' i c count]));
          a = 2 in
      bind_r (write_loop ''We have a post-rollover problem: count = '' a 1024 0 rbuf res lines)
        (\<lambda>(rbuf, res, lines).
      bind_r (read_loop 2 rbuf c 0) (\<lambda>(rbuf, c, count, i).
      let (res, lines) =
            (if i = 1024 \<and> c = 2 \<and> count = 0 then (res, lines @ [''All good after rollover''])
             else (res OR 1, lines @ [boom ''BOOM after rollover'' i c count,
                     ''Values for buffer: ridx, widx = ( '' @ print_int (sint (rb_ridx rbuf)) @
                     '', '' @ print_int (sint (rb_widx rbuf)) @ '' )'']))
      in Inr (rbuf, res, lines))))))"

section \<open>main\<close>

text \<open>\<open>%02X\<close> of a byte.\<close>

definition print_02X :: "u8 \<Rightarrow> string" where
  "print_02X b = List.map
     (\<lambda>c. if ord c \<ge> ord (CHR ''a'') then char_of (ord c - (32 :: int)) else c) (print_02x (uint b))"

definition verdict :: "string \<Rightarrow> int \<Rightarrow> string" where
  "verdict name rc = name @ '': '' @ (if rc \<noteq> 0 then ''FAIL'' else ''SUCCESS'')"

text \<open>
  \<open>main\<close> as far as \<open>test_pthread1\<close>: the status when \<open>ringbuffer_init\<close> fails, otherwise the
  ring that is shared and the lines (the process number left out). \<open>rbuf\<close> and \<open>c\<close> are what
  the uninitialised variables hold.
\<close>

definition ring_tests ::
  "ring_os \<Rightarrow> ringbuffer_s \<Rightarrow> u32 \<Rightarrow> (int + ringbuffer_s \<times> string list) result" where
  "ring_tests os rbuf c =
     bind_r (ringbuffer_init os rbuf 4096) (\<lambda>(rc, rbuf, _).
       if rc \<noteq> 0 then Inr (Inl 1)
       else
       bind_r (store_bytes (rb_address rbuf) 0 [0x5A]) (\<lambda>mem.
       bind_r (load_bytes mem 0 1) (\<lambda>low.
       bind_r (load_bytes mem 4096 1) (\<lambda>high.
       bind_r (test_basic (rbuf\<lparr>rb_address := mem\<rparr>) c) (\<lambda>(rbuf, basic).
       bind_r (test_rollover (fst (ringbuffer_reset rbuf))) (\<lambda>(rbuf, rollover, lines).
         Inr (Inr (fst (ringbuffer_reset rbuf),
           [print_02X (hd low) @ '' '' @ print_02X (hd high), verdict ''BASIC'' basic] @ lines @
           [verdict ''ROLLOVER'' rollover,
            ''Starting pthread test be prepared for weirdness'']))))))))"

section \<open>What a client of the FIFO sees of whole records\<close>

context byte_fifo begin

lemma put_fits:
  assumes "inv q" "src \<noteq> []" "unat amount = length src" "length (bytes q) + length src \<le> capacity q"
  shows "\<exists>q'. wr q src amount = Inr (q', amount) \<and> inv q' \<and> bytes q' = bytes q @ src \<and>
    capacity q' = capacity q"
proof -
  have "0 < amount" using assms(2,3) by (simp add: word_gt_0_unat)
  with write_law [of q amount src] assms obtain q' n where
    "wr q src amount = Inr (q', n)" "unat n = min (capacity q - length (bytes q)) (unat amount)"
    "bytes q' = bytes q @ take (unat n) src" "capacity q' = capacity q" "inv q'" by auto
  moreover from this assms have "n = amount" by (simp add: word_unat_eq_iff)
  ultimately show ?thesis using assms(3) by auto
qed

lemma get_front:
  assumes "inv q" "src \<noteq> []" "unat amount = length src" "length dest = length src"
    and "bytes q = src @ rest"
  shows "\<exists>q'. rd q dest amount = Inr (q', src, amount) \<and> inv q' \<and> bytes q' = rest \<and>
    capacity q' = capacity q"
proof -
  have "0 < amount" using assms(2,3) by (simp add: word_gt_0_unat)
  with read_law [of q amount dest] assms obtain q' n where
    "rd q dest amount = Inr (q', take (unat n) (bytes q) @ drop (unat n) dest, n)"
    "unat n = min (length (bytes q)) (unat amount)"
    "bytes q' = drop (unat n) (bytes q)" "capacity q' = capacity q" "inv q'" by auto
  moreover from this assms have "n = amount" by (simp add: word_unat_eq_iff)
  ultimately show ?thesis using assms by auto
qed

lemma get_none:
  assumes "inv q" "0 < amount" "unat amount \<le> length dest" "bytes q = []"
  shows "\<exists>q'. rd q dest amount = Inr (q', dest, 0) \<and> inv q' \<and> bytes q' = [] \<and>
    capacity q' = capacity q"
proof -
  from read_law [OF assms(1-3)] obtain q' n where
    "rd q dest amount = Inr (q', take (unat n) (bytes q) @ drop (unat n) dest, n)"
    "unat n = min (length (bytes q)) (unat amount)"
    "bytes q' = drop (unat n) (bytes q)" "capacity q' = capacity q" "inv q'" by auto
  moreover from this assms have "n = 0" by (simp add: word_unat_eq_iff)
  ultimately show ?thesis using assms(4) by auto
qed

end

lemma word_bytes_nonempty [simp]: "word_bytes w \<noteq> []"
  by (simp add: word_bytes_def)

lemma write_loop_fits:
  assumes "rb_inv rbuf" "length (rb_bytes rbuf) + 4 * k \<le> rb_capacity rbuf"
  shows "\<exists>rbuf'. write_loop problem a k i rbuf res lines = Inr (rbuf', res, lines) \<and> rb_inv rbuf' \<and>
    rb_bytes rbuf' = rb_bytes rbuf @ concat (replicate k (word_bytes a)) \<and>
    rb_capacity rbuf' = rb_capacity rbuf"
  using assms
proof (induction k arbitrary: rbuf i)
  case (Suc k)
  from ring.put_fits [of rbuf "word_bytes a" 4] Suc.prems obtain r where r:
    "ringbuffer_write rbuf (word_bytes a) 4 = Inr (r, 4)" "rb_inv r"
    "rb_bytes r = rb_bytes rbuf @ word_bytes a" "rb_capacity r = rb_capacity rbuf" by auto
  have "to_int32 (uint (4 :: size_t)) = 4" by (simp add: INT_MIN_def INT_MAX_def)
  with r Suc.IH [of r "i + 1"] Suc.prems(2) show ?case by simp
qed simp

lemma read_loop_all:
  assumes "rb_inv rbuf" "rb_bytes rbuf = concat (replicate k (word_bytes want))" "k \<le> 1024"
    "i + int k = 1024" "k = 0 \<longrightarrow> c = want"
  shows "\<exists>rbuf'. read_loop want rbuf c i = Inr (rbuf', want, 0, 1024) \<and> rb_inv rbuf' \<and>
    rb_bytes rbuf' = [] \<and> rb_capacity rbuf' = rb_capacity rbuf"
  using assms
proof (induction k arbitrary: rbuf i c)
  case 0
  from ring.get_none [of rbuf 4 "word_bytes c"] 0 obtain r where
    "ringbuffer_read rbuf (word_bytes c) 4 = Inr (r, word_bytes c, 0)" "rb_inv r" "rb_bytes r = []"
    "rb_capacity r = rb_capacity rbuf" by auto
  with 0 show ?case by (subst read_loop.simps) simp
next
  case (Suc k)
  from ring.get_front [of rbuf "word_bytes want" 4 "word_bytes c"] Suc.prems(1,2) obtain r where
    "ringbuffer_read rbuf (word_bytes c) 4 = Inr (r, word_bytes want, 4)" "rb_inv r"
    "rb_bytes r = concat (replicate k (word_bytes want))" "rb_capacity r = rb_capacity rbuf" by auto
  with Suc.IH [of r "i + 1" want] Suc.prems(3,4) show ?case
    by (subst read_loop.simps) simp
qed

lemma length_concat_words [simp]: "length (concat (replicate k (word_bytes w))) = 4 * k"
  by (induction k) simp_all

lemma rollover_pass:
  assumes "rb_inv rbuf" "rb_bytes rbuf = []" "rb_capacity rbuf = 4096"
  shows "\<exists>rbuf'. test_rollover rbuf =
      Inr (rbuf', 0, [''All good before rollover'', ''All good after rollover'']) \<and>
    rb_inv rbuf' \<and> rb_bytes rbuf' = [] \<and> rb_capacity rbuf' = 4096"
proof -
  from write_loop_fits [of rbuf 1024 "''We have an early problem: count = ''" 1 0 0 "[]"] assms
  obtain r1 where r1: "write_loop ''We have an early problem: count = '' 1 1024 0 rbuf 0 [] = Inr (r1, 0, [])"
    "rb_inv r1" "rb_bytes r1 = concat (replicate 1024 (word_bytes 1))" "rb_capacity r1 = 4096" by auto
  from read_loop_all [of r1 1024 1 0 1] r1
  obtain r2 where r2: "read_loop 1 r1 1 0 = Inr (r2, 1, 0, 1024)" "rb_inv r2" "rb_bytes r2 = []"
    "rb_capacity r2 = 4096" by auto
  let ?l = "[''All good before rollover'']"
  from write_loop_fits [of r2 1024 "''We have a post-rollover problem: count = ''" 2 0 0 ?l] r2
  obtain r3 where r3: "write_loop ''We have a post-rollover problem: count = '' 2 1024 0 r2 0 ?l = Inr (r3, 0, ?l)"
    "rb_inv r3" "rb_bytes r3 = concat (replicate 1024 (word_bytes 2))" "rb_capacity r3 = 4096" by auto
  from read_loop_all [of r3 1024 2 0 1] r3
  obtain r4 where "read_loop 2 r3 1 0 = Inr (r4, 2, 0, 1024)" "rb_inv r4" "rb_bytes r4 = []"
    "rb_capacity r4 = 4096" by auto
  with r1(1) r2(1) r3(1) show ?thesis
    by (simp add: test_rollover_def Let_def del: write_loop.simps)
qed

lemma basic_pass:
  assumes "rb_inv rbuf" "rb_bytes rbuf = []" "8 \<le> rb_capacity rbuf"
  shows "\<exists>rbuf'. test_basic rbuf c = Inr (rbuf', 0) \<and> rb_inv rbuf' \<and> rb_bytes rbuf' = [] \<and>
    rb_capacity rbuf' = rb_capacity rbuf"
proof -
  from ring.put_fits [of rbuf "word_bytes 1" 4] assms obtain r1 where r1:
    "ringbuffer_write rbuf (word_bytes 1) 4 = Inr (r1, 4)" "rb_inv r1" "rb_bytes r1 = word_bytes 1"
    "rb_capacity r1 = rb_capacity rbuf" by auto
  from ring.put_fits [of r1 "word_bytes 2" 4] r1 assms(3) obtain r2 where r2:
    "ringbuffer_write r1 (word_bytes 2) 4 = Inr (r2, 4)" "rb_inv r2"
    "rb_bytes r2 = word_bytes 1 @ word_bytes 2" "rb_capacity r2 = rb_capacity rbuf" by auto
  from ring.get_front [of r2 "word_bytes 1" 4 "word_bytes c"] r2 obtain r3 where r3:
    "ringbuffer_read r2 (word_bytes c) 4 = Inr (r3, word_bytes 1, 4)" "rb_inv r3"
    "rb_bytes r3 = word_bytes 2 @ []" "rb_capacity r3 = rb_capacity rbuf" by auto
  from ring.get_front [of r3 "word_bytes 2" 4 "word_bytes 1" "[]"] r3 obtain r4 where r4:
    "ringbuffer_read r3 (word_bytes 1) 4 = Inr (r4, word_bytes 2, 4)" "rb_inv r4"
    "rb_bytes r4 = []" "rb_capacity r4 = rb_capacity rbuf" by auto
  from ring.get_none [of r4 4 "word_bytes 2"] r4 obtain r5 where
    "ringbuffer_read r4 (word_bytes 2) 4 = Inr (r5, word_bytes 2, 0)" "rb_inv r5" "rb_bytes r5 = []"
    "rb_capacity r5 = rb_capacity rbuf" by auto
  with r1(1) r2(1) r3(1) r4(1) show ?thesis
    by (simp add: test_basic_def Let_def)
qed

section \<open>Properties\<close>

text \<open>
  C24: whenever \<open>ringbuffer_init\<close> succeeds (a failing system call sets \<open>errno\<close>), both tests pass, whatever the uninitialised
  variables hold: the program prints that the byte stored in the first page is seen in
  the second, that the two tests succeed, and goes on with an empty ring whose indices
  are 0. When \<open>ringbuffer_init\<close> fails, it stops with status 1.
\<close>

theorem ring_tests_pass:
  assumes "ringbuffer_init os rbuf 4096 = Inr (rc, ring, calls)" and "errno_set os"
  shows "if rc \<noteq> 0 then ring_tests os rbuf c = Inr (Inl 1)
    else \<exists>ring'. ring_tests os rbuf c = Inr (Inr (ring',
        [''5A 5A'', ''BASIC: SUCCESS'', ''All good before rollover'', ''All good after rollover'',
         ''ROLLOVER: SUCCESS'', ''Starting pthread test be prepared for weirdness''])) \<and>
      rb_inv ring' \<and> rb_bytes ring' = [] \<and> rb_ridx ring' = 0 \<and> rb_capacity ring' = 4096"
proof (cases "rc = 0")
  case False
  then show ?thesis using assms(1) by (simp add: ring_tests_def)
next
  case True
  have init: "ringbuffer_init os rbuf 4096 = Inr (0, ring, calls)" using True assms(1) by simp
  have ring: "rb_address ring = Mirrored (replicate 4096 0)" "rb_size ring = 4096"
    "rb_ridx ring = 0" "rb_widx ring = 0"
    using ringbuffer_init_success [OF ringbuffer_init_checks [OF init] _ _ assms(2) init] by simp_all
  let ?m = "Mirrored (0x5A # replicate 4095 0)" and ?r = "ring\<lparr>rb_address := Mirrored (0x5A # replicate 4095 0)\<rparr>"
  have st: "store_bytes (rb_address ring) 0 [0x5A] = Inr ?m"
    by (simp add: ring store_bytes_def) (simp add: numeral_eq_Suc)
  have ld: "load_bytes ?m 0 1 = Inr [0x5A]" "load_bytes ?m 4096 1 = Inr [0x5A]"
    by (simp_all add: load_bytes_def)
  have inv: "rb_inv ?r" "rb_bytes ?r = []" "rb_capacity ?r = 4096"
    by (simp_all add: ring rb_inv_def rb_bytes_def rb_capacity_def)
  from basic_pass [OF inv(1,2), of c] inv(3) obtain r1 where r1: "test_basic ?r c = Inr (r1, 0)"
    "rb_inv r1" "rb_capacity r1 = 4096" by auto
  let ?r1 = "fst (ringbuffer_reset r1)"
  have cap: "rb_capacity (fst (ringbuffer_reset r)) = rb_capacity r"
    "rb_ridx (fst (ringbuffer_reset r)) = 0" for r
    by (simp_all add: ringbuffer_reset_def rb_capacity_def)
  from ringbuffer_reset_spec [OF r1(2)] rollover_pass [of ?r1] cap(1) [of r1] r1(3) obtain r2 where
    r2: "test_rollover ?r1 = Inr (r2, 0, [''All good before rollover'', ''All good after rollover''])"
    "rb_inv r2" "rb_capacity r2 = 4096" by auto
  have "print_02X 0x5A = ''5A''" by code_simp
  then show ?thesis
    using True assms(1) st ld r1(1) r2 ringbuffer_reset_spec [OF r2(2)] cap
    by (simp add: ring_tests_def verdict_def)
qed

theorem ring_tests_pass_witness:
  "\<exists>rc ring calls. ringbuffer_init good_os (fresh_ring 1) 4096 = Inr (rc, ring, calls) \<and>
    (if rc \<noteq> 0 then ring_tests good_os (fresh_ring 1) 7 = Inr (Inl 1)
     else \<exists>ring'. ring_tests good_os (fresh_ring 1) 7 = Inr (Inr (ring',
        [''5A 5A'', ''BASIC: SUCCESS'', ''All good before rollover'', ''All good after rollover'',
         ''ROLLOVER: SUCCESS'', ''Starting pthread test be prepared for weirdness''])) \<and>
      rb_inv ring' \<and> rb_bytes ring' = [] \<and> rb_ridx ring' = 0 \<and> rb_capacity ring' = 4096)"
proof -
  have "\<exists>rc ring calls. ringbuffer_init good_os (fresh_ring 1) 4096 = Inr (rc, ring, calls)"
    by (subst ringbuffer_init_value) (simp_all add: good_os_def)
  then obtain rc ring calls where r: "ringbuffer_init good_os (fresh_ring 1) 4096 = Inr (rc, ring, calls)"
    by blast
  from ring_tests_pass [OF r, of 7] r show ?thesis by (simp add: good_os_def errno_set_def)
qed

end
