(* ===== verification/Ring_Test_Threads.thy ===== *)
theory Ring_Test_Threads
  imports Ring_Threads Ring_Test
begin

text \<open>
  The test of \<open>test_ringbuffer.c\<close> with two threads: \<open>test_pthread1\<close> sets the thread
  attributes up, starts a reader and a writer on one ring and joins them. The threads run
  the steps of \<open>Ring_Threads\<close> inside \<open>ringbuffer_write\<close> and \<open>ringbuffer_read\<close>, in any
  order. The property is that in paced runs the reader prints no complaint and gets every
  record; an unpaced run may fail, as \<open>Ring_Threads\<close> shows.
\<close>

section \<open>The set-up of test\_pthread1\<close>

text \<open>
  What the calls on the attributes return; \<open>policy0\<close> is what the uninitialised \<open>i\<close> holds.
\<close>

record rt_attr =
  at_init :: int
  at_setsched :: int
  at_getsched :: int
  at_policy :: int
  at_policy0 :: int

text \<open>
  The messages of \<open>perror\<close> (the error number and the text), then the policy that is
  printed, or the exit of \<open>handle_error_en\<close>. The stack size is 0 and the affinity is never
  set, so those branches are dead. The two \<open>handle_warning_en\<close> are guarded by
  \<open>!(s = ...)\<close>: they are reached when the call succeeds.
\<close>

definition rt_policy :: "int \<Rightarrow> string" where
  "rt_policy i =
     (if i = SCHED_OTHER then ''SCHED_OTHER''
      else if i = SCHED_FIFO then ''SCHED_FIFO''
      else if i = SCHED_RR then ''SCHED_RR''
      else ''???'')"

definition rt_setup :: "rt_attr \<Rightarrow> (int \<times> string) + (int \<times> string) list \<times> string" where
  "rt_setup at =
     (if at_init at \<noteq> 0 then Inl (at_init at, ''pthread_attr_init'')
      else
        let w1 = (if at_setsched at = 0 then [(at_setsched at, ''pthread_attr_setschedpolicy'')] else []);
            w2 = (if at_getsched at = 0 then [(at_getsched at, ''pthread_attr_getschedpolicy'')] else []);
            i = (if at_getsched at = 0 then at_policy at else at_policy0 at)
        in Inr (w1 @ w2, ''Scheduling policy   = '' @ rt_policy i))"

section \<open>The records\<close>

definition TEST_LOOPS :: nat where "TEST_LOOPS = 262144"

text \<open>\<open>struct acks\<close> in memory: \<open>timestamp\<close> (never set), \<open>seqnum\<close>, \<open>flags\<close>.\<close>

definition ack_bytes :: "u32 \<Rightarrow> u32 \<Rightarrow> u8 list" where
  "ack_bytes seqnum flags = replicate 8 0 @ word_bytes seqnum @ word_bytes flags"

definition ack_seqnum :: "u8 list \<Rightarrow> u32" where
  "ack_seqnum bs = bytes_word (drop 8 bs)"

definition ack_flags :: "u8 list \<Rightarrow> u32" where
  "ack_flags bs = bytes_word (drop 12 bs)"

text \<open>What \<open>thread_writer\<close> stores in \<open>test_data_struct[i]\<close>.\<close>

definition test_record :: "nat \<Rightarrow> u8 list" where
  "test_record i = ack_bytes (of_nat i) (if i < TEST_LOOPS - 1 then 0 else 1)"

section \<open>The threads\<close>

datatype rt_writer = W_new | W_ready | W_at nat | W_done
datatype rt_reader = R_new | R_ready | R_reading | R_done
datatype rt_main = M_reader | M_writer | M_attr | M_join nat | M_ret int | M_exit int

datatype rt_line =
    Starting nat
  | Joined_thread nat
  | Reader_started
  | Writer_started
  | Done_writing_records
  | Done_writing_last
  | Done_reading_all
  | Missing int u32
  | Truncated

definition rt_text :: "rt_line \<Rightarrow> string" where
  "rt_text l =
     (case l of
        Starting n \<Rightarrow> ''Starting thread '' @ print_int (int n)
      | Joined_thread n \<Rightarrow> ''Joined with thread '' @ print_int (int n) @ ''; returned value was SUCCESS''
      | Reader_started \<Rightarrow> ''Reader started''
      | Writer_started \<Rightarrow> ''Writer started''
      | Done_writing_records \<Rightarrow> ''Done writing i!''
      | Done_writing_last \<Rightarrow> ''Done writing!''
      | Done_reading_all \<Rightarrow> ''Done reading!''
      | Missing n w \<Rightarrow> ''missing seqno expect '' @ print_int n @ '' got '' @ print_int (sint w)
      | Truncated \<Rightarrow> ''TRUNCATED READ'')"

text \<open>
  \<open>r_dest\<close> is \<open>a\<close>, \<open>r_count\<close> is \<open>count\<close>, \<open>r_seqnums\<close> is \<open>seqnums\<close> of \<open>thread_reader\<close>;
  \<open>W_at i\<close> is \<open>thread_writer\<close> with its counter at \<open>i\<close>.
\<close>

record ring_test =
  shr :: threads
  wst :: rt_writer
  rst :: rt_reader
  r_dest :: "u8 list"
  r_count :: nat
  r_seqnums :: int
  mst :: rt_main
  rt_lines :: "rt_line list"

text \<open>The answers of \<open>pthread_create\<close>, \<open>pthread_attr_destroy\<close> and \<open>pthread_join\<close>.\<close>

record rt_env =
  rt_create :: "nat \<Rightarrow> int"
  rt_destroy :: int
  rt_join :: "nat \<Rightarrow> int"

subsection \<open>thread\_writer\<close>

text \<open>What follows a call of \<open>ringbuffer_write\<close> that has returned \<open>count\<close>.\<close>

definition after_write :: "nat \<Rightarrow> nat \<Rightarrow> ring_test \<Rightarrow> ring_test" where
  "after_write i count s =
     (if i < TEST_LOOPS - 1
      then (if count \<noteq> 16 then s
            else s\<lparr>wst := W_at (Suc i),
                   rt_lines := rt_lines s @ (if Suc i < TEST_LOOPS - 1 then [] else [Done_writing_records])\<rparr>)
      else if count = 0 then s
      else s\<lparr>wst := W_done, rt_lines := rt_lines s @ [Done_writing_last]\<rparr>)"

definition rt_writer_step :: "ring_test \<Rightarrow> action \<Rightarrow> ring_test option" where
  "rt_writer_step s a =
     (case wst s of
        W_at i \<Rightarrow>
          if (case a of WCall src amount \<Rightarrow> src \<noteq> test_record i \<or> amount \<noteq> 16 | _ \<Rightarrow> False) then None
          else
            (case writer_step (shr s) a of
               None \<Rightarrow> None
             | Some t \<Rightarrow>
                 (case wpc (shr s) of
                    WStored bs \<Rightarrow> Some (after_write i (length bs) (s\<lparr>shr := t\<rparr>))
                  | WGotW _ _ _ \<Rightarrow>
                      Some (if wpc t = WIdle then after_write i 0 (s\<lparr>shr := t\<rparr>) else s\<lparr>shr := t\<rparr>)
                  | _ \<Rightarrow> Some (s\<lparr>shr := t\<rparr>)))
      | _ \<Rightarrow> None)"

subsection \<open>thread\_reader\<close>

text \<open>What follows a call of \<open>ringbuffer_read\<close> that has returned a positive \<open>r_count\<close>.\<close>

definition after_read :: "ring_test \<Rightarrow> ring_test" where
  "after_read s =
     (if r_count s \<noteq> 16 then s\<lparr>mst := M_exit (-1), rt_lines := rt_lines s @ [Truncated]\<rparr>
      else if ack_flags (r_dest s) = 1
      then s\<lparr>rst := R_done, rt_lines := rt_lines s @ [Done_reading_all]\<rparr>
      else s\<lparr>rt_lines := rt_lines s @
               (if ack_seqnum (r_dest s) \<noteq> word_of_int (r_seqnums s)
                then [Missing (r_seqnums s) (ack_seqnum (r_dest s))] else []),
             r_seqnums := r_seqnums s + 1\<rparr>)"

definition rt_reader_step :: "ring_test \<Rightarrow> action \<Rightarrow> ring_test option" where
  "rt_reader_step s a =
     (if rst s \<noteq> R_reading \<or> (case a of RCall amount \<Rightarrow> amount \<noteq> 16 | _ \<Rightarrow> False) then None
      else
        (case reader_step (shr s) a of
           None \<Rightarrow> None
         | Some t \<Rightarrow>
             (case rpc t of
                RTaken bs \<Rightarrow> Some (s\<lparr>shr := t, r_dest := bs @ drop (length bs) (r_dest s), r_count := length bs\<rparr>)
              | RIdle \<Rightarrow> Some (if a = RAdv \<or> a = RSub then after_read (s\<lparr>shr := t\<rparr>) else s\<lparr>shr := t\<rparr>)
              | _ \<Rightarrow> Some (s\<lparr>shr := t\<rparr>))))"

subsection \<open>test\_pthread1\<close>

definition rt_main_step :: "rt_env \<Rightarrow> ring_test \<Rightarrow> ring_test" where
  "rt_main_step env s =
     (case mst s of
        M_reader \<Rightarrow>
          let s = s\<lparr>rt_lines := rt_lines s @ [Starting 1]\<rparr>
          in if rt_create env 0 \<noteq> 0 then s\<lparr>mst := M_exit 1\<rparr> else s\<lparr>rst := R_ready, mst := M_writer\<rparr>
      | M_writer \<Rightarrow>
          let s = s\<lparr>rt_lines := rt_lines s @ [Starting 2]\<rparr>
          in if rt_create env 1 \<noteq> 0 then s\<lparr>mst := M_exit 1\<rparr> else s\<lparr>wst := W_ready, mst := M_attr\<rparr>
      | M_attr \<Rightarrow> if rt_destroy env \<noteq> 0 then s\<lparr>mst := M_exit 1\<rparr> else s\<lparr>mst := M_join 0\<rparr>
      | M_join t \<Rightarrow>
          if t < 2
          then if rt_join env t \<noteq> 0 then s\<lparr>mst := M_exit 1\<rparr>
               else if (if t = 0 then rst s = R_done else wst s = W_done)
               then s\<lparr>mst := M_join (Suc t), rt_lines := rt_lines s @ [Joined_thread (Suc t)]\<rparr>
               else s
          else s\<lparr>mst := M_ret 0\<rparr>
      | _ \<Rightarrow> s)"

section \<open>Runs\<close>

text \<open>\<open>Move\<close>: a step inside the ring; the other steps are those of \<open>main\<close> and the first ones of the threads.\<close>

datatype rt_action = Main_moves | Reader_begins | Writer_begins | Move action

definition rt_step :: "rt_env \<Rightarrow> ring_test \<Rightarrow> rt_action \<Rightarrow> ring_test option" where
  "rt_step env s a =
     (if faulted (shr s) \<noteq> None \<or> (case mst s of M_exit _ \<Rightarrow> True | M_ret _ \<Rightarrow> True | _ \<Rightarrow> False) then None
      else case a of
        Main_moves \<Rightarrow> Some (rt_main_step env s)
      | Reader_begins \<Rightarrow>
          if rst s = R_ready
          then Some (s\<lparr>rst := R_reading, rt_lines := rt_lines s @ [Reader_started]\<rparr>) else None
      | Writer_begins \<Rightarrow>
          if wst s = W_ready
          then Some (s\<lparr>wst := W_at 0, rt_lines := rt_lines s @ [Writer_started]\<rparr>) else None
      | Move b \<Rightarrow> (case rt_writer_step s b of Some t \<Rightarrow> Some t | None \<Rightarrow> rt_reader_step s b))"

fun rt_run :: "rt_env \<Rightarrow> ring_test \<Rightarrow> rt_action list \<Rightarrow> ring_test option" where
  "rt_run env s [] = Some s"
| "rt_run env s (a # as) = (case rt_step env s a of None \<Rightarrow> None | Some t \<Rightarrow> rt_run env t as)"

text \<open>\<open>dest\<close> is what the uninitialised \<open>a\<close> of the reader holds.\<close>

definition rt_start :: "ringbuffer_s \<Rightarrow> u8 list \<Rightarrow> ring_test" where
  "rt_start rbuf dest =
     \<lparr>shr = threads_init rbuf, wst = W_new, rst = R_new, r_dest = dest, r_count = 0, r_seqnums = 0,
      mst = M_reader, rt_lines = []\<rparr>"

text \<open>The interleavings in which the writer loads the indices only while no wrap is in progress.\<close>

fun rt_paced :: "rt_env \<Rightarrow> ring_test \<Rightarrow> rt_action list \<Rightarrow> bool" where
  "rt_paced env s [] = True"
| "rt_paced env s (a # as) =
     ((case a of Move b \<Rightarrow> paced_step (shr s) b | _ \<Rightarrow> True) \<and>
      (case rt_step env s a of None \<Rightarrow> True | Some t \<Rightarrow> rt_paced env t as))"

section \<open>Records\<close>

lemma length_test_record [simp]: "length (test_record i) = 16"
  by (simp add: test_record_def ack_bytes_def)

lemma ack_fields:
  "ack_seqnum (test_record i @ rest) = of_nat i"
  "ack_flags (test_record i @ rest) = (if i < TEST_LOOPS - 1 then 0 else 1)"
  by (simp_all add: ack_seqnum_def ack_flags_def test_record_def ack_bytes_def)

lemma length_records [simp]: "length (concat (map test_record xs)) = 16 * length xs"
  by (induction xs) simp_all

text \<open>The record at a multiple of 16.\<close>

lemma record_at:
  assumes "k < n"
  shows "take 16 (drop (16 * k) (concat (map test_record [0..<n]))) = test_record k"
proof -
  have "[0..<n] = [0..<k] @ k # [Suc k..<n]"
    using assms by (metis less_imp_le_nat upt_conv_Cons upt_add_eq_append add_0 le_add_diff_inverse le0)
  then show ?thesis by simp
qed

section \<open>The invariant of paced runs\<close>

definition sent_records :: "ring_test \<Rightarrow> nat" where
  "sent_records s = (case wst s of W_at i \<Rightarrow> i | W_done \<Rightarrow> TEST_LOOPS | _ \<Rightarrow> 0)"

definition rt_writer_inv :: "ring_test \<Rightarrow> bool" where
  "rt_writer_inv s \<longleftrightarrow>
     sent (shr s) = concat (map test_record [0..<sent_records s]) \<and>
     (case wst s of
        W_at i \<Rightarrow> i < TEST_LOOPS \<and>
          (case wpc (shr s) of
             WIdle \<Rightarrow> True
           | WCalled src amount \<Rightarrow> src = test_record i \<and> amount = 16
           | WGotW src amount _ \<Rightarrow> src = test_record i \<and> amount = 16
           | WRoom src len \<Rightarrow> src = test_record i \<and> len = 16
           | WStored bs \<Rightarrow> bs = test_record i)
      | _ \<Rightarrow> wpc (shr s) = WIdle)"

definition rt_reader_inv :: "ring_test \<Rightarrow> bool" where
  "rt_reader_inv s \<longleftrightarrow>
     (\<exists>k. r_seqnums s = int k \<and>
       (case rst s of
          R_reading \<Rightarrow> k < TEST_LOOPS \<and>
            (case rpc (shr s) of
               RIdle \<Rightarrow> length (got (shr s)) = 16 * k
             | RRoom len \<Rightarrow> len = 16 \<and> length (got (shr s)) = 16 * k
             | RTaken bs \<Rightarrow> length (got (shr s)) = 16 * k \<and> r_count s = 16 \<and>
                 bs = test_record k \<and> (\<exists>rest. r_dest s = bs @ rest)
             | _ \<Rightarrow> length (got (shr s)) = 16 * Suc k \<and> r_count s = 16 \<and>
                 (\<exists>rest. r_dest s = test_record k @ rest))
        | R_done \<Rightarrow> rpc (shr s) = RIdle \<and> k = TEST_LOOPS - 1 \<and> length (got (shr s)) = 16 * TEST_LOOPS
        | _ \<Rightarrow> rpc (shr s) = RIdle \<and> k = 0 \<and> got (shr s) = []))"

definition rt_quiet :: "ring_test \<Rightarrow> bool" where
  "rt_quiet s \<longleftrightarrow> Truncated \<notin> set (rt_lines s) \<and> (\<forall>n w. Missing n w \<notin> set (rt_lines s)) \<and>
     mst s \<noteq> M_exit (-1)"

definition rt_inv :: "ring_test \<Rightarrow> bool" where
  "rt_inv s \<longleftrightarrow> threads_inv 4096 (shr s) \<and> rt_writer_inv s \<and> rt_reader_inv s \<and> rt_quiet s"

lemma writer_step_frame:
  "writer_step s a = Some t \<Longrightarrow> got t = got s \<and> rpc t = rpc s"
  by (cases a) (auto simp: Let_def split: writer_pc.splits if_splits sum.splits)

lemma reader_step_frame:
  "reader_step s a = Some t \<Longrightarrow> sent t = sent s \<and> wpc t = wpc s"
  by (cases a) (auto simp: Let_def split: reader_pc.splits if_splits sum.splits prod.splits)

lemma used_bytes:
  assumes "threads_inv n s" "\<not> wrapping s"
  shows "unat (rb_widx (ring s) - rb_ridx (ring s)) = length (sent s) - length (got s)"
  using same_base [of n s] assms by (simp add: threads_inv_def unat_sub_le)

text \<open>Room and contents are whole records, so no record is split.\<close>

lemma room_whole:
  assumes "threads_inv 4096 s" "\<not> wrapping s" "16 dvd length (sent s)" "16 dvd length (got s)"
  shows "min_size_t (rb_size (ring s) - (rb_widx (ring s) - rb_ridx (ring s))) 16 = 0 \<or>
    min_size_t (rb_size (ring s) - (rb_widx (ring s) - rb_ridx (ring s))) 16 = 16"
proof -
  let ?room = "rb_size (ring s) - (rb_widx (ring s) - rb_ridx (ring s))"
  have le: "length (sent s) \<le> length (got s) + 4096" "length (got s) \<le> length (sent s)"
    "unat (rb_size (ring s)) = 4096"
    using assms(1) by (auto simp: threads_inv_def indices_ok_def)
  then have "unat ?room = 4096 - (length (sent s) - length (got s))"
    using used_bytes [OF assms(1,2)] by (simp add: unat_sub_le)
  then have "16 dvd unat ?room" using assms(3,4) by (simp add: dvd_diff_nat)
  then have "min (unat ?room) 16 = 0 \<or> min (unat ?room) 16 = 16"
    by (cases "unat ?room = 0") (auto dest: dvd_imp_le simp: min_def)
  then show ?thesis unfolding word_unat_eq_iff unat_min_size_t by simp
qed

lemma used_whole:
  assumes "threads_inv 4096 s" "\<not> wrapping s" "16 dvd length (sent s)" "16 dvd length (got s)"
    and "rb_widx (ring s) - rb_ridx (ring s) > 0"
  shows "min_size_t (rb_widx (ring s) - rb_ridx (ring s)) 16 = 16"
proof -
  let ?used = "rb_widx (ring s) - rb_ridx (ring s)"
  have "16 dvd unat ?used"
    using used_bytes [OF assms(1,2)] assms(3,4) by (simp add: dvd_diff_nat)
  moreover have "0 < unat ?used" using assms(5) by (simp add: word_gt_0_unat)
  ultimately have "16 \<le> unat ?used" by (rule dvd_imp_le)
  then show ?thesis unfolding word_unat_eq_iff unat_min_size_t by simp
qed

section \<open>The steps of the writer\<close>

lemma rt_inv_sent: "rt_inv s \<Longrightarrow> 16 dvd length (sent (shr s))"
  by (simp add: rt_inv_def rt_writer_inv_def)

lemma rt_inv_got: "rt_inv s \<Longrightarrow> 16 dvd length (got (shr s))"
  by (cases "rst s"; cases "rpc (shr s)") (auto simp: rt_inv_def rt_reader_inv_def)

lemma after_write_frame [simp]:
  "rst (after_write i n s) = rst s" "r_seqnums (after_write i n s) = r_seqnums s"
  "r_count (after_write i n s) = r_count s" "r_dest (after_write i n s) = r_dest s"
  "mst (after_write i n s) = mst s" "shr (after_write i n s) = shr s"
  "Truncated \<in> set (rt_lines (after_write i n s)) \<longleftrightarrow> Truncated \<in> set (rt_lines s)"
  "Missing m w \<in> set (rt_lines (after_write i n s)) \<longleftrightarrow> Missing m w \<in> set (rt_lines s)"
  by (auto simp: after_write_def)

lemma rt_reader_frame:
  assumes "rt_reader_inv s" "rst t = rst s" "r_seqnums t = r_seqnums s" "r_count t = r_count s"
    and "r_dest t = r_dest s" "rpc (shr t) = rpc (shr s)" "got (shr t) = got (shr s)"
  shows "rt_reader_inv t"
  using assms(1) unfolding rt_reader_inv_def assms(2-) .

lemma rt_writer_frame:
  assumes "rt_writer_inv s" "wst t = wst s" "sent (shr t) = sent (shr s)" "wpc (shr t) = wpc (shr s)"
  shows "rt_writer_inv t"
  using assms(1) unfolding rt_writer_inv_def sent_records_def assms(2-) .

lemma rt_writer_step_inv:
  assumes inv: "rt_inv s" and paced: "paced_step (shr s) a" and nf: "faulted (shr s) = None"
    and step: "rt_writer_step s a = Some t"
  shows "rt_inv t"
proof -
  from step obtain i u where i: "wst s = W_at i" and u: "writer_step (shr s) a = Some u"
    and call: "\<And>src amount. a = WCall src amount \<Longrightarrow> src = test_record i \<and> amount = 16"
    and t: "t = (case wpc (shr s) of
        WStored bs \<Rightarrow> after_write i (length bs) (s\<lparr>shr := u\<rparr>)
      | WGotW _ _ _ \<Rightarrow> if wpc u = WIdle then after_write i 0 (s\<lparr>shr := u\<rparr>) else s\<lparr>shr := u\<rparr>
      | _ \<Rightarrow> s\<lparr>shr := u\<rparr>)"
    by (auto simp: rt_writer_step_def split: rt_writer.splits if_splits option.splits writer_pc.splits action.splits)
  have shr: "shr t = u" by (simp add: t split: writer_pc.split)
  have th: "threads_inv 4096 (shr s)" and w: "rt_writer_inv s" and r: "rt_reader_inv s" and q: "rt_quiet s"
    using inv by (simp_all add: rt_inv_def)
  have thu: "threads_inv 4096 u"
    by (rule thread_step_inv [OF th paced]) (simp add: thread_step_def nf u)
  have "rt_reader_inv t"
    by (rule rt_reader_frame [OF r]) (use writer_step_frame [OF u] in \<open>simp_all add: t split: writer_pc.split\<close>)
  moreover have "rt_quiet t"
    using q by (simp add: rt_quiet_def t split: writer_pc.split)
  moreover have "rt_writer_inv t"
  proof (cases a)
    case (WCall src amount)
    with u have "wpc (shr s) = WIdle" "u = (shr s)\<lparr>wpc := WCalled src amount\<rparr>"
      by (auto split: if_splits)
    then show ?thesis using w i call [OF WCall] by (simp add: rt_writer_inv_def sent_records_def t)
  next
    case WLoadW
    with u obtain src amount where "wpc (shr s) = WCalled src amount"
      "u = (shr s)\<lparr>wpc := WGotW src amount (rb_widx (ring (shr s)))\<rparr>"
      by (auto split: writer_pc.splits)
    then show ?thesis using w i by (simp add: rt_writer_inv_def sent_records_def t)
  next
    case WLoadR
    with u obtain src amount widx where pc: "wpc (shr s) = WGotW src amount widx"
      by (auto split: writer_pc.splits)
    have wr: "widx = rb_widx (ring (shr s))" "\<not> wrapping (shr s)"
      using th pc by (simp_all add: threads_inv_def writer_ok_def)
    let ?len = "min_size_t (rb_size (ring (shr s)) - (rb_widx (ring (shr s)) - rb_ridx (ring (shr s)))) 16"
    have am: "amount = 16" "src = test_record i" using w i pc by (simp_all add: rt_writer_inv_def)
    have "writer_step (shr s) WLoadR = Some ((shr s)\<lparr>wpc := (if ?len > 0 then WRoom src ?len else WIdle)\<rparr>)"
      by (simp add: pc wr(1) am(1) Let_def)
    then have u': "u = (shr s)\<lparr>wpc := (if ?len > 0 then WRoom src ?len else WIdle)\<rparr>"
      using u unfolding WLoadR by simp
    from room_whole [OF th wr(2) rt_inv_sent [OF inv] rt_inv_got [OF inv]] show ?thesis
      using w i pc am unfolding t u'
      by (elim disjE) (simp_all add: rt_writer_inv_def sent_records_def after_write_def)
  next
    case WCopy
    with u obtain src len where pc: "wpc (shr s) = WRoom src len"
      by (auto split: writer_pc.splits)
    with w i have "len = 16" "src = test_record i" by (simp_all add: rt_writer_inv_def)
    moreover have "faulted u = None" using thu by (simp add: threads_inv_def)
    ultimately have "wpc u = WStored (test_record i)" "sent u = sent (shr s)"
      using u pc WCopy by (auto split: sum.splits)
    then show ?thesis using w i pc by (simp add: rt_writer_inv_def sent_records_def t)
  next
    case WAdd
    with u obtain bs where pc: "wpc (shr s) = WStored bs" and
      u': "u = (shr s)\<lparr>ring := (ring (shr s))\<lparr>rb_widx := rb_widx (ring (shr s)) + of_nat (length bs)\<rparr>,
        wpc := WIdle, sent := sent (shr s) @ bs\<rparr>"
      by (auto split: writer_pc.splits)
    have "i < TEST_LOOPS" "bs = test_record i" "sent (shr s) = concat (map test_record [0..<i])"
      using w i pc by (simp_all add: rt_writer_inv_def sent_records_def)
    then have sent: "sent u = concat (map test_record [0..<Suc i])" "wpc u = WIdle" "length bs = 16"
      and i': "i < TEST_LOOPS" by (simp_all add: u')
    have t': "t = after_write i 16 (s\<lparr>shr := u\<rparr>)" using pc sent by (simp add: t)
    show ?thesis
    proof (cases "i < TEST_LOOPS - 1")
      case True
      then have "wst t = W_at (Suc i)" "Suc i < TEST_LOOPS" by (simp_all add: t' after_write_def)
      then show ?thesis using sent shr by (simp add: rt_writer_inv_def sent_records_def del: upt_Suc)
    next
      case False
      then have "wst t = W_done" "Suc i = TEST_LOOPS" using i' by (simp_all add: t' after_write_def)
      then show ?thesis using sent shr by (simp add: rt_writer_inv_def sent_records_def del: upt_Suc)
    qed
  qed (use u in simp_all)
  ultimately show ?thesis using thu by (simp add: rt_inv_def shr)
qed

section \<open>The steps of the reader\<close>

text \<open>What the reader has taken is a prefix of the records; the next one is record \<open>k\<close>.\<close>

lemma sent_is_records:
  assumes "rt_writer_inv s"
  obtains n where "n \<le> TEST_LOOPS" "sent (shr s) = concat (map test_record [0..<n])"
proof
  show "sent_records s \<le> TEST_LOOPS"
    using assms by (cases "wst s") (simp_all add: rt_writer_inv_def sent_records_def)
  show "sent (shr s) = concat (map test_record [0..<sent_records s])"
    using assms by (simp add: rt_writer_inv_def)
qed

lemma next_record:
  assumes "rt_writer_inv s" "length (got (shr s)) = 16 * k" "length bs = 16"
    and "16 * k + 16 \<le> length (sent (shr s))"
    and "bs = take (length bs) (drop (length (got (shr s))) (sent (shr s)))"
  shows "bs = test_record k"
proof -
  obtain n where n: "sent (shr s) = concat (map test_record [0..<n])"
    using assms(1) by (rule sent_is_records)
  with assms(4) have "k < n" by simp
  with record_at [OF this] assms(2,3,5) n show ?thesis by simp
qed

lemma after_read_inv:
  assumes "rst s = R_reading" "r_count s = 16" "r_seqnums s = int k"
    and "r_dest s = test_record k @ rest" "length (got (shr s)) = 16 * Suc k" "k < TEST_LOOPS"
    and "rpc (shr s) = RIdle" "rt_quiet s" "length (sent (shr s)) \<le> 16 * TEST_LOOPS"
    and "length (got (shr s)) \<le> length (sent (shr s))"
  shows "rt_reader_inv (after_read s) \<and> rt_quiet (after_read s) \<and> wst (after_read s) = wst s \<and>
    shr (after_read s) = shr s"
proof -
  have f: "ack_flags (r_dest s) = (if k < TEST_LOOPS - 1 then 0 else 1)"
    "ack_seqnum (r_dest s) = word_of_int (r_seqnums s)"
    using assms(3,4) by (simp_all add: ack_fields)
  show ?thesis
  proof (cases "k < TEST_LOOPS - 1")
    case True
    then have "after_read s = s\<lparr>rt_lines := rt_lines s, r_seqnums := int (Suc k)\<rparr>"
      using f assms(2,3) by (simp add: after_read_def)
    then show ?thesis
      using assms True by (auto simp: rt_reader_inv_def rt_quiet_def intro!: exI [of _ "Suc k"])
  next
    case False
    then have "k = TEST_LOOPS - 1" using assms(6) by simp
    moreover have "after_read s = s\<lparr>rst := R_done, rt_lines := rt_lines s @ [Done_reading_all]\<rparr>"
      using f assms(2,3) False by (simp add: after_read_def)
    ultimately show ?thesis
      using assms by (auto simp: rt_reader_inv_def rt_quiet_def TEST_LOOPS_def)
  qed
qed

lemma rt_reader_step_inv:
  assumes inv: "rt_inv s" and paced: "paced_step (shr s) a" and nf: "faulted (shr s) = None"
    and step: "rt_reader_step s a = Some t"
    and now: "writer_step (shr s) a = None"
  shows "rt_inv t"
proof -
  from step obtain u where rd: "rst s = R_reading" and u: "reader_step (shr s) a = Some u"
    and call: "\<And>amount. a = RCall amount \<Longrightarrow> amount = 16"
    and t: "t = (case rpc u of
        RTaken bs \<Rightarrow> s\<lparr>shr := u, r_dest := bs @ drop (length bs) (r_dest s), r_count := length bs\<rparr>
      | RIdle \<Rightarrow> if a = RAdv \<or> a = RSub then after_read (s\<lparr>shr := u\<rparr>) else s\<lparr>shr := u\<rparr>
      | _ \<Rightarrow> s\<lparr>shr := u\<rparr>)"
    by (auto simp: rt_reader_step_def split: if_splits option.splits reader_pc.splits action.splits)
  have th: "threads_inv 4096 (shr s)" and w: "rt_writer_inv s" and r: "rt_reader_inv s" and q: "rt_quiet s"
    using inv by (simp_all add: rt_inv_def)
  have thu: "threads_inv 4096 u"
    by (rule thread_step_inv [OF th paced]) (simp add: thread_step_def nf u now)
  have wu: "rt_writer_inv (s\<lparr>shr := u\<rparr>)"
    by (rule rt_writer_frame [OF w]) (use reader_step_frame [OF u] in simp_all)
  obtain k where k: "r_seqnums s = int k" "k < TEST_LOOPS" and pcs: "case rpc (shr s) of
       RIdle \<Rightarrow> length (got (shr s)) = 16 * k
     | RRoom len \<Rightarrow> len = 16 \<and> length (got (shr s)) = 16 * k
     | RTaken bs \<Rightarrow> length (got (shr s)) = 16 * k \<and> r_count s = 16 \<and>
         bs = test_record k \<and> (\<exists>rest. r_dest s = bs @ rest)
     | _ \<Rightarrow> length (got (shr s)) = 16 * Suc k \<and> r_count s = 16 \<and>
         (\<exists>rest. r_dest s = test_record k @ rest)"
    using r rd by (auto simp: rt_reader_inv_def)
  obtain n where "n \<le> TEST_LOOPS" "sent u = concat (map test_record [0..<n])"
    using wu by (rule sent_is_records) simp
  then have len: "length (sent u) \<le> 16 * TEST_LOOPS" "length (got u) \<le> length (sent u)"
    using thu by (simp_all add: threads_inv_def indices_ok_def)
  have keep: "rt_inv t" if "t = s\<lparr>shr := u\<rparr>" "rt_reader_inv t"
    using that wu thu q by (simp add: rt_inv_def rt_quiet_def)
  have finish: "rt_inv t" if "t = after_read (s\<lparr>shr := u\<rparr>)" "rpc u = RIdle"
    "length (got u) = 16 * Suc k" "r_count s = 16" "\<exists>rest. r_dest s = test_record k @ rest"
  proof -
    from that(5) obtain rest where rest: "r_dest s = test_record k @ rest" by blast
    have "rt_reader_inv (after_read (s\<lparr>shr := u\<rparr>)) \<and> rt_quiet (after_read (s\<lparr>shr := u\<rparr>)) \<and>
        wst (after_read (s\<lparr>shr := u\<rparr>)) = wst (s\<lparr>shr := u\<rparr>) \<and>
        shr (after_read (s\<lparr>shr := u\<rparr>)) = shr (s\<lparr>shr := u\<rparr>)"
      using that k rd rest q len
      by (intro after_read_inv [where k = k and rest = rest]) (simp_all add: rt_quiet_def)
    then show ?thesis
      using that(1) wu thu rt_writer_frame [of "s\<lparr>shr := u\<rparr>" t] by (simp add: rt_inv_def)
  qed
  show ?thesis
  proof (cases a)
    case (RCall amount)
    let ?used = "rb_widx (ring (shr s)) - rb_ridx (ring (shr s))"
    from u RCall have pc: "rpc (shr s) = RIdle" by (auto split: if_splits)
    then have nw: "\<not> wrapping (shr s)" by (simp add: wrapping_def)
    have "reader_step (shr s) (RCall 16) =
        Some ((shr s)\<lparr>rpc := (if ?used > 0 then RRoom (min_size_t ?used 16) else RIdle)\<rparr>)"
      by (simp add: pc Let_def)
    then have u': "u = (shr s)\<lparr>rpc := (if ?used > 0 then RRoom 16 else RIdle)\<rparr>"
      using u used_whole [OF th nw rt_inv_sent [OF inv] rt_inv_got [OF inv]]
      unfolding RCall call [OF RCall] by (auto split: if_splits)
    have t': "t = s\<lparr>shr := u\<rparr>" using RCall by (simp add: t u')
    show ?thesis
      by (rule keep [OF t']) (use k rd pcs pc in \<open>simp add: rt_reader_inv_def t' u'\<close>)
  next
    case RCopy
    with u obtain l where pc: "rpc (shr s) = RRoom l" by (auto split: reader_pc.splits)
    with pcs have got: "l = 16" "length (got (shr s)) = 16 * k" by simp_all
    have "faulted u = None" using thu by (simp add: threads_inv_def)
    then obtain bs where u': "u = (shr s)\<lparr>rpc := RTaken bs\<rparr>" and
      ld: "load_bytes (rb_address (ring (shr s))) (unat (rb_ridx (ring (shr s)))) 16 = Inr bs"
      using u pc RCopy got by (auto split: sum.splits)
    have "length bs = 16" using ld by (auto simp: load_bytes_def split: mapping.splits if_splits)
    moreover have "reader_ok u" using thu by (simp add: threads_inv_def)
    ultimately have "bs = test_record k"
      using next_record [OF w got(2), of bs] by (simp add: reader_ok_def u' got)
    then have "rt_reader_inv t" "t = s\<lparr>shr := u, r_dest := bs @ drop 16 (r_dest s), r_count := 16\<rparr>"
      using k rd got by (auto simp: rt_reader_inv_def t u')
    then show ?thesis
      using wu thu q rt_writer_frame [of "s\<lparr>shr := u\<rparr>" t] by (simp add: rt_inv_def rt_quiet_def)
  next
    case RAdv
    with u obtain bs where pc: "rpc (shr s) = RTaken bs" by (auto split: reader_pc.splits)
    with pcs have got: "length (got (shr s)) = 16 * k" "r_count s = 16" "bs = test_record k"
      "\<exists>rest. r_dest s = test_record k @ rest" by auto
    have gu: "length (got u) = 16 * Suc k" "rpc u = RWrapping \<or> rpc u = RIdle"
      using u RAdv pc got by (auto simp: Let_def split: if_splits)
    then show ?thesis
    proof (elim disjE)
      assume "rpc u = RIdle"
      then show ?thesis using gu got RAdv by (intro finish) (simp_all add: t)
    next
      assume pcu: "rpc u = RWrapping"
      then have t': "t = s\<lparr>shr := u\<rparr>" by (simp add: t)
      show ?thesis
        by (rule keep [OF t']) (use k rd gu got pcu in \<open>simp add: rt_reader_inv_def t'\<close>)
    qed
  next
    case RLoadW
    with u have pc: "rpc (shr s) = RWrapping"
      and u': "u = (shr s)\<lparr>rpc := RGotW (rb_widx (ring (shr s)))\<rparr>"
      by (auto split: reader_pc.splits)
    then have t': "t = s\<lparr>shr := u\<rparr>" by (simp add: t)
    show ?thesis
      by (rule keep [OF t']) (use k rd pcs pc in \<open>simp add: rt_reader_inv_def t' u'\<close>)
  next
    case RCas
    with u obtain temp where pc: "rpc (shr s) = RGotW temp" by (auto split: reader_pc.splits)
    have gu: "got u = got (shr s)" "rpc u = RWrapping \<or> rpc u = RSwapped"
      using u RCas pc by (auto split: prod.splits if_splits)
    then have t': "t = s\<lparr>shr := u\<rparr>" by (auto simp: t)
    show ?thesis
      by (rule keep [OF t']) (use k rd pcs pc gu in \<open>auto simp: rt_reader_inv_def t'\<close>)
  next
    case RSub
    with u have pc: "rpc (shr s) = RSwapped" and u': "rpc u = RIdle" "got u = got (shr s)"
      by (auto split: reader_pc.splits)
    then show ?thesis
      using RSub pcs by (intro finish) (simp_all add: t)
  qed (use u in simp_all)
qed

section \<open>How far main is\<close>

definition rt_control :: "ring_test \<Rightarrow> bool" where
  "rt_control s \<longleftrightarrow>
     (case mst s of
        M_reader \<Rightarrow> rst s = R_new \<and> wst s = W_new
      | M_writer \<Rightarrow> wst s = W_new
      | M_join t \<Rightarrow> (0 < t \<longrightarrow> rst s = R_done) \<and> (1 < t \<longrightarrow> wst s = W_done)
      | M_ret c \<Rightarrow> c = 0 \<and> rst s = R_done \<and> wst s = W_done
      | _ \<Rightarrow> True)"

lemma writer_step_only:
  "rt_writer_step s b = Some t \<Longrightarrow> mst t = mst s \<and> rst t = rst s \<and> (\<exists>i. wst s = W_at i)"
  by (auto simp: rt_writer_step_def split: rt_writer.splits if_splits option.splits writer_pc.splits)

lemma reader_step_only:
  "rt_reader_step s b = Some t \<Longrightarrow>
   (mst t = mst s \<or> (\<exists>c. mst t = M_exit c)) \<and> wst t = wst s \<and> rst s = R_reading"
  by (auto simp: rt_reader_step_def after_read_def split: if_splits option.splits reader_pc.splits)

lemma rt_control_step:
  assumes "rt_control s" "rt_step env s a = Some t"
  shows "rt_control t"
proof (cases a)
  case (Move b)
  show ?thesis
  proof (cases "rt_writer_step s b")
    case (Some t')
    then have "t' = t" using assms(2) Move by (auto simp: rt_step_def split: if_splits)
    with writer_step_only [OF Some] assms(1) show ?thesis
      by (auto simp: rt_control_def split: rt_main.splits)
  next
    case None
    then have "rt_reader_step s b = Some t"
      using assms(2) Move by (auto simp: rt_step_def split: if_splits)
    from reader_step_only [OF this] assms(1) show ?thesis
      by (auto simp: rt_control_def split: rt_main.splits)
  qed
next
  case Main_moves
  then have "t = rt_main_step env s" using assms(2) by (auto simp: rt_step_def split: if_splits)
  with assms(1) show ?thesis
    by (cases "mst s") (auto simp: rt_control_def rt_main_step_def Let_def less_Suc_eq numeral_2_eq_2)
qed (use assms in \<open>auto simp: rt_step_def rt_control_def split: if_splits rt_main.splits\<close>)

lemma rt_main_step_inv:
  assumes inv: "rt_inv s" and ctl: "rt_control s"
  shows "rt_inv (rt_main_step env s)"
proof -
  let ?t = "rt_main_step env s"
  have shr: "shr ?t = shr s" and same: "r_seqnums ?t = r_seqnums s" "r_count ?t = r_count s"
    "r_dest ?t = r_dest s" and quiet: "rt_quiet s \<Longrightarrow> rt_quiet ?t"
    by (auto simp: rt_main_step_def Let_def rt_quiet_def split: rt_main.split)
  have r: "rst ?t = rst s \<or> rst s = R_new \<and> rst ?t = R_ready"
    and w: "wst ?t = wst s \<or> wst s = W_new \<and> wst ?t = W_ready"
    using ctl by (auto simp: rt_main_step_def Let_def rt_control_def split: rt_main.split)
  have "rt_reader_inv ?t"
    using r inv rt_reader_frame [of s ?t] same shr
    by (elim disjE conjE) (simp_all add: rt_inv_def, simp add: rt_reader_inv_def)
  moreover have "rt_writer_inv ?t"
    using w inv rt_writer_frame [of s ?t] shr
    by (elim disjE conjE) (simp_all add: rt_inv_def, simp add: rt_writer_inv_def sent_records_def)
  ultimately show ?thesis
    using inv quiet by (simp add: rt_inv_def shr)
qed

section \<open>Runs\<close>

lemma rt_step_inv:
  assumes inv: "rt_inv s" and ctl: "rt_control s" and paced: "case a of Move b \<Rightarrow> paced_step (shr s) b | _ \<Rightarrow> True"
    and step: "rt_step env s a = Some t"
  shows "rt_inv t"
proof (cases a)
  case (Move b)
  have nf: "faulted (shr s) = None" using inv by (simp add: rt_inv_def threads_inv_def)
  show ?thesis
  proof (cases "rt_writer_step s b")
    case (Some t')
    then have "t' = t" using step Move by (auto simp: rt_step_def split: if_splits)
    with rt_writer_step_inv [OF inv _ nf Some] paced Move show ?thesis by simp
  next
    case None
    then have r: "rt_reader_step s b = Some t" using step Move by (auto simp: rt_step_def split: if_splits)
    then have "reader_step (shr s) b \<noteq> None"
      by (auto simp: rt_reader_step_def split: if_splits option.splits)
    then have "writer_step (shr s) b = None" by (cases b) simp_all
    with rt_reader_step_inv [OF inv _ nf r] paced Move show ?thesis by simp
  qed
next
  case Main_moves
  then have t: "t = rt_main_step env s" using step by (auto simp: rt_step_def split: if_splits)
  show ?thesis
    unfolding t by (rule rt_main_step_inv [OF inv ctl])
next
  case Reader_begins
  then have t: "rst s = R_ready" "t = s\<lparr>rst := R_reading, rt_lines := rt_lines s @ [Reader_started]\<rparr>"
    using step by (auto simp: rt_step_def split: if_splits)
  have "rt_writer_inv t"
    by (rule rt_writer_frame [of s]) (use inv in \<open>simp_all add: t rt_inv_def\<close>)
  moreover have "rt_reader_inv t"
    using inv by (auto simp: rt_inv_def rt_reader_inv_def t TEST_LOOPS_def)
  ultimately show ?thesis
    using inv by (simp add: rt_inv_def rt_quiet_def t)
next
  case Writer_begins
  then have t: "wst s = W_ready" "t = s\<lparr>wst := W_at 0, rt_lines := rt_lines s @ [Writer_started]\<rparr>"
    using step by (auto simp: rt_step_def split: if_splits)
  have "rt_reader_inv t"
    by (rule rt_reader_frame [of s]) (use inv in \<open>simp_all add: t rt_inv_def\<close>)
  moreover have "rt_writer_inv t"
    using inv by (simp add: rt_inv_def rt_writer_inv_def sent_records_def t TEST_LOOPS_def)
  ultimately show ?thesis
    using inv by (simp add: rt_inv_def rt_quiet_def t)
qed

lemma rt_run_inv:
  "rt_inv s \<Longrightarrow> rt_control s \<Longrightarrow> rt_paced env s acts \<Longrightarrow> rt_run env s acts = Some t \<Longrightarrow>
   rt_inv t \<and> rt_control t"
proof (induction acts arbitrary: s)
  case (Cons a acts)
  then obtain u where u: "rt_step env s a = Some u" "rt_run env u acts = Some t" "rt_paced env u acts"
    by (auto split: option.splits)
  have "case a of Move b \<Rightarrow> paced_step (shr s) b | _ \<Rightarrow> True" using Cons.prems(3) by simp
  from rt_step_inv [OF Cons.prems(1,2) this u(1)] rt_control_step [OF Cons.prems(2) u(1)] Cons.IH u(2,3)
  show ?case by blast
qed simp

lemma rt_start_inv:
  assumes "rb_inv rbuf" "rb_bytes rbuf = []" "rb_ridx rbuf = 0" "rb_capacity rbuf = 4096"
  shows "rt_inv (rt_start rbuf dest)" "rt_control (rt_start rbuf dest)"
  using threads_init_inv [OF assms(1-3)] assms(4)
  by (simp_all add: rt_inv_def rt_start_def rt_writer_inv_def rt_reader_inv_def rt_quiet_def rt_control_def
      sent_records_def threads_init_def)

section \<open>Properties\<close>

text \<open>
  C5: in every paced run of the threaded test on the ring that the earlier tests leave,
  the reader never prints \<open>TRUNCATED READ\<close> nor \<open>missing seqno\<close>, all it has taken are the
  first records in order, each whole, and when \<open>main\<close> returns it has taken all
  262144 of them. The record size divides the capacity, so every write and read moves a
  whole record or nothing.
\<close>

theorem ring_test_complete:
  assumes "rb_inv rbuf" and "rb_bytes rbuf = []" and "rb_ridx rbuf = 0" and "rb_capacity rbuf = 4096"
    and "rt_paced env (rt_start rbuf dest) acts" and "rt_run env (rt_start rbuf dest) acts = Some s"
  shows "faulted (shr s) = None \<and> Truncated \<notin> set (rt_lines s) \<and>
    (\<forall>n w. Missing n w \<notin> set (rt_lines s)) \<and>
    (\<exists>k \<le> TEST_LOOPS. got (shr s) = concat (map test_record [0..<k]) \<and> (mst s = M_ret 0 \<longrightarrow> k = TEST_LOOPS))"
proof -
  have inv: "rt_inv s" "rt_control s"
    using rt_run_inv [OF rt_start_inv [OF assms(1-4)] assms(5,6)] by simp_all
  then have th: "threads_inv 4096 (shr s)" and w: "rt_writer_inv s" by (simp_all add: rt_inv_def)
  obtain n where n: "n \<le> TEST_LOOPS" "sent (shr s) = concat (map test_record [0..<n])"
    using w by (rule sent_is_records)
  obtain k where k: "length (got (shr s)) = 16 * k" using rt_inv_got [OF inv(1)] by (auto elim: dvdE)
  have pre: "got (shr s) = take (16 * k) (sent (shr s))" "16 * k \<le> length (sent (shr s))"
    using th k by (auto simp: threads_inv_def indices_ok_def)
  then have "k \<le> n" using n by simp
  then have "[0..<n] = [0..<k] @ [k..<n]" by (metis le_add_diff_inverse upt_add_eq_append zero_le)
  then have g: "got (shr s) = concat (map test_record [0..<k])"
    by (simp add: pre(1) n(2) del: upt_Suc)
  have "k = TEST_LOOPS" if "mst s = M_ret 0"
  proof -
    have "rst s = R_done" using inv(2) that by (simp add: rt_control_def)
    then have "length (got (shr s)) = 16 * TEST_LOOPS"
      using inv(1) by (auto simp: rt_inv_def rt_reader_inv_def)
    then show ?thesis using k by simp
  qed
  moreover have "k \<le> TEST_LOOPS" using \<open>k \<le> n\<close> n(1) by simp
  moreover have "faulted (shr s) = None" using th by (simp add: threads_inv_def)
  ultimately show ?thesis
    using inv(1) g by (auto simp: rt_inv_def rt_quiet_def)
qed

definition rt_good :: rt_env where
  "rt_good = \<lparr>rt_create = \<lambda>_. 0, rt_destroy = 0, rt_join = \<lambda>_. 0\<rparr>"

definition rt_example :: "rt_action list" where
  "rt_example = [Main_moves, Main_moves, Reader_begins, Writer_begins, Move (RCall 16)] @
     map Move [WCall (test_record 0) 16, WLoadW, WLoadR, WCopy, WAdd, RCall 16, RCopy]"

lemma rt_example_runs:
  "rt_paced rt_good (rt_start (fresh_ring 4096) []) rt_example \<and>
   map_option (\<lambda>s. (sent (shr s), r_count s)) (rt_run rt_good (rt_start (fresh_ring 4096) []) rt_example) =
     Some (test_record 0, 16)"
  by (simp add: rt_example_def rt_start_def threads_init_def fresh_ring_def rt_step_def rt_main_step_def
      rt_good_def rt_writer_step_def rt_reader_step_def Let_def min_size_t_def copy_in_def store_bytes_def
      load_bytes_def after_write_def TEST_LOOPS_def paced_step_def wrapping_def loading_def starts_wrap_def)

theorem ring_test_complete_witness:
  "\<exists>s. rt_run rt_good (rt_start (fresh_ring 4096) []) rt_example = Some s \<and>
    sent (shr s) = test_record 0 \<and> r_count s = 16 \<and>
    faulted (shr s) = None \<and> Truncated \<notin> set (rt_lines s) \<and>
    (\<forall>n w. Missing n w \<notin> set (rt_lines s)) \<and>
    (\<exists>k \<le> TEST_LOOPS. got (shr s) = concat (map test_record [0..<k]) \<and> (mst s = M_ret 0 \<longrightarrow> k = TEST_LOOPS))"
proof -
  obtain s where s: "rt_run rt_good (rt_start (fresh_ring 4096) []) rt_example = Some s"
    "sent (shr s) = test_record 0" "r_count s = 16"
    using rt_example_runs by auto
  have "rb_capacity (fresh_ring 4096) = 4096" "rb_ridx (fresh_ring 4096) = 0"
    by (simp_all add: fresh_ring_capacity, simp add: fresh_ring_def)
  with ring_test_complete [OF _ _ _ _ conjunct1 [OF rt_example_runs] s(1)] s show ?thesis
    by (simp add: fresh_ring_inv)
qed

text \<open>
  the guards of the two warnings are inverted: with calls that succeed, both messages
  are printed (with error 0), and a call that fails is not reported.
\<close>

theorem ring_test_warnings:
  "rt_setup at = Inr (ws, policy) \<Longrightarrow>
   ((0, ''pthread_attr_setschedpolicy'') \<in> set ws \<longleftrightarrow> at_setsched at = 0) \<and>
   ((0, ''pthread_attr_getschedpolicy'') \<in> set ws \<longleftrightarrow> at_getsched at = 0) \<and>
   (\<forall>(e, m) \<in> set ws. e = 0)"
  by (auto simp: rt_setup_def Let_def split: if_splits)

theorem ring_test_warnings_witness:
  "rt_setup \<lparr>at_init = 0, at_setsched = 0, at_getsched = 22, at_policy = 0, at_policy0 = 2\<rparr> =
     Inr ([(0, ''pthread_attr_setschedpolicy'')], ''Scheduling policy   = SCHED_RR'') \<and>
   (\<forall>(e, m) \<in> set [(0 :: int, ''pthread_attr_setschedpolicy'')]. e = 0)"
proof -
  have r: "rt_setup \<lparr>at_init = 0, at_setsched = 0, at_getsched = 22, at_policy = 0, at_policy0 = 2\<rparr> =
     Inr ([(0, ''pthread_attr_setschedpolicy'')], ''Scheduling policy   = SCHED_RR'')"
    by (simp add: rt_setup_def Let_def rt_policy_def SCHED_OTHER_def SCHED_FIFO_def SCHED_RR_def)
  from ring_test_warnings [OF r] r show ?thesis by simp
qed

end
