(* ===== verification/Infbuffer.thy ===== *)
theory Infbuffer
  imports Prelude
begin

text \<open>
  The append-only buffer of \<open>infbuffer.c\<close>: an array of pointers with three counters,
  \<open>tidx\<close> (slots claimed by writers), \<open>widx\<close> (slots published) and \<open>ridx\<close> (slots
  claimed by readers), each moved by an atomic fetch-and-add. A pointer is an
  \<open>'a option\<close>, \<open>None\<close> being NULL. The second half runs any number of threads, each
  inside \<open>infbuffer_add\<close> or \<open>infbuffer_rem\<close>, one atomic step at a time.
\<close>

section \<open>The structure and its operations\<close>

record 'a infbuffer_s =
  ib_data :: "'a option list"
  ib_ridx :: size_t
  ib_widx :: size_t
  ib_tidx :: size_t

text \<open>The value found, and the new contents of the counter.\<close>

definition FETCH_THEN_ADD :: "size_t \<Rightarrow> size_t \<Rightarrow> size_t \<times> size_t" where
  "FETCH_THEN_ADD p incr = (p, p + incr)"

text \<open>\<open>calloc_ok\<close>: whether \<open>calloc\<close> finds the memory; 12 is \<open>ENOMEM\<close>.\<close>

definition infbuffer_init :: "bool \<Rightarrow> nat \<Rightarrow> 'a infbuffer_s \<times> int" where
  "infbuffer_init calloc_ok items =
     (\<lparr>ib_data = (if calloc_ok then replicate items None else []),
       ib_ridx = 0, ib_widx = 0, ib_tidx = 0\<rparr>,
      if calloc_ok then 0 else 12)"

definition store_slot :: "'a infbuffer_s \<Rightarrow> size_t \<Rightarrow> 'a option \<Rightarrow> 'a infbuffer_s result" where
  "store_slot buf idx item =
     (if unat idx < length (ib_data buf)
      then Inr (buf\<lparr>ib_data := (ib_data buf)[unat idx := item]\<rparr>) else Inl OutOfBounds)"

definition load_slot :: "'a infbuffer_s \<Rightarrow> size_t \<Rightarrow> 'a option result" where
  "load_slot buf idx =
     (if unat idx < length (ib_data buf) then Inr (ib_data buf ! unat idx) else Inl OutOfBounds)"

definition infbuffer_add :: "'a infbuffer_s \<Rightarrow> 'a option \<Rightarrow> 'a infbuffer_s result" where
  "infbuffer_add buf item =
     (let (idx, tidx') = FETCH_THEN_ADD (ib_tidx buf) 1
      in bind_r (store_slot (buf\<lparr>ib_tidx := tidx'\<rparr>) idx item) (\<lambda>buf'.
           let (_, widx') = FETCH_THEN_ADD (ib_widx buf') 1
           in Inr (buf'\<lparr>ib_widx := widx'\<rparr>)))"

text \<open>
  \<open>infbuffer_rem\<close> with no other thread running: \<open>None\<close> when the loop that waits for
  \<open>widx\<close> to pass the claimed slot never ends.
\<close>

definition infbuffer_rem ::
  "'a infbuffer_s \<Rightarrow> ('a infbuffer_s \<times> 'a option) result option" where
  "infbuffer_rem buf =
     (let (idx, ridx') = FETCH_THEN_ADD (ib_ridx buf) 1; buf' = buf\<lparr>ib_ridx := ridx'\<rparr>
      in if idx \<ge> ib_widx buf' then None
         else Some (bind_r (load_slot buf' idx) (\<lambda>item. Inr (buf', item))))"

definition infbuffer_destroy :: "'a infbuffer_s \<Rightarrow> 'a infbuffer_s" where
  "infbuffer_destroy buf = buf\<lparr>ib_data := []\<rparr>"

section \<open>Threads inside infbuffer\_add and infbuffer\_rem\<close>

datatype 'a ib_pc =
    Outside
  | Adding "'a option" size_t
  | Publishing
  | Removing size_t

text \<open>
  \<open>added\<close> lists the items in the order their slots were claimed, \<open>taken\<close> the slots
  and values that \<open>infbuffer_rem\<close> has returned; the code has neither.
\<close>

record 'a ib_sys =
  ib :: "'a infbuffer_s"
  pcs :: "nat \<Rightarrow> 'a ib_pc"
  added :: "'a option list"
  removals :: nat
  taken :: "(nat \<times> 'a option) list"
  ib_fault :: "fault option"

definition ib_start :: "nat \<Rightarrow> 'a ib_sys" where
  "ib_start items =
     \<lparr>ib = fst (infbuffer_init True items), pcs = (\<lambda>_. Outside), added = [], removals = 0,
      taken = [], ib_fault = None\<rparr>"

text \<open>Steps when the threads of \<open>W\<close> may add; every thread may remove.\<close>

inductive ib_step :: "nat set \<Rightarrow> 'a ib_sys \<Rightarrow> 'a ib_sys \<Rightarrow> bool" for W where
  add_claim: "ib_fault s = None \<Longrightarrow> i \<in> W \<Longrightarrow> pcs s i = Outside \<Longrightarrow>
     FETCH_THEN_ADD (ib_tidx (ib s)) 1 = (idx, tidx') \<Longrightarrow>
     ib_step W s (s\<lparr>ib := (ib s)\<lparr>ib_tidx := tidx'\<rparr>, pcs := (pcs s)(i := Adding item idx),
                    added := added s @ [item]\<rparr>)"
| add_store: "ib_fault s = None \<Longrightarrow> pcs s i = Adding item idx \<Longrightarrow>
     store_slot (ib s) idx item = Inr buf \<Longrightarrow>
     ib_step W s (s\<lparr>ib := buf, pcs := (pcs s)(i := Publishing)\<rparr>)"
| add_store_fault: "ib_fault s = None \<Longrightarrow> pcs s i = Adding item idx \<Longrightarrow>
     store_slot (ib s) idx item = Inl e \<Longrightarrow>
     ib_step W s (s\<lparr>ib_fault := Some e\<rparr>)"
| add_publish: "ib_fault s = None \<Longrightarrow> pcs s i = Publishing \<Longrightarrow>
     FETCH_THEN_ADD (ib_widx (ib s)) 1 = (old, widx') \<Longrightarrow>
     ib_step W s (s\<lparr>ib := (ib s)\<lparr>ib_widx := widx'\<rparr>, pcs := (pcs s)(i := Outside)\<rparr>)"
| rem_claim: "ib_fault s = None \<Longrightarrow> pcs s i = Outside \<Longrightarrow>
     FETCH_THEN_ADD (ib_ridx (ib s)) 1 = (idx, ridx') \<Longrightarrow>
     ib_step W s (s\<lparr>ib := (ib s)\<lparr>ib_ridx := ridx'\<rparr>, pcs := (pcs s)(i := Removing idx),
                    removals := removals s + 1\<rparr>)"
| rem_yield: "ib_fault s = None \<Longrightarrow> pcs s i = Removing idx \<Longrightarrow> idx \<ge> ib_widx (ib s) \<Longrightarrow>
     ib_step W s s"
| rem_load: "ib_fault s = None \<Longrightarrow> pcs s i = Removing idx \<Longrightarrow> \<not> idx \<ge> ib_widx (ib s) \<Longrightarrow>
     load_slot (ib s) idx = Inr item \<Longrightarrow>
     ib_step W s (s\<lparr>pcs := (pcs s)(i := Outside), taken := taken s @ [(unat idx, item)]\<rparr>)"
| rem_load_fault: "ib_fault s = None \<Longrightarrow> pcs s i = Removing idx \<Longrightarrow> \<not> idx \<ge> ib_widx (ib s) \<Longrightarrow>
     load_slot (ib s) idx = Inl e \<Longrightarrow>
     ib_step W s (s\<lparr>ib_fault := Some e\<rparr>)"

inductive ib_reach :: "nat set \<Rightarrow> nat \<Rightarrow> 'a ib_sys \<Rightarrow> bool" for W items where
  start: "ib_reach W items (ib_start items)"
| step: "ib_reach W items s \<Longrightarrow> ib_step W s t \<Longrightarrow> ib_reach W items t"


section \<open>The sequential operations\<close>

lemma FETCH_THEN_ADD_iff [simp]:
  "FETCH_THEN_ADD p incr = (old, new) \<longleftrightarrow> old = p \<and> new = p + incr"
  by (auto simp: FETCH_THEN_ADD_def)

lemma store_slot_Inr_iff:
  "store_slot buf idx item = Inr buf' \<longleftrightarrow>
     unat idx < length (ib_data buf) \<and> buf' = buf\<lparr>ib_data := (ib_data buf)[unat idx := item]\<rparr>"
  by (auto simp: store_slot_def)

lemma store_slot_Inl_iff:
  "store_slot buf idx item = Inl e \<longleftrightarrow> \<not> unat idx < length (ib_data buf) \<and> e = OutOfBounds"
  by (auto simp: store_slot_def)

lemma load_slot_Inr_iff:
  "load_slot buf idx = Inr item \<longleftrightarrow> unat idx < length (ib_data buf) \<and> item = ib_data buf ! unat idx"
  by (auto simp: load_slot_def)

lemma load_slot_Inl_iff:
  "load_slot buf idx = Inl e \<longleftrightarrow> \<not> unat idx < length (ib_data buf) \<and> e = OutOfBounds"
  by (auto simp: load_slot_def)

lemmas slot_iffs = store_slot_Inr_iff store_slot_Inl_iff load_slot_Inr_iff load_slot_Inl_iff

section \<open>No slot is delivered twice\<close>

definition removers_ok :: "'a ib_sys \<Rightarrow> bool" where
  "removers_ok s \<longleftrightarrow>
     (\<forall>i idx. pcs s i = Removing idx \<longrightarrow> unat idx < removals s \<and> unat idx \<notin> fst ` set (taken s)) \<and>
     (\<forall>i j idx. pcs s i = Removing idx \<and> pcs s j = Removing idx \<longrightarrow> i = j) \<and>
     distinct (map fst (taken s)) \<and> (\<forall>k \<in> fst ` set (taken s). k < removals s)"

definition removals_inv :: "'a ib_sys \<Rightarrow> bool" where
  "removals_inv s \<longleftrightarrow>
     ib_ridx (ib s) = of_nat (removals s) \<and> (removals s < 2 ^ 64 \<longrightarrow> removers_ok s)"

lemma removals_inv_start: "removals_inv (ib_start items)"
  by (simp add: removals_inv_def removers_ok_def ib_start_def infbuffer_init_def)

text \<open>A step that moves one thread from a state that is not \<open>Removing\<close> to another such.\<close>

lemma removers_ok_pc:
  assumes "removers_ok s" "\<And>idx. pc \<noteq> Removing idx"
    and "pcs t = (pcs s)(i := pc)" "removals t = removals s" "taken t = taken s"
  shows "removers_ok t"
proof -
  have pc: "pcs s k = Removing idx" if "pcs t k = Removing idx" for k idx
    using that assms(2) [of idx] assms(3) by (simp split: if_splits)
  note ok = assms(1) [unfolded removers_ok_def]
  show ?thesis
    unfolding removers_ok_def assms(4,5)
    by (intro conjI; use ok pc in metis)
qed

lemma removers_ok_take:
  assumes "removers_ok s" "pcs s i = Removing idx"
  shows "removers_ok (s\<lparr>pcs := (pcs s)(i := Outside), taken := taken s @ [(unat idx, item)]\<rparr>)"
proof -
  have other: "unat idx' \<noteq> unat idx" if "pcs s j = Removing idx'" "j \<noteq> i" for j idx'
    using assms that unfolding removers_ok_def word_unat_eq_iff [symmetric] by metis
  have "unat idx < removals s" "unat idx \<notin> fst ` set (taken s)"
    using assms by (simp_all add: removers_ok_def)
  then show ?thesis
    using assms(1) other by (simp add: removers_ok_def)
qed

lemma removals_inv_pc:
  assumes "removals_inv s" "\<And>idx. pc \<noteq> Removing idx"
    and "pcs t = (pcs s)(i := pc)" "removals t = removals s" "taken t = taken s"
    and "ib_ridx (ib t) = ib_ridx (ib s)"
  shows "removals_inv t"
  using assms(1,4,6) removers_ok_pc [OF _ assms(2-5)] by (simp add: removals_inv_def)

lemma removals_inv_fault [simp]: "removals_inv (s\<lparr>ib_fault := e\<rparr>) = removals_inv s"
  by (simp add: removals_inv_def removers_ok_def)

lemma removals_inv_step: "ib_step W s t \<Longrightarrow> removals_inv s \<Longrightarrow> removals_inv t"
proof (induction rule: ib_step.induct)
  case (rem_claim s i idx ridx')
  have idx: "idx = of_nat (removals s)"
    using rem_claim by (simp add: removals_inv_def)
  show ?case
  proof (cases "removals s + 1 < 2 ^ 64")
    case True
    then have "unat idx = removals s"
      by (simp add: idx unat_of_nat)
    moreover have "removers_ok s"
      using True rem_claim.prems by (simp add: removals_inv_def)
    ultimately show ?thesis
      using rem_claim
      by (fastforce simp: removals_inv_def removers_ok_def)
  next
    case False
    then show ?thesis
      using rem_claim by (simp add: removals_inv_def)
  qed
next
  case (rem_load s i idx item)
  have "ib_ridx (ib s) = of_nat (removals s)"
    using rem_load.prems by (simp add: removals_inv_def)
  moreover have "removers_ok s" if "removals s < 2 ^ 64"
    using that rem_load.prems by (simp add: removals_inv_def)
  ultimately show ?case
    using removers_ok_take [OF _ rem_load.hyps(2)] by (simp add: removals_inv_def)
next
  case (add_claim s i idx tidx' item)
  show ?case
    by (rule removals_inv_pc [OF add_claim.prems, of "Adding item idx" _ i]) simp_all
next
  case (add_store s i item idx buf)
  then show ?case
    by (intro removals_inv_pc [OF add_store.prems, of Publishing _ i]) (auto simp: slot_iffs)
next
  case (add_publish s i old widx')
  show ?case
    by (rule removals_inv_pc [OF add_publish.prems, of Outside _ i]) simp_all
qed simp_all

lemma removals_inv_reach: "ib_reach W items s \<Longrightarrow> removals_inv s"
  by (induction rule: ib_reach.induct) (auto intro: removals_inv_start removals_inv_step)

section \<open>One writer: every reader gets what was added\<close>

definition single_inv :: "nat \<Rightarrow> nat \<Rightarrow> 'a ib_sys \<Rightarrow> bool" where
  "single_inv w items s \<longleftrightarrow>
     (let wn = unat (ib_widx (ib s)) in
     length (ib_data (ib s)) = items \<and> wn \<le> items \<and>
     ib_tidx (ib s) = of_nat (length (added s)) \<and>
     (\<forall>i. i \<noteq> w \<longrightarrow> (case pcs s i of Adding _ _ \<Rightarrow> False | Publishing \<Rightarrow> False | _ \<Rightarrow> True)) \<and>
     (case pcs s w of
        Adding item idx \<Rightarrow> length (added s) = Suc wn \<and> unat idx = wn \<and> added s ! wn = item
      | Publishing \<Rightarrow> length (added s) = Suc wn \<and> wn < items \<and> ib_data (ib s) ! wn = added s ! wn
      | _ \<Rightarrow> length (added s) = wn) \<and>
     (\<forall>k < wn. ib_data (ib s) ! k = added s ! k) \<and>
     (\<forall>(k, v) \<in> set (taken s). k < wn \<and> v = added s ! k) \<and>
     (ib_fault s \<noteq> None \<longrightarrow> items < length (added s)))"

lemma single_inv_start: "single_inv w items (ib_start items)"
  by (simp add: single_inv_def ib_start_def infbuffer_init_def)

lemma single_inv_step:
  assumes "items < 2 ^ 63"
  shows "ib_step {w} s t \<Longrightarrow> single_inv w items s \<Longrightarrow> single_inv w items t"
proof (induction rule: ib_step.induct)
  case (add_claim s i idx tidx' item)
  have len: "length (added s) = unat (ib_widx (ib s))" "unat (ib_widx (ib s)) \<le> items"
    using add_claim by (simp_all add: single_inv_def Let_def)
  then have "unat (ib_tidx (ib s)) = unat (ib_widx (ib s))"
    using add_claim assms by (simp add: single_inv_def Let_def unat_of_nat)
  with add_claim len show ?case
    by (auto simp: single_inv_def Let_def nth_append)
next
  case (add_store s i item idx buf)
  have "i = w"
    using add_store by (cases "i = w") (auto simp: single_inv_def Let_def)
  with add_store show ?case
    by (auto simp: single_inv_def Let_def slot_iffs)
next
  case (add_store_fault s i item idx e)
  have "i = w"
    using add_store_fault by (cases "i = w") (auto simp: single_inv_def Let_def)
  with add_store_fault show ?case
    by (auto simp: single_inv_def Let_def slot_iffs)
next
  case (add_publish s i old widx')
  have "i = w"
    using add_publish by (cases "i = w") (auto simp: single_inv_def Let_def)
  moreover from this have "unat (ib_widx (ib s)) < items"
    using add_publish by (simp add: single_inv_def Let_def)
  then have "unat (ib_widx (ib s) + 1) = Suc (unat (ib_widx (ib s)))"
    using assms by (simp add: unat_word_ariths)
  ultimately show ?case
    using add_publish by (auto simp: single_inv_def Let_def less_Suc_eq)
next
  case (rem_claim s i idx ridx')
  then show ?case
    by (cases "i = w") (auto simp: single_inv_def Let_def split: ib_pc.splits)
next
  case (rem_yield s i idx)
  then show ?case by simp
next
  case (rem_load s i idx item)
  then have "unat idx < unat (ib_widx (ib s))"
    by (simp add: word_le_nat_alt)
  with rem_load show ?case
    by (cases "i = w") (auto simp: single_inv_def Let_def slot_iffs split: ib_pc.splits)
next
  case (rem_load_fault s i idx e)
  then have "unat idx < unat (ib_widx (ib s))"
    by (simp add: word_le_nat_alt)
  with rem_load_fault show ?case
    by (auto simp: single_inv_def Let_def slot_iffs)
qed

lemma single_inv_reach:
  "ib_reach {w} items s \<Longrightarrow> items < 2 ^ 63 \<Longrightarrow> single_inv w items s"
  by (induction rule: ib_reach.induct) (auto intro: single_inv_start single_inv_step)


section \<open>Properties\<close>

text \<open>
  called alone, \<open>infbuffer_add\<close> succeeds exactly while a slot is left (there is no
  bounds check: beyond the last slot it writes outside the array), and it publishes the
  item in the slot that \<open>tidx\<close> names.
\<close>

theorem infbuffer_add_result:
  "infbuffer_add buf item =
     (if unat (ib_tidx buf) < length (ib_data buf)
      then Inr (buf\<lparr>ib_data := (ib_data buf)[unat (ib_tidx buf) := item],
                    ib_tidx := ib_tidx buf + 1, ib_widx := ib_widx buf + 1\<rparr>)
      else Inl OutOfBounds)"
  by (simp add: infbuffer_add_def FETCH_THEN_ADD_def store_slot_def)

text \<open>
  with any number of writers and readers in any interleaving, no slot is returned
  by two calls of \<open>infbuffer_rem\<close> (as long as fewer than \<open>2^64\<close> calls have begun).
\<close>

theorem infbuffer_no_duplicates:
  assumes "ib_reach W items s" and "removals s < 2 ^ 64"
  shows "distinct (map fst (taken s))"
  using removals_inv_reach [OF assms(1)] assms(2)
  by (simp add: removals_inv_def removers_ok_def)

text \<open>
  C39: with one writer and any number of readers, in every interleaving each
  \<open>infbuffer_rem\<close> returns the very item that the writer's add of that rank stored, and
  no access leaves the array unless the writer adds more items than there are slots.
\<close>

theorem infbuffer_single_writer:
  assumes "ib_reach {w} items s" and "items < 2 ^ 63"
  shows "(\<forall>(k, v) \<in> set (taken s). k < length (added s) \<and> v = added s ! k) \<and>
    (length (added s) \<le> items \<longrightarrow> ib_fault s = None)"
proof -
  have "single_inv w items s"
    using assms by (rule single_inv_reach)
  then show ?thesis
    by (fastforce simp: single_inv_def Let_def split: ib_pc.splits)
qed

text \<open>
  with two writers that is false. From an empty buffer of four slots there is a run
  in which both writers add non-null items and a reader is given NULL, because the
  second writer's increment of \<open>widx\<close> publishes the first writer's slot before the
  first writer has stored its item.
\<close>

theorem infbuffer_two_writers_null:
  "\<exists>s :: nat ib_sys. ib_reach {0, 1} 4 s \<and> None \<notin> set (added s) \<and> (0, None) \<in> set (taken s)"
proof -
  define s0 :: "nat ib_sys" where "s0 = ib_start 4"
  define s1 where "s1 = s0\<lparr>ib := (ib s0)\<lparr>ib_tidx := 1\<rparr>,
    pcs := (pcs s0)(0 := Adding (Some 7) 0), added := [Some 7]\<rparr>"
  define s2 where "s2 = s1\<lparr>ib := (ib s1)\<lparr>ib_tidx := 2\<rparr>,
    pcs := (pcs s1)(1 := Adding (Some 8) 1), added := [Some 7, Some 8]\<rparr>"
  define s3 where "s3 = s2\<lparr>ib := (ib s2)\<lparr>ib_data := (ib_data (ib s2))[1 := Some 8]\<rparr>,
    pcs := (pcs s2)(1 := Publishing)\<rparr>"
  define s4 where "s4 = s3\<lparr>ib := (ib s3)\<lparr>ib_widx := 1\<rparr>, pcs := (pcs s3)(1 := Outside)\<rparr>"
  define s5 where "s5 = s4\<lparr>ib := (ib s4)\<lparr>ib_ridx := 1\<rparr>,
    pcs := (pcs s4)(2 := Removing 0), removals := 1\<rparr>"
  define s6 where "s6 = s5\<lparr>pcs := (pcs s5)(2 := Outside), taken := [(0, None)]\<rparr>"
  note run = s0_def s1_def s2_def s3_def s4_def s5_def s6_def ib_start_def infbuffer_init_def
  have "ib_reach {0, 1} 4 s0"
    unfolding s0_def by (rule ib_reach.start)
  moreover have "ib_step {0, 1} s0 s1"
    using ib_step.add_claim [of s0 0 "{0, 1}" 0 1 "Some 7"] by (simp add: run)
  moreover have "ib_step {0, 1} s1 s2"
    using ib_step.add_claim [of s1 1 "{0, 1}" 1 2 "Some 8"] by (simp add: run)
  moreover have "ib_step {0, 1} s2 s3"
    using ib_step.add_store [of s2 1 "Some 8" 1] by (simp add: run store_slot_def)
  moreover have "ib_step {0, 1} s3 s4"
    using ib_step.add_publish [of s3 1 0 1] by (simp add: run)
  moreover have "ib_step {0, 1} s4 s5"
    using ib_step.rem_claim [of s4 2 0 1] by (simp add: run)
  moreover have "ib_step {0, 1} s5 s6"
    using ib_step.rem_load [of s5 2 0 None] by (simp add: run load_slot_def)
  ultimately have "ib_reach {0, 1} 4 s6"
    by (meson ib_reach.step)
  moreover have "None \<notin> set (added s6)" "(0, None) \<in> set (taken s6)"
    by (simp_all add: run)
  ultimately show ?thesis by blast
qed

text \<open>A run of one writer and one reader, for the hypotheses of the two properties above.\<close>

lemma one_item_run:
  "\<exists>s :: nat ib_sys. ib_reach {0} 4 s \<and> removals s = 1 \<and> taken s = [(0, Some 7)] \<and> added s = [Some 7]"
proof -
  define s0 :: "nat ib_sys" where "s0 = ib_start 4"
  define s1 where "s1 = s0\<lparr>ib := (ib s0)\<lparr>ib_tidx := 1\<rparr>,
    pcs := (pcs s0)(0 := Adding (Some 7) 0), added := [Some 7]\<rparr>"
  define s2 where "s2 = s1\<lparr>ib := (ib s1)\<lparr>ib_data := (ib_data (ib s1))[0 := Some 7]\<rparr>,
    pcs := (pcs s1)(0 := Publishing)\<rparr>"
  define s3 where "s3 = s2\<lparr>ib := (ib s2)\<lparr>ib_widx := 1\<rparr>, pcs := (pcs s2)(0 := Outside)\<rparr>"
  define s4 where "s4 = s3\<lparr>ib := (ib s3)\<lparr>ib_ridx := 1\<rparr>,
    pcs := (pcs s3)(2 := Removing 0), removals := 1\<rparr>"
  define s5 where "s5 = s4\<lparr>pcs := (pcs s4)(2 := Outside), taken := [(0, Some 7)]\<rparr>"
  note run = s0_def s1_def s2_def s3_def s4_def s5_def ib_start_def infbuffer_init_def
  have "ib_reach {0} 4 s0"
    unfolding s0_def by (rule ib_reach.start)
  moreover have "ib_step {0} s0 s1"
    using ib_step.add_claim [of s0 0 "{0}" 0 1 "Some 7"] by (simp add: run)
  moreover have "ib_step {0} s1 s2"
    using ib_step.add_store [of s1 0 "Some 7" 0] by (simp add: run store_slot_def)
  moreover have "ib_step {0} s2 s3"
    using ib_step.add_publish [of s2 0 0 1] by (simp add: run)
  moreover have "ib_step {0} s3 s4"
    using ib_step.rem_claim [of s3 2 0 1] by (simp add: run)
  moreover have "ib_step {0} s4 s5"
    using ib_step.rem_load [of s4 2 0 "Some 7"] by (simp add: run load_slot_def)
  ultimately have "ib_reach {0} 4 s5"
    by (meson ib_reach.step)
  moreover have "removals s5 = 1 \<and> taken s5 = [(0, Some 7)] \<and> added s5 = [Some 7]"
    by (simp add: run)
  ultimately show ?thesis by blast
qed

theorem infbuffer_no_duplicates_witness:
  "\<exists>s :: nat ib_sys. ib_reach {0} 4 s \<and> taken s = [(0, Some 7)] \<and> distinct (map fst (taken s))"
proof -
  obtain s :: "nat ib_sys" where s: "ib_reach {0} 4 s" "removals s = 1" "taken s = [(0, Some 7)]"
    using one_item_run by blast
  have "distinct (map fst (taken s))"
    by (rule infbuffer_no_duplicates [OF s(1)]) (simp add: s(2))
  with s show ?thesis by blast
qed

theorem infbuffer_single_writer_witness:
  "\<exists>s :: nat ib_sys. ib_reach {0} 4 s \<and> taken s = [(0, Some 7)] \<and>
    (\<forall>(k, v) \<in> set (taken s). k < length (added s) \<and> v = added s ! k) \<and>
    (length (added s) \<le> 4 \<longrightarrow> ib_fault s = None)"
proof -
  obtain s :: "nat ib_sys" where s: "ib_reach {0} 4 s" "taken s = [(0, Some 7)]"
    using one_item_run by blast
  with infbuffer_single_writer [OF s(1)] show ?thesis by auto
qed

end
