(* ===== verification/Infbuffer_Test.thy ===== *)
theory Infbuffer_Test
  imports Infbuffer Cstring
begin

text \<open>
  The test program \<open>test_infbuffer.c\<close>: \<open>main\<close> starts the readers, then the writers,
  that share one buffer, and joins them all. Each thread is deterministic, so an
  interleaving is a list of thread names (a schedule); one step of a thread is at most
  one access to the shared buffer. A thread that cannot go on (a reader that waits for
  an item, \<open>main\<close> that waits for a thread) stays where it is.

  Items are pointers into the \<open>loads\<close> array of a writer. The two properties here are
  about several writers; \<open>Infbuffer_Runs\<close> has those of runs with one writer.
\<close>

section \<open>The data\<close>

definition MAGIC :: u32 where "MAGIC = 0x00435053"

text \<open>The 100 bytes of \<open>data\<close> are never touched.\<close>

record payload_s =
  p_magic :: u32
  p_id :: size_t
  p_seqno :: size_t

text \<open>The address \<open>&wdata[i].loads[k]\<close>.\<close>

type_synonym load_ptr = "nat \<times> nat"

text \<open>Every \<open>ibuf\<close> is the address of the one buffer. \<open>w_loads\<close> is \<open>None\<close> when \<open>calloc\<close> failed.\<close>

record writer_s =
  w_loads :: "payload_s list option"
  w_id :: size_t
  w_maxseq :: size_t

record reader_s =
  r_writers :: size_t
  r_readers :: size_t
  r_seqnos :: "size_t list"
  r_maxseq :: size_t

record it_opts =
  t_writers :: size_t
  t_readers :: size_t
  t_items :: size_t

definition it_defaults :: it_opts where
  "it_defaults = \<lparr>t_writers = 1, t_readers = 1, t_items = 16384\<rparr>"

text \<open>The answers of \<open>getopt\<close>; \<open>None\<close> after the usage message.\<close>

fun it_options :: "(char \<times> string) list \<Rightarrow> it_opts \<Rightarrow> it_opts option" where
  "it_options [] opts = Some opts"
| "it_options ((c, optarg) # rest) opts =
     (if c = CHR ''w'' then it_options rest (opts\<lparr>t_writers := strtoul optarg 10\<rparr>)
      else if c = CHR ''r'' then it_options rest (opts\<lparr>t_readers := strtoul optarg 10\<rparr>)
      else if c = CHR ''i'' then it_options rest (opts\<lparr>t_items := strtoul optarg 10\<rparr>)
      else None)"

section \<open>One thread inside the buffer\<close>

definition ib_begin_add :: "nat \<Rightarrow> 'a option \<Rightarrow> 'a ib_sys \<Rightarrow> 'a ib_sys" where
  "ib_begin_add i item s =
     (let (idx, tidx') = FETCH_THEN_ADD (ib_tidx (ib s)) 1
      in s\<lparr>ib := (ib s)\<lparr>ib_tidx := tidx'\<rparr>, pcs := (pcs s)(i := Adding item idx),
           added := added s @ [item]\<rparr>)"

definition ib_begin_rem :: "nat \<Rightarrow> 'a ib_sys \<Rightarrow> 'a ib_sys" where
  "ib_begin_rem i s =
     (let (idx, ridx') = FETCH_THEN_ADD (ib_ridx (ib s)) 1
      in s\<lparr>ib := (ib s)\<lparr>ib_ridx := ridx'\<rparr>, pcs := (pcs s)(i := Removing idx),
           removals := removals s + 1\<rparr>)"

definition ib_go :: "nat \<Rightarrow> 'a ib_sys \<Rightarrow> 'a ib_sys" where
  "ib_go i s =
     (case pcs s i of
        Outside \<Rightarrow> s
      | Adding item idx \<Rightarrow>
          (case store_slot (ib s) idx item of
             Inl e \<Rightarrow> s\<lparr>ib_fault := Some e\<rparr>
           | Inr buf \<Rightarrow> s\<lparr>ib := buf, pcs := (pcs s)(i := Publishing)\<rparr>)
      | Publishing \<Rightarrow>
          let (_, widx') = FETCH_THEN_ADD (ib_widx (ib s)) 1
          in s\<lparr>ib := (ib s)\<lparr>ib_widx := widx'\<rparr>, pcs := (pcs s)(i := Outside)\<rparr>
      | Removing idx \<Rightarrow>
          if idx \<ge> ib_widx (ib s) then s
          else (case load_slot (ib s) idx of
                  Inl e \<Rightarrow> s\<lparr>ib_fault := Some e\<rparr>
                | Inr item \<Rightarrow> s\<lparr>pcs := (pcs s)(i := Outside),
                                taken := taken s @ [(unat idx, item)]\<rparr>))"

section \<open>The threads of the program\<close>

datatype it_thread = MainT | WriterT nat | ReaderT nat

fun tid :: "it_thread \<Rightarrow> nat" where
  "tid (WriterT i) = 2 * i"
| "tid (ReaderT j) = Suc (2 * j)"
| "tid MainT = 0"

text \<open>
  A writer is about to test its loop condition, has filled the load in, or is inside
  \<open>infbuffer_add\<close>; a reader is about to call \<open>infbuffer_rem\<close>, inside it, or has its result.
\<close>

datatype it_wpc = WNotStarted | WLoop size_t | WFilled size_t | WAdding size_t | WEnded
datatype it_rpc = RNotStarted | RLoop | RIn | RGot "load_ptr option" | REnded
datatype it_main_pc = MkReader nat | MkWriter nat | JoinWriter nat | JoinReader nat | Returned int

record it_sys =
  ibs :: "load_ptr ib_sys"
  winfo :: "nat \<Rightarrow> writer_s"
  rinfo :: "nat \<Rightarrow> reader_s"
  wpcs :: "nat \<Rightarrow> it_wpc"
  rpcs :: "nat \<Rightarrow> it_rpc"
  main_at :: it_main_pc
  it_fault :: "fault option"

text \<open>What the C library answers: to the \<open>calloc\<close> calls and to \<open>pthread_create\<close>.\<close>

record it_env =
  buf_ok :: bool
  seqnos_ok :: "nat \<Rightarrow> bool"
  loads_ok :: "nat \<Rightarrow> bool"
  create_reader :: "nat \<Rightarrow> int"
  create_writer :: "nat \<Rightarrow> int"

subsection \<open>thread\_writer\<close>

definition fill_load :: "writer_s \<Rightarrow> size_t \<Rightarrow> writer_s result" where
  "fill_load info seqno =
     (case w_loads info of
        None \<Rightarrow> Inl Segfault
      | Some loads \<Rightarrow>
          if unat seqno < length loads
          then Inr (info\<lparr>w_loads := Some (loads[unat seqno :=
                 \<lparr>p_magic = MAGIC, p_id = w_id info, p_seqno = seqno + 1\<rparr>])\<rparr>)
          else Inl OutOfBounds)"

definition it_writer_step :: "nat \<Rightarrow> it_sys \<Rightarrow> it_sys" where
  "it_writer_step i s =
     (case wpcs s i of
        WNotStarted \<Rightarrow> s
      | WLoop seqno \<Rightarrow>
          if seqno < w_maxseq (winfo s i)
          then (case fill_load (winfo s i) seqno of
                  Inl e \<Rightarrow> s\<lparr>it_fault := Some e\<rparr>
                | Inr info \<Rightarrow> s\<lparr>winfo := (winfo s)(i := info), wpcs := (wpcs s)(i := WFilled seqno)\<rparr>)
          else s\<lparr>wpcs := (wpcs s)(i := WEnded)\<rparr>
      | WFilled seqno \<Rightarrow>
          s\<lparr>ibs := ib_begin_add (tid (WriterT i)) (Some (i, unat seqno)) (ibs s),
            wpcs := (wpcs s)(i := WAdding seqno)\<rparr>
      | WAdding seqno \<Rightarrow>
          let u = ib_go (tid (WriterT i)) (ibs s)
          in s\<lparr>ibs := u, wpcs := (wpcs s)(i :=
                 if pcs u (tid (WriterT i)) = Outside then WLoop (seqno + 1) else WAdding seqno)\<rparr>
      | WEnded \<Rightarrow> s)"

subsection \<open>thread\_reader\<close>

definition load_at :: "it_sys \<Rightarrow> load_ptr \<Rightarrow> payload_s result" where
  "load_at s p =
     (case w_loads (winfo s (fst p)) of
        None \<Rightarrow> Inl Segfault
      | Some loads \<Rightarrow> if snd p < length loads then Inr (loads ! snd p) else Inl OutOfBounds)"

text \<open>The body of the loop after \<open>infbuffer_rem\<close>, and whether the loop goes on.\<close>

fun reader_body ::
  "(load_ptr \<Rightarrow> payload_s result) \<Rightarrow> reader_s \<Rightarrow> load_ptr option \<Rightarrow> (reader_s \<times> bool) result" where
  "reader_body deref info None = Inr (info, False)"
| "reader_body deref info (Some p) =
     bind_r (deref p) (\<lambda>load.
       assert_c (p_magic load = MAGIC)
         (assert_c (p_id load < r_writers info)
           (if unat (p_id load) < length (r_seqnos info)
            then assert_c (p_seqno load > r_seqnos info ! unat (p_id load))
              (Inr (info\<lparr>r_seqnos := (r_seqnos info)[unat (p_id load) := p_seqno load]\<rparr>,
                    p_seqno load < r_maxseq info))
            else Inl OutOfBounds)))"

definition it_reader_step :: "nat \<Rightarrow> it_sys \<Rightarrow> it_sys" where
  "it_reader_step j s =
     (case rpcs s j of
        RNotStarted \<Rightarrow> s
      | RLoop \<Rightarrow>
          s\<lparr>ibs := ib_begin_rem (tid (ReaderT j)) (ibs s), rpcs := (rpcs s)(j := RIn)\<rparr>
      | RIn \<Rightarrow>
          let u = ib_go (tid (ReaderT j)) (ibs s)
          in s\<lparr>ibs := u, rpcs := (rpcs s)(j :=
                 if pcs u (tid (ReaderT j)) = Outside then RGot (snd (last (taken u))) else RIn)\<rparr>
      | RGot item \<Rightarrow>
          (case reader_body (load_at s) (rinfo s j) item of
             Inl e \<Rightarrow> s\<lparr>it_fault := Some e\<rparr>
           | Inr (info, go_on) \<Rightarrow>
               s\<lparr>rinfo := (rinfo s)(j := info),
                 rpcs := (rpcs s)(j := if go_on then RLoop else REnded)\<rparr>)
      | REnded \<Rightarrow> s)"

subsection \<open>main\<close>

definition it_main_step :: "it_env \<Rightarrow> it_opts \<Rightarrow> it_sys \<Rightarrow> it_sys" where
  "it_main_step env opts s =
     (case main_at s of
        MkReader i \<Rightarrow>
          if i < unat (t_readers opts) then
            if t_writers opts = 0 then s\<lparr>it_fault := Some DivideByZero\<rparr>
            else let info = \<lparr>r_writers = t_writers opts, r_readers = t_readers opts,
                             r_seqnos = replicate (unat (t_writers opts)) 0,
                             r_maxseq = t_items opts div t_writers opts - 1\<rparr>
                 in if \<not> seqnos_ok env i then s\<lparr>main_at := Returned 1\<rparr>
                    else if create_reader env i \<noteq> 0 then s\<lparr>main_at := Returned 1\<rparr>
                    else s\<lparr>rinfo := (rinfo s)(i := info), rpcs := (rpcs s)(i := RLoop),
                           main_at := MkReader (Suc i)\<rparr>
          else s\<lparr>main_at := MkWriter 0\<rparr>
      | MkWriter i \<Rightarrow>
          if i < unat (t_writers opts) then
            let maxseq = t_items opts div t_writers opts;
                info = \<lparr>w_loads = (if loads_ok env i
                          then Some (replicate (unat maxseq) \<lparr>p_magic = 0, p_id = 0, p_seqno = 0\<rparr>)
                          else None),
                        w_id = of_nat i, w_maxseq = maxseq\<rparr>
            in if create_writer env i \<noteq> 0 then s\<lparr>main_at := Returned 1\<rparr>
               else s\<lparr>winfo := (winfo s)(i := info), wpcs := (wpcs s)(i := WLoop 0),
                      main_at := MkWriter (Suc i)\<rparr>
          else s\<lparr>main_at := JoinWriter 0\<rparr>
      | JoinWriter i \<Rightarrow>
          if i < unat (t_writers opts)
          then (if wpcs s i = WEnded then s\<lparr>main_at := JoinWriter (Suc i)\<rparr> else s)
          else s\<lparr>main_at := JoinReader 0\<rparr>
      | JoinReader i \<Rightarrow>
          if i < unat (t_readers opts)
          then (if rpcs s i = REnded then s\<lparr>main_at := JoinReader (Suc i)\<rparr> else s)
          else s\<lparr>main_at := Returned 0\<rparr>
      | Returned c \<Rightarrow> s)"

definition it_start :: "it_env \<Rightarrow> it_opts \<Rightarrow> it_sys" where
  "it_start env opts =
     \<lparr>ibs = ib_start (unat (t_items opts)),
      winfo = (\<lambda>_. \<lparr>w_loads = None, w_id = 0, w_maxseq = 0\<rparr>),
      rinfo = (\<lambda>_. \<lparr>r_writers = 0, r_readers = 0, r_seqnos = [], r_maxseq = 0\<rparr>),
      wpcs = (\<lambda>_. WNotStarted), rpcs = (\<lambda>_. RNotStarted),
      main_at = (if snd (infbuffer_init (buf_ok env) (unat (t_items opts)) :: load_ptr infbuffer_s \<times> int) \<noteq> 0
                 then Returned 1 else MkReader 0),
      it_fault = None\<rparr>"

text \<open>A fault, or the return of \<open>main\<close>, ends all threads.\<close>

definition halted :: "it_sys \<Rightarrow> bool" where
  "halted s \<longleftrightarrow> it_fault s \<noteq> None \<or> ib_fault (ibs s) \<noteq> None \<or>
     (case main_at s of Returned _ \<Rightarrow> True | _ \<Rightarrow> False)"

definition it_step :: "it_env \<Rightarrow> it_opts \<Rightarrow> it_sys \<Rightarrow> it_thread \<Rightarrow> it_sys" where
  "it_step env opts s t =
     (if halted s then s
      else case t of
        MainT \<Rightarrow> it_main_step env opts s
      | WriterT i \<Rightarrow> it_writer_step i s
      | ReaderT j \<Rightarrow> it_reader_step j s)"

definition it_run :: "it_env \<Rightarrow> it_opts \<Rightarrow> it_sys \<Rightarrow> it_thread list \<Rightarrow> it_sys" where
  "it_run env opts s sched = foldl (it_step env opts) s sched"

text \<open>
  The program: the status of a call with these options, or the state that the schedule
  leads to.
\<close>

definition test_infbuffer ::
  "it_env \<Rightarrow> (char \<times> string) list \<Rightarrow> it_thread list \<Rightarrow> int + it_sys" where
  "test_infbuffer env args sched =
     (case it_options args it_defaults of
        None \<Rightarrow> Inl 1
      | Some opts \<Rightarrow> Inr (it_run env opts (it_start env opts) sched))"

text \<open>An environment without failures.\<close>

definition good_env :: it_env where
  "good_env = \<lparr>buf_ok = True, seqnos_ok = \<lambda>_. True, loads_ok = \<lambda>_. True,
     create_reader = \<lambda>_. 0, create_writer = \<lambda>_. 0\<rparr>"

section \<open>Steps and runs\<close>

lemma ib_begin_add_simps [simp]:
  "pcs (ib_begin_add i item s) = (pcs s)(i := Adding item (ib_tidx (ib s)))"
  "added (ib_begin_add i item s) = added s @ [item]"
  "removals (ib_begin_add i item s) = removals s" "taken (ib_begin_add i item s) = taken s"
  "ib_fault (ib_begin_add i item s) = ib_fault s"
  by (simp_all add: ib_begin_add_def FETCH_THEN_ADD_def)

lemma ib_begin_rem_simps [simp]:
  "pcs (ib_begin_rem i s) = (pcs s)(i := Removing (ib_ridx (ib s)))"
  "added (ib_begin_rem i s) = added s" "removals (ib_begin_rem i s) = Suc (removals s)"
  "taken (ib_begin_rem i s) = taken s" "ib_fault (ib_begin_rem i s) = ib_fault s"
  by (simp_all add: ib_begin_rem_def FETCH_THEN_ADD_def)

lemma ib_go_simps [simp]:
  "added (ib_go i s) = added s" "removals (ib_go i s) = removals s"
  "k \<noteq> i \<Longrightarrow> pcs (ib_go i s) k = pcs s k"
  by (auto simp: ib_go_def FETCH_THEN_ADD_def split: ib_pc.splits sum.splits)

lemma it_run_simps [simp]:
  "it_run env opts s [] = s"
  "it_run env opts s (t # ts) = it_run env opts (it_step env opts s t) ts"
  "it_run env opts s (ts @ us) = it_run env opts (it_run env opts s ts) us"
  by (simp_all add: it_run_def)

section \<open>Fewer items than writers\<close>

text \<open>
  \<open>items / writers\<close> is then 0: no writer adds anything, and the readers wait for a
  sequence number of at least \<open>2^64 - 1\<close>.
\<close>

definition idle_inv :: "it_opts \<Rightarrow> it_sys \<Rightarrow> bool" where
  "idle_inv opts s \<longleftrightarrow>
     (\<forall>i. wpcs s i = WNotStarted \<or> wpcs s i = WEnded \<or>
        wpcs s i = WLoop 0 \<and> w_maxseq (winfo s i) = 0) \<and>
     ib_widx (ib (ibs s)) = 0 \<and>
     (\<forall>j. rpcs s j = RNotStarted \<or> rpcs s j = RLoop \<or>
        rpcs s j = RIn \<and> (\<exists>idx. pcs (ibs s) (Suc (2 * j)) = Removing idx)) \<and>
     (case main_at s of JoinReader i \<Rightarrow> i = 0 | Returned c \<Rightarrow> c = 1 | _ \<Rightarrow> True)"

lemma ib_go_waits:
  assumes "pcs u i = Removing idx" "ib_widx (ib u) = 0"
  shows "ib_go i u = u"
  using assms by (simp add: ib_go_def)

lemma idle_reader:
  assumes "idle_inv opts s"
  shows "idle_inv opts (it_reader_step j s)"
proof -
  have w: "ib_widx (ib (ibs s)) = 0"
    using assms by (simp add: idle_inv_def)
  have "rpcs s j = RNotStarted \<or> rpcs s j = RLoop \<or>
      rpcs s j = RIn \<and> (\<exists>idx. pcs (ibs s) (Suc (2 * j)) = Removing idx)"
    using assms by (simp add: idle_inv_def)
  then show ?thesis
  proof (elim disjE conjE exE)
    assume pc: "rpcs s j = RLoop"
    have "it_reader_step j s =
        s\<lparr>ibs := ib_begin_rem (Suc (2 * j)) (ibs s), rpcs := (rpcs s)(j := RIn)\<rparr>"
      using pc by (simp add: it_reader_step_def)
    moreover have "ib_widx (ib (ib_begin_rem (Suc (2 * j)) (ibs s))) = ib_widx (ib (ibs s))"
      by (simp add: ib_begin_rem_def FETCH_THEN_ADD_def)
    ultimately show ?thesis
      using assms by (auto simp: idle_inv_def)
  next
    fix idx assume pc: "rpcs s j = RIn" "pcs (ibs s) (Suc (2 * j)) = Removing idx"
    from pc ib_go_waits [OF pc(2) w] have "it_reader_step j s = s"
      by (simp add: it_reader_step_def fun_upd_idem)
    with assms show ?thesis by simp
  qed (use assms in \<open>simp add: it_reader_step_def\<close>)
qed

lemma idle_writer:
  assumes "idle_inv opts s"
  shows "idle_inv opts (it_writer_step i s)"
proof -
  have "wpcs s i = WNotStarted \<or> wpcs s i = WEnded \<or> wpcs s i = WLoop 0 \<and> w_maxseq (winfo s i) = 0"
    using assms by (simp add: idle_inv_def)
  then have "it_writer_step i s = s \<or> it_writer_step i s = s\<lparr>wpcs := (wpcs s)(i := WEnded)\<rparr>"
    by (auto simp: it_writer_step_def)
  moreover have "idle_inv opts (s\<lparr>wpcs := (wpcs s)(i := WEnded)\<rparr>)"
    using assms by (simp add: idle_inv_def)
  ultimately show ?thesis using assms by auto
qed

lemma idle_main:
  assumes "idle_inv opts s" "t_items opts < t_writers opts" "0 < t_readers opts"
  shows "idle_inv opts (it_main_step env opts s)"
proof -
  have div: "t_items opts div t_writers opts = 0"
    using assms(2) by (simp add: word_arith_nat_div word_less_nat_alt)
  have R: "0 < unat (t_readers opts)" using assms(3) by (simp add: word_less_nat_alt)
  have "rpcs s j \<noteq> REnded" for j
    using assms(1) unfolding idle_inv_def by (metis it_rpc.distinct)
  then show ?thesis
    using assms(1) div R by (auto simp: idle_inv_def it_main_step_def Let_def split: it_main_pc.split)
qed

lemma idle_run:
  assumes "t_items opts < t_writers opts" "0 < t_readers opts"
  shows "idle_inv opts (it_run env opts (it_start env opts) sched)"
proof (induction sched rule: rev_induct)
  case Nil
  then show ?case by (simp add: idle_inv_def it_start_def ib_start_def infbuffer_init_def)
next
  case (snoc t ts)
  then show ?case
    using idle_main [OF snoc assms] idle_writer [OF snoc] idle_reader [OF snoc]
    by (cases t) (simp_all add: it_step_def)
qed

section \<open>Properties\<close>

text \<open>
  with fewer items than writers \<open>main\<close> never returns success either (with at least one
  reader): nothing is ever added.
\<close>

theorem infbuffer_test_idle:
  assumes "t_items opts < t_writers opts" and "0 < t_readers opts"
  shows "main_at (it_run env opts (it_start env opts) sched) \<noteq> Returned 0"
  using idle_run [OF assms, of env sched] by (auto simp: idle_inv_def)

theorem infbuffer_test_idle_witness:
  "main_at (it_run good_env \<lparr>t_writers = 3, t_readers = 1, t_items = 2\<rparr>
     (it_start good_env \<lparr>t_writers = 3, t_readers = 1, t_items = 2\<rparr>) [MainT, ReaderT 0]) \<noteq> Returned 0"
  by (rule infbuffer_test_idle) simp_all

text \<open>
  with two writers the program can return success although a reader was handed a null
  pointer, which ends the reader without a word; the \<open>assert\<close> of the next line of
  \<open>thread_reader\<close> can never see one.
\<close>

theorem infbuffer_test_null_unnoticed:
  "\<exists>early late. let opts = \<lparr>t_writers = 2, t_readers = 1, t_items = 2\<rparr>;
       s = it_run good_env opts (it_start good_env opts) early in
     rpcs s 0 = RGot None \<and> main_at (it_run good_env opts s late) = Returned 0"
proof -
  let ?early = "replicate 6 MainT @ [WriterT 0, WriterT 0] @ replicate 4 (WriterT 1) @
    [ReaderT 0, ReaderT 0]"
  let ?late = "[ReaderT 0, WriterT 0, WriterT 0, WriterT 0, WriterT 1] @ replicate 6 MainT"
  have "let opts = \<lparr>t_writers = 2, t_readers = 1, t_items = 2\<rparr>;
       s = it_run good_env opts (it_start good_env opts) ?early in
     rpcs s 0 = RGot None \<and> main_at (it_run good_env opts s ?late) = Returned 0"
    by code_simp
  then show ?thesis by blast
qed

end
