(* ===== verification/Infbuffer_Runs.thy ===== *)
theory Infbuffer_Runs
  imports Infbuffer_Test
begin

text \<open>
  The runs of \<open>test_infbuffer.c\<close> with one writer, the default. The program moves the
  buffer by the steps of its own component, so the invariants of \<open>Infbuffer\<close> carry
  over; the invariant here adds what the writer has filled in, which slot each reader
  has claimed or delivered last, and how far \<open>main\<close> is.

  The properties: the checks of the readers cannot fail; \<open>main\<close> never returns when it
  started more readers than there are last items; and when it started no more, it
  returns under every fair schedule, within a number of rounds that is computed.
\<close>

section \<open>The buffer moves by the steps of the component\<close>

lemma ib_begin_add_step:
  "ib_fault s = None \<Longrightarrow> i \<in> W \<Longrightarrow> pcs s i = Outside \<Longrightarrow> ib_step W s (ib_begin_add i item s)"
  unfolding ib_begin_add_def by (auto simp: FETCH_THEN_ADD_def intro!: ib_step.add_claim)

lemma ib_begin_rem_step:
  "ib_fault s = None \<Longrightarrow> pcs s i = Outside \<Longrightarrow> ib_step W s (ib_begin_rem i s)"
  using ib_step.rem_claim [of s i "ib_ridx (ib s)" "ib_ridx (ib s) + 1" W]
  by (simp add: ib_begin_rem_def FETCH_THEN_ADD_def)

lemma ib_go_step:
  assumes "ib_fault s = None" "pcs s i \<noteq> Outside"
  shows "ib_step W s (ib_go i s)"
proof (cases "pcs s i")
  case (Adding item idx)
  with assms show ?thesis
    by (cases "store_slot (ib s) idx item") (auto simp: ib_go_def intro: ib_step.intros)
next
  case Publishing
  with assms show ?thesis
    by (auto simp: ib_go_def FETCH_THEN_ADD_def intro!: ib_step.add_publish)
next
  case (Removing idx)
  with assms show ?thesis
    by (cases "load_slot (ib s) idx") (auto simp: ib_go_def intro: ib_step.intros)
qed (use assms in simp)

text \<open>Where a thread that is inside the buffer is after its next step.\<close>

lemma ib_go_writer:
  assumes "pcs s i = Adding item idx \<or> pcs s i = Publishing" "ib_fault (ib_go i s) = None"
  shows "taken (ib_go i s) = taken s"
    and "(\<exists>item idx. pcs s i = Adding item idx) \<Longrightarrow> pcs (ib_go i s) i = Publishing"
    and "pcs s i = Publishing \<Longrightarrow> pcs (ib_go i s) i = Outside"
  using assms by (auto simp: ib_go_def FETCH_THEN_ADD_def split: ib_pc.splits sum.splits)

lemma ib_go_reader:
  assumes "pcs s i = Removing idx" "ib_fault (ib_go i s) = None"
  shows "idx \<ge> ib_widx (ib s) \<and> ib_go i s = s \<or>
    idx < ib_widx (ib s) \<and> pcs (ib_go i s) i = Outside \<and>
    (\<exists>v. taken (ib_go i s) = taken s @ [(unat idx, v)])"
  using assms by (auto simp: ib_go_def split: sum.splits if_splits)

section \<open>The invariant of runs with one writer\<close>

text \<open>\<open>N\<close> items and \<open>R\<close> readers; \<open>payload k\<close> is what the writer puts in \<open>loads[k]\<close>.\<close>

definition payload :: "nat \<Rightarrow> payload_s" where
  "payload k = \<lparr>p_magic = MAGIC, p_id = 0, p_seqno = of_nat (Suc k)\<rparr>"

definition writer_inv :: "nat \<Rightarrow> it_sys \<Rightarrow> bool" where
  "writer_inv N s \<longleftrightarrow>
     (let n = length (added (ibs s)); out = (pcs (ibs s) 0 = Outside) in
     added (ibs s) = map (\<lambda>k. Some (0, k)) [0..<n] \<and> n \<le> N \<and>
     (case wpcs s 0 of
        WNotStarted \<Rightarrow> n = 0 \<and> out
      | WLoop q \<Rightarrow> unat q = n \<and> out
      | WFilled q \<Rightarrow> unat q = n \<and> n < N \<and> out
      | WAdding q \<Rightarrow> Suc (unat q) = n \<and>
          ((\<exists>item idx. pcs (ibs s) 0 = Adding item idx) \<or> pcs (ibs s) 0 = Publishing)
      | WEnded \<Rightarrow> n = N \<and> out) \<and>
     (wpcs s 0 \<noteq> WNotStarted \<longrightarrow> w_maxseq (winfo s 0) = of_nat N \<and> w_id (winfo s 0) = 0) \<and>
     (case w_loads (winfo s 0) of
        None \<Rightarrow> n = 0 \<and> (\<forall>q. wpcs s 0 \<noteq> WFilled q)
      | Some l \<Rightarrow> length l = N \<and> (\<forall>k < n. l ! k = payload k) \<and>
          (\<forall>q. wpcs s 0 = WFilled q \<longrightarrow> l ! n = payload n)))"

definition last_seq :: "it_sys \<Rightarrow> nat \<Rightarrow> nat" where
  "last_seq s j = (if rpcs s j = RNotStarted then 0 else unat (r_seqnos (rinfo s j) ! 0))"

definition in_flight :: "it_sys \<Rightarrow> nat \<Rightarrow> nat option" where
  "in_flight s j =
     (case rpcs s j of
        RIn \<Rightarrow> (case pcs (ibs s) (Suc (2 * j)) of Removing idx \<Rightarrow> Some (unat idx) | _ \<Rightarrow> None)
      | RGot item \<Rightarrow> map_option snd item
      | _ \<Rightarrow> None)"

definition reader_inv :: "nat \<Rightarrow> it_sys \<Rightarrow> nat \<Rightarrow> bool" where
  "reader_inv N s j \<longleftrightarrow>
     (rpcs s j \<noteq> RNotStarted \<longrightarrow>
        r_writers (rinfo s j) = 1 \<and> r_maxseq (rinfo s j) = of_nat N - 1 \<and>
        length (r_seqnos (rinfo s j)) = 1) \<and>
     last_seq s j \<le> removals (ibs s) \<and> last_seq s j \<le> N \<and>
     (rpcs s j = REnded \<longleftrightarrow> 1 \<le> last_seq s j \<and> N \<le> Suc (last_seq s j)) \<and>
     (case rpcs s j of
        RIn \<Rightarrow> (\<exists>idx. pcs (ibs s) (Suc (2 * j)) = Removing idx \<and>
                  last_seq s j \<le> unat idx \<and> unat idx < removals (ibs s))
      | RGot item \<Rightarrow> pcs (ibs s) (Suc (2 * j)) = Outside \<and>
          (\<exists>k. item = Some (0, k) \<and> last_seq s j \<le> k \<and> k < length (added (ibs s)) \<and>
               k < removals (ibs s))
      | _ \<Rightarrow> pcs (ibs s) (Suc (2 * j)) = Outside)"

text \<open>The slots of a reader: the one it is about to deliver, and the last one it delivered.\<close>

definition owned :: "it_sys \<Rightarrow> nat \<Rightarrow> nat set" where
  "owned s j = set_option (in_flight s j) \<union> {k. last_seq s j = Suc k}"

definition beyond :: "nat \<Rightarrow> nat \<Rightarrow> it_sys \<Rightarrow> nat set" where
  "beyond N R s = {j. j < R \<and> (\<exists>k. in_flight s j = Some k \<and> N \<le> k)}"

definition slots_inv :: "nat \<Rightarrow> nat \<Rightarrow> it_sys \<Rightarrow> bool" where
  "slots_inv N R s \<longleftrightarrow>
     (\<forall>i j. i \<noteq> j \<longrightarrow> owned s i \<inter> owned s j = {}) \<and>
     (\<forall>k < removals (ibs s). N \<le> k + 2 \<longrightarrow> (\<exists>j < R. k \<in> owned s j)) \<and>
     removals (ibs s) \<le> N + card (beyond N R s)"

definition control_inv :: "nat \<Rightarrow> it_sys \<Rightarrow> bool" where
  "control_inv R s \<longleftrightarrow>
     (\<forall>j. R \<le> j \<longrightarrow> rpcs s j = RNotStarted) \<and> (\<forall>i. 0 < i \<longrightarrow> wpcs s i = WNotStarted) \<and>
     (case main_at s of
        MkReader i \<Rightarrow> i \<le> R \<and> (\<forall>j. rpcs s j = RNotStarted \<longleftrightarrow> i \<le> j) \<and> wpcs s 0 = WNotStarted
      | MkWriter i \<Rightarrow> i \<le> 1 \<and> (\<forall>j < R. rpcs s j \<noteq> RNotStarted) \<and>
          (wpcs s 0 = WNotStarted \<longleftrightarrow> i = 0)
      | JoinWriter i \<Rightarrow> i \<le> 1 \<and> (\<forall>j < R. rpcs s j \<noteq> RNotStarted) \<and> wpcs s 0 \<noteq> WNotStarted \<and>
          (i = 1 \<longrightarrow> wpcs s 0 = WEnded)
      | JoinReader i \<Rightarrow> i \<le> R \<and> (\<forall>j < R. rpcs s j \<noteq> RNotStarted) \<and> wpcs s 0 = WEnded \<and>
          (\<forall>j < i. rpcs s j = REnded)
      | Returned c \<Rightarrow> c = 0 \<longrightarrow> (\<forall>j < R. rpcs s j = REnded))"

definition fault_inv :: "it_env \<Rightarrow> it_sys \<Rightarrow> bool" where
  "fault_inv env s \<longleftrightarrow> ib_fault (ibs s) = None \<and>
     (it_fault s \<noteq> None \<longrightarrow> \<not> loads_ok env 0 \<and> it_fault s = Some Segfault) \<and>
     (wpcs s 0 \<noteq> WNotStarted \<longrightarrow> (w_loads (winfo s 0) = None \<longleftrightarrow> \<not> loads_ok env 0))"

definition it_inv :: "it_env \<Rightarrow> nat \<Rightarrow> nat \<Rightarrow> it_sys \<Rightarrow> bool" where
  "it_inv env N R s \<longleftrightarrow>
     ib_reach {0} N (ibs s) \<and> writer_inv N s \<and> (\<forall>j. reader_inv N s j) \<and> slots_inv N R s \<and>
     control_inv R s \<and> fault_inv env s"

lemma it_inv_start:
  assumes "t_writers opts = 1"
  shows "it_inv env (unat (t_items opts)) (unat (t_readers opts)) (it_start env opts)"
proof -
  have [simp]: "in_flight (it_start env opts) j = None" "last_seq (it_start env opts) j = 0" for j
    by (simp_all add: in_flight_def last_seq_def it_start_def)
  have "slots_inv N R (it_start env opts)" for N R
    by (simp add: slots_inv_def owned_def) (simp add: it_start_def ib_start_def)
  moreover have "reader_inv N (it_start env opts) j" for N j
    by (simp add: reader_inv_def) (simp add: it_start_def ib_start_def)
  moreover have "writer_inv N (it_start env opts)" "control_inv R (it_start env opts)"
    "fault_inv env (it_start env opts)" for N R
    by (simp_all add: writer_inv_def control_inv_def fault_inv_def it_start_def ib_start_def)
  moreover have "ib_reach {0} (unat (t_items opts)) (ibs (it_start env opts))"
    by (simp add: it_start_def ib_reach.start)
  ultimately show ?thesis by (simp add: it_inv_def)
qed

section \<open>Every step keeps the invariant\<close>

text \<open>What a step leaves alone.\<close>

lemma reader_frame:
  assumes "rpcs t j = rpcs s j" "rinfo t j = rinfo s j"
    and "pcs (ibs t) (Suc (2 * j)) = pcs (ibs s) (Suc (2 * j))"
  shows "in_flight t j = in_flight s j" "last_seq t j = last_seq s j" "owned t j = owned s j"
    and "removals (ibs s) \<le> removals (ibs t) \<Longrightarrow> length (added (ibs s)) \<le> length (added (ibs t)) \<Longrightarrow>
      reader_inv N s j \<Longrightarrow> reader_inv N t j"
proof -
  show *: "in_flight t j = in_flight s j" "last_seq t j = last_seq s j"
    unfolding in_flight_def last_seq_def assms by (rule refl)+
  then show "owned t j = owned s j" by (simp add: owned_def)
  show "reader_inv N t j"
    if "removals (ibs s) \<le> removals (ibs t)" "length (added (ibs s)) \<le> length (added (ibs t))"
      "reader_inv N s j"
    using that assms * unfolding reader_inv_def by (auto split: it_rpc.splits)
qed

lemma writer_frame:
  assumes "wpcs t 0 = wpcs s 0" "winfo t 0 = winfo s 0"
    and "added (ibs t) = added (ibs s)" "pcs (ibs t) 0 = pcs (ibs s) 0"
  shows "writer_inv N t = writer_inv N s"
  unfolding writer_inv_def assms ..

lemma it_inv_writer:
  assumes inv: "it_inv env N R s"
    and same: "rpcs t = rpcs s" "rinfo t = rinfo s" "main_at t = main_at s"
      "\<And>j. pcs (ibs t) (Suc (2 * j)) = pcs (ibs s) (Suc (2 * j))"
      "removals (ibs t) = removals (ibs s)" "length (added (ibs s)) \<le> length (added (ibs t))"
    and pc: "wpcs t = (wpcs s)(0 := pc)" "pc \<noteq> WNotStarted" "wpcs s 0 \<noteq> WNotStarted"
      "wpcs s 0 = WEnded \<Longrightarrow> pc = WEnded"
    and new: "ib_reach {0} N (ibs t)" "writer_inv N t" "fault_inv env t"
  shows "it_inv env N R t"
proof -
  note frame = reader_frame [of t _ s]
  have "reader_inv N t j" for j
    using inv same frame(4) [of j N] by (simp add: it_inv_def)
  moreover have "slots_inv N R t"
    using inv same frame(1,3) by (simp add: it_inv_def slots_inv_def beyond_def)
  moreover have "control_inv R t"
    using inv same pc by (auto simp: it_inv_def control_inv_def split: it_main_pc.splits)
  ultimately show ?thesis
    using new by (simp add: it_inv_def)
qed

lemma slots_keep:
  assumes "slots_inv N R s" "removals (ibs t) = removals (ibs s)"
    and "\<And>i. i \<noteq> j \<Longrightarrow> owned t i = owned s i \<and> in_flight t i = in_flight s i"
    and "owned t j \<subseteq> owned s j" "\<And>k. k \<in> owned s j \<Longrightarrow> N \<le> k + 2 \<Longrightarrow> k \<in> owned t j"
    and "\<And>k. in_flight s j = Some k \<Longrightarrow> N \<le> k \<Longrightarrow> in_flight t j = Some k"
  shows "slots_inv N R t"
proof -
  have sub: "owned t i \<subseteq> owned s i" for i
    using assms(3,4) by (cases "i = j") auto
  have keep: "k \<in> owned s i \<Longrightarrow> N \<le> k + 2 \<Longrightarrow> k \<in> owned t i" for i k
    using assms(3,5) by (cases "i = j") auto
  have fl: "in_flight s i = Some k \<Longrightarrow> N \<le> k \<Longrightarrow> in_flight t i = Some k" for i k
    using assms(3,6) by (cases "i = j") auto
  then have "beyond N R s \<subseteq> beyond N R t" by (auto simp: beyond_def)
  then have "card (beyond N R s) \<le> card (beyond N R t)"
    by (rule card_mono [rotated]) (simp add: beyond_def)
  moreover have "owned t i \<inter> owned t i' = {}" if "i \<noteq> i'" for i i'
    using assms(1) sub that unfolding slots_inv_def by blast
  moreover have "removals (ibs s) \<le> N + card (beyond N R s)"
    using assms(1) by (simp add: slots_inv_def)
  moreover have "\<exists>j < R. k \<in> owned t j" if "k < removals (ibs s)" "N \<le> k + 2" for k
    using assms(1) keep that unfolding slots_inv_def by blast
  ultimately show ?thesis
    using assms(2) by (simp add: slots_inv_def)
qed

lemma slots_claim:
  assumes "slots_inv N R s" "removals (ibs t) = Suc (removals (ibs s))" "j < R"
    and "\<And>i. i \<noteq> j \<Longrightarrow> owned t i = owned s i \<and> in_flight t i = in_flight s i"
    and "in_flight s j = None" "in_flight t j = Some (removals (ibs s))"
    and "owned t j = insert (removals (ibs s)) (owned s j)"
    and "\<And>i k. k \<in> owned s i \<Longrightarrow> k < removals (ibs s)"
  shows "slots_inv N R t"
proof -
  let ?r = "removals (ibs s)"
  have own: "owned t i = (if i = j then insert ?r (owned s i) else owned s i)" for i
    using assms(4,7) by simp
  have dis: "owned s i \<inter> owned s i' = {}" if "i \<noteq> i'" for i i'
    using assms(1) that by (simp add: slots_inv_def)
  have new: "?r \<notin> owned s i" for i
    using assms(8) by blast
  have "owned t i \<inter> owned t i' = {}" if "i \<noteq> i'" for i i'
    using dis [OF that] new that by (auto simp: own)
  moreover have "\<exists>j < R. k \<in> owned t j" if "k < Suc ?r" "N \<le> k + 2" for k
  proof (cases "k = ?r")
    case True
    then show ?thesis using assms(3) own by auto
  next
    case False
    with that have "k < ?r" by simp
    with that assms(1) obtain i where "i < R" "k \<in> owned s i"
      by (auto simp: slots_inv_def)
    then have "i < R \<and> k \<in> owned t i" using own by (cases "i = j") simp_all
    then show ?thesis by blast
  qed
  moreover have "Suc ?r \<le> N + card (beyond N R t)"
  proof (cases "N \<le> ?r")
    case True
    have "beyond N R t = insert j (beyond N R s)"
      using assms(3,4,5,6) True by (auto simp: beyond_def) (metis option.inject)+
    moreover have "j \<notin> beyond N R s" using assms(5) by (simp add: beyond_def)
    ultimately have "card (beyond N R t) = Suc (card (beyond N R s))"
      by (simp add: beyond_def)
    then show ?thesis using assms(1) by (simp add: slots_inv_def)
  qed simp
  ultimately show ?thesis
    unfolding slots_inv_def assms(2) by blast
qed

text \<open>Slots are below the number of removals.\<close>

lemma owned_less:
  assumes "reader_inv N s j" "k \<in> owned s j"
  shows "k < removals (ibs s)"
  using assms by (auto simp: owned_def reader_inv_def in_flight_def split: it_rpc.splits ib_pc.splits)

text \<open>The counters while a run has not failed.\<close>

lemma ridx_removals:
  assumes "it_inv env N R s" "N < 2 ^ 62" "R < 2 ^ 62"
  shows "unat (ib_ridx (ib (ibs s))) = removals (ibs s)" "removals (ibs s) \<le> N + R"
proof -
  have "beyond N R s \<subseteq> {..<R}" by (auto simp: beyond_def)
  then have "card (beyond N R s) \<le> R"
    using card_mono [of "{..<R}" "beyond N R s"] by simp
  then show "removals (ibs s) \<le> N + R"
    using assms(1) by (simp add: it_inv_def slots_inv_def)
  with assms show "unat (ib_ridx (ib (ibs s))) = removals (ibs s)"
    using removals_inv_reach [of "{0}" N "ibs s"]
    by (simp add: it_inv_def removals_inv_def unat_of_nat)
qed

lemma single_inv_taken:
  assumes "single_inv w N u" "(k, v) \<in> set (taken u)"
  shows "k < length (added u) \<and> v = added u ! k"
  using assms by (fastforce simp: single_inv_def Let_def split: ib_pc.splits)

lemma no_buffer_fault:
  assumes "ib_reach {0} N u" "N < 2 ^ 62" "length (added u) \<le> N"
  shows "ib_fault u = None"
  using single_inv_reach [OF assms(1)] assms(2,3) by (auto simp: single_inv_def Let_def)

lemma writer_step_inv:
  assumes inv: "it_inv env N R s" and N: "N < 2 ^ 62" and run: "\<not> halted s"
  shows "it_inv env N R (it_writer_step i s)"
proof (cases "wpcs s i = WNotStarted \<or> wpcs s i = WEnded")
  case True
  then have "it_writer_step i s = s" by (auto simp: it_writer_step_def)
  with inv show ?thesis by simp
next
  case False
  then have i: "i = 0" and started: "wpcs s 0 \<noteq> WNotStarted"
    using inv by (cases "i = 0"; auto simp: it_inv_def control_inv_def)+
  have w: "writer_inv N s" and f: "fault_inv env s" and r: "ib_reach {0} N (ibs s)"
    using inv by (simp_all add: it_inv_def)
  have nf: "ib_fault (ibs s) = None" "it_fault s = None"
    using run by (auto simp: halted_def)
  let ?n = "length (added (ibs s))"
  show ?thesis unfolding i
  proof (cases "wpcs s 0")
    case (WLoop q)
    then have n: "unat q = ?n" "?n \<le> N" "w_maxseq (winfo s 0) = of_nat N" "w_id (winfo s 0) = 0"
      "pcs (ibs s) 0 = Outside"
      using w by (auto simp: writer_inv_def Let_def)
    show "it_inv env N R (it_writer_step 0 s)"
    proof (cases "q < of_nat N")
      case True
      then have less: "?n < N" using n N by (simp add: word_less_nat_alt unat_of_nat)
      show ?thesis
      proof (cases "w_loads (winfo s 0)")
        case None
        then have "\<not> loads_ok env 0" using f started by (simp add: fault_inv_def)
        then show ?thesis
          using WLoop True None n w f r started
          by (intro it_inv_writer [OF inv, where pc = "WLoop q"])
            (auto simp: it_writer_step_def fill_load_def fault_inv_def writer_inv_def Let_def)
      next
        case (Some l)
        then have l: "length l = N" "\<forall>k < ?n. l ! k = payload k"
          using w by (simp_all add: writer_inv_def Let_def)
        have q: "q + 1 = of_nat (Suc ?n)"
          by (simp add: n(1) [symmetric] add.commute)
        show ?thesis
          using WLoop True Some n w f r started l less q
          by (intro it_inv_writer [OF inv, where pc = "WFilled q"])
            (auto simp: it_writer_step_def fill_load_def fault_inv_def writer_inv_def Let_def payload_def)
      qed
    next
      case False
      then have "?n = N" using n N by (simp add: word_less_nat_alt unat_of_nat)
      then show ?thesis
        using WLoop False n w f r started
        by (intro it_inv_writer [OF inv, where pc = WEnded])
          (auto simp: it_writer_step_def fault_inv_def writer_inv_def Let_def split: option.splits)
    qed
  next
    case (WFilled q)
    have reach: "ib_reach {0} N (ib_begin_add 0 (Some (0, unat q)) (ibs s))"
      using r nf WFilled w
      by (intro ib_reach.step [OF r] ib_begin_add_step) (auto simp: writer_inv_def Let_def)
    show "it_inv env N R (it_writer_step 0 s)"
      using WFilled w f reach started
      by (intro it_inv_writer [OF inv, where pc = "WAdding q"])
        (auto simp: it_writer_step_def fault_inv_def writer_inv_def Let_def less_Suc_eq split: option.splits)
  next
    case (WAdding q)
    then have pc: "(\<exists>item idx. pcs (ibs s) 0 = Adding item idx) \<or> pcs (ibs s) 0 = Publishing"
      and n: "Suc (unat q) = ?n" "?n \<le> N"
      using w by (auto simp: writer_inv_def Let_def)
    let ?u = "ib_go 0 (ibs s)"
    have reach: "ib_reach {0} N ?u"
      using nf pc by (intro ib_reach.step [OF r] ib_go_step) auto
    then have nfu: "ib_fault ?u = None"
      by (rule no_buffer_fault) (use N n in simp_all)
    have pcu: "pcs ?u 0 = Publishing \<or> pcs ?u 0 = Outside"
      using pc ib_go_writer(2,3) [OF _ nfu] by auto
    have q: "unat (q + 1) = ?n"
      using n N by (simp add: unat_word_ariths)
    show "it_inv env N R (it_writer_step 0 s)"
      using WAdding w f reach started pcu nfu q n
      by (intro it_inv_writer [OF inv, where pc = "if pcs ?u 0 = Outside then WLoop (q + 1) else WAdding q"])
        (auto simp: it_writer_step_def fault_inv_def writer_inv_def Let_def split: option.splits)
  qed (use False i in simp_all)
qed

lemma it_inv_reader:
  assumes inv: "it_inv env N R s" and j: "rpcs s j \<noteq> RNotStarted" "rpcs s j \<noteq> REnded"
    and same: "wpcs t = wpcs s" "winfo t = winfo s" "main_at t = main_at s" "it_fault t = it_fault s"
      "added (ibs t) = added (ibs s)" "removals (ibs s) \<le> removals (ibs t)"
      "\<And>i. i \<noteq> Suc (2 * j) \<Longrightarrow> pcs (ibs t) i = pcs (ibs s) i"
    and pc: "rpcs t = (rpcs s)(j := pc)" "pc \<noteq> RNotStarted" "rinfo t = (rinfo s)(j := info)"
    and new: "ib_reach {0} N (ibs t)" "ib_fault (ibs t) = None" "reader_inv N t j" "slots_inv N R t"
  shows "it_inv env N R t"
proof -
  have "reader_inv N t i" for i
  proof (cases "i = j")
    case False
    then have "reader_inv N s i \<Longrightarrow> reader_inv N t i"
      using same pc by (intro reader_frame(4) [of t i s]) simp_all
    then show ?thesis using inv by (simp add: it_inv_def)
  qed (use new in simp)
  moreover have "control_inv R t"
    using inv same(1,3) pc j by (auto simp: it_inv_def control_inv_def split: it_main_pc.splits)
  moreover have "fault_inv env t"
    using inv same new(2) by (simp add: it_inv_def fault_inv_def)
  moreover have "writer_inv N t"
    using inv writer_frame [of t s N] same by (simp add: it_inv_def)
  ultimately show ?thesis
    using new by (simp add: it_inv_def)
qed

lemma other_readers:
  assumes "rpcs t = (rpcs s)(j := pc)" "rinfo t = (rinfo s)(j := info)"
    and "\<And>i. i \<noteq> Suc (2 * j) \<Longrightarrow> pcs (ibs t) i = pcs (ibs s) i" and "i \<noteq> j"
  shows "owned t i = owned s i \<and> in_flight t i = in_flight s i"
  using reader_frame(1,3) [of t i s] assms by simp

lemma reader_claims_inv:
  assumes inv: "it_inv env N R s" and N: "N < 2 ^ 62" "R < 2 ^ 62" and run: "\<not> halted s"
    and pc: "rpcs s j = RLoop"
  shows "it_inv env N R (it_reader_step j s)"
proof -
  let ?t = "it_reader_step j s"
  have t: "?t = s\<lparr>ibs := ib_begin_rem (Suc (2 * j)) (ibs s), rpcs := (rpcs s)(j := RIn)\<rparr>"
    using pc by (simp add: it_reader_step_def)
  have rj: "reader_inv N s j" and jR: "j < R"
    using inv pc by (auto simp: it_inv_def control_inv_def not_less [symmetric])
  have out: "pcs (ibs s) (Suc (2 * j)) = Outside"
    using rj pc by (simp add: reader_inv_def)
  have idx: "unat (ib_ridx (ib (ibs s))) = removals (ibs s)"
    by (rule ridx_removals [OF inv N])
  have last: "last_seq ?t j = last_seq s j"
    using pc by (simp add: t last_seq_def)
  have fl: "in_flight s j = None" "in_flight ?t j = Some (removals (ibs s))"
    using pc idx by (simp_all add: t in_flight_def)
  have reach: "ib_reach {0} N (ibs ?t)"
    using inv run out by (auto simp: t it_inv_def halted_def intro: ib_reach.step ib_begin_rem_step)
  have "slots_inv N R ?t"
  proof (rule slots_claim [where j = j])
    show "slots_inv N R s" using inv by (simp add: it_inv_def)
    show "k < removals (ibs s)" if "k \<in> owned s i" for i k
      using inv owned_less [OF _ that, of N] by (simp add: it_inv_def)
    show "owned ?t i = owned s i \<and> in_flight ?t i = in_flight s i" if "i \<noteq> j" for i
      by (rule other_readers [where j = j and info = "rinfo s j" and pc = RIn])
        (use that in \<open>simp_all add: t\<close>)
    show "owned ?t j = insert (removals (ibs s)) (owned s j)"
      by (simp add: owned_def fl last)
  qed (simp_all add: t jR fl [unfolded t])
  moreover have "reader_inv N ?t j"
    using rj pc idx last by (simp add: reader_inv_def t)
  ultimately show ?thesis
    using inv run reach pc
    by (intro it_inv_reader [OF inv, where j = j and pc = RIn and info = "rinfo s j"])
      (simp_all add: t it_inv_def halted_def)
qed

lemma reader_moves_inv:
  assumes inv: "it_inv env N R s" and N: "N < 2 ^ 62" "R < 2 ^ 62" and run: "\<not> halted s"
    and pc: "rpcs s j = RIn"
  shows "it_inv env N R (it_reader_step j s)"
proof -
  let ?t = "it_reader_step j s" and ?u = "ib_go (Suc (2 * j)) (ibs s)"
  have rj: "reader_inv N s j" and w: "writer_inv N s" and r: "ib_reach {0} N (ibs s)"
    using inv by (simp_all add: it_inv_def)
  from rj pc obtain idx where idx: "pcs (ibs s) (Suc (2 * j)) = Removing idx"
    "last_seq s j \<le> unat idx" "unat idx < removals (ibs s)"
    by (auto simp: reader_inv_def)
  have reach: "ib_reach {0} N ?u"
    using run idx by (intro ib_reach.step [OF r] ib_go_step) (simp_all add: halted_def)
  have n: "length (added ?u) \<le> N" using w by (simp add: writer_inv_def Let_def)
  have nf: "ib_fault ?u = None" by (rule no_buffer_fault [OF reach N(1) n])
  from ib_go_reader [OF idx(1) nf] show ?thesis
  proof (elim disjE conjE exE)
    assume "?u = ibs s"
    then have "?t = s" using pc idx by (simp add: it_reader_step_def fun_upd_idem)
    then show ?thesis using inv by simp
  next
    fix v assume out: "pcs ?u (Suc (2 * j)) = Outside" and v: "taken ?u = taken (ibs s) @ [(unat idx, v)]"
    have t: "?t = s\<lparr>ibs := ?u, rpcs := (rpcs s)(j := RGot v)\<rparr>"
      using pc out v by (simp add: it_reader_step_def)
    have s1: "single_inv 0 N ?u" by (rule single_inv_reach [OF reach]) (use N in simp)
    then have k0: "unat idx < length (added ?u)" "v = added ?u ! unat idx"
      using single_inv_taken [of 0 N ?u "unat idx" v] v by simp_all
    have "added (ibs s) = map (\<lambda>k. Some (0, k)) [0..<length (added (ibs s))]"
      using w by (simp add: writer_inv_def Let_def)
    then have "added (ibs s) ! unat idx = Some (0, unat idx)"
      using k0(1) by (metis ib_go_simps(1) nth_map_upt add_0 diff_zero)
    then have k: "unat idx < length (added (ibs s))" "v = Some (0, unat idx)"
      using k0 by simp_all
    have last: "last_seq ?t j = last_seq s j" using pc by (simp add: t last_seq_def)
    have fl: "in_flight s j = Some (unat idx)" "in_flight ?t j = Some (unat idx)"
      using pc idx k by (simp_all add: t in_flight_def)
    have "slots_inv N R ?t"
    proof (rule slots_keep [where j = j])
      show "slots_inv N R s" using inv by (simp add: it_inv_def)
      show "owned ?t i = owned s i \<and> in_flight ?t i = in_flight s i" if "i \<noteq> j" for i
        by (rule other_readers [where j = j and info = "rinfo s j" and pc = "RGot v"])
          (use that in \<open>simp_all add: t\<close>)
    qed (simp_all add: owned_def fl last, simp_all add: t)
    moreover have "reader_inv N ?t j"
      using rj pc idx last k out by (simp add: reader_inv_def t)
    ultimately show ?thesis
      using run reach pc nf
      by (intro it_inv_reader [OF inv, where j = j and pc = "RGot v" and info = "rinfo s j"])
        (simp_all add: t halted_def)
  qed
qed

text \<open>What the body of the loop does with an item of the one writer.\<close>

lemma reader_body_payload:
  assumes "deref p = Inr (payload k)" "r_writers info = 1" "length (r_seqnos info) = 1"
    and "unat (r_seqnos info ! 0) \<le> k" "k < N" "N < 2 ^ 62" "r_maxseq info = of_nat N - 1"
  shows "reader_body deref info (Some p) =
    Inr (info\<lparr>r_seqnos := [of_nat (Suc k)]\<rparr>, k + 2 < N)"
proof -
  have k: "unat (of_nat (Suc k) :: size_t) = Suc k"
    using assms by (simp add: unat_of_nat del: of_nat_Suc)
  have "unat (of_nat N - 1 :: size_t) = N - 1"
    using assms by (simp add: unat_sub word_le_nat_alt unat_of_nat)
  then have "(of_nat (Suc k) < (of_nat N - 1 :: size_t)) = (k + 2 < N)"
    using assms(5) by (auto simp: word_less_nat_alt k simp del: of_nat_Suc)
  moreover have "r_seqnos info ! 0 < of_nat (Suc k)"
    using assms(4) by (simp add: word_less_nat_alt k del: of_nat_Suc)
  moreover obtain x where "r_seqnos info = [x]"
    using assms(3) by (auto simp: length_Suc_conv)
  ultimately show ?thesis
    using assms(1,2,7) by (simp add: payload_def del: of_nat_Suc)
qed

lemma reader_body_inv:
  assumes inv: "it_inv env N R s" and N: "N < 2 ^ 62" "R < 2 ^ 62" and run: "\<not> halted s"
    and pc: "rpcs s j = RGot item"
  shows "it_inv env N R (it_reader_step j s)"
    and "\<exists>info b. it_reader_step j s =
      s\<lparr>rinfo := (rinfo s)(j := info), rpcs := (rpcs s)(j := if b then RLoop else REnded)\<rparr>"
proof -
  let ?t = "it_reader_step j s"
  have rj: "reader_inv N s j" and w: "writer_inv N s"
    using inv by (simp_all add: it_inv_def)
  from rj pc obtain k where k: "item = Some (0, k)" "last_seq s j \<le> k" "k < length (added (ibs s))"
    "k < removals (ibs s)" and out: "pcs (ibs s) (Suc (2 * j)) = Outside"
    by (auto simp: reader_inv_def)
  have kN: "k < N" using w k by (simp add: writer_inv_def Let_def)
  have info: "r_writers (rinfo s j) = 1" "length (r_seqnos (rinfo s j)) = 1"
    "r_maxseq (rinfo s j) = of_nat N - 1" "unat (r_seqnos (rinfo s j) ! 0) \<le> k"
    using rj pc k by (auto simp: reader_inv_def last_seq_def)
  have "load_at s (0, k) = Inr (payload k)"
    using w k kN by (auto simp: writer_inv_def Let_def load_at_def split: option.splits)
  then have t: "?t = s\<lparr>rinfo := (rinfo s)(j := (rinfo s j)\<lparr>r_seqnos := [of_nat (Suc k)]\<rparr>),
      rpcs := (rpcs s)(j := if k + 2 < N then RLoop else REnded)\<rparr>"
    using reader_body_payload [of "load_at s" "(0, k)" k "rinfo s j" N] info kN N pc k
    by (simp add: it_reader_step_def del: reader_body.simps of_nat_Suc)
  then show "\<exists>info b. ?t =
      s\<lparr>rinfo := (rinfo s)(j := info), rpcs := (rpcs s)(j := if b then RLoop else REnded)\<rparr>" by blast
  have last: "last_seq ?t j = Suc k"
    using kN N by (simp add: t last_seq_def unat_of_nat del: of_nat_Suc)
  have fl: "in_flight s j = Some k" "in_flight ?t j = None"
    using pc k by (simp_all add: t in_flight_def)
  have notend: "\<not> (1 \<le> last_seq s j \<and> N \<le> Suc (last_seq s j))"
    using rj pc by (simp add: reader_inv_def)
  have "slots_inv N R ?t"
  proof (rule slots_keep [where j = j])
    show "slots_inv N R s" using inv by (simp add: it_inv_def)
    show "owned ?t i = owned s i \<and> in_flight ?t i = in_flight s i" if "i \<noteq> j" for i
      by (rule other_readers [where j = j]) (use that in \<open>simp_all add: t\<close>)
    show "i \<in> owned ?t j" if "i \<in> owned s j" "N \<le> i + 2" for i
      using that notend by (auto simp: owned_def fl last)
    show "owned ?t j \<subseteq> owned s j" by (auto simp: owned_def fl last)
    show "in_flight ?t j = Some i" if "in_flight s j = Some i" "N \<le> i" for i
      using that fl kN by simp
    show "removals (ibs ?t) = removals (ibs s)" by (simp add: t)
  qed
  moreover have "reader_inv N ?t j"
    using rj pc k out kN last by (auto simp: reader_inv_def t simp del: of_nat_Suc)
  ultimately show "it_inv env N R ?t"
    using inv run pc
    by (intro it_inv_reader [OF inv, where j = j and pc = "if k + 2 < N then RLoop else REnded" and
          info = "(rinfo s j)\<lparr>r_seqnos := [of_nat (Suc k)]\<rparr>"])
      (simp_all add: t halted_def it_inv_def del: of_nat_Suc)
qed

lemma reader_step_inv:
  assumes "it_inv env N R s" "N < 2 ^ 62" "R < 2 ^ 62" "\<not> halted s"
  shows "it_inv env N R (it_reader_step j s)"
proof (cases "rpcs s j")
  case RLoop with assms show ?thesis by (rule reader_claims_inv)
next
  case RIn with assms show ?thesis by (rule reader_moves_inv)
next
  case (RGot item) with assms show ?thesis by (rule reader_body_inv)
qed (use assms(1) in \<open>simp_all add: it_reader_step_def\<close>)

lemma main_step_inv:
  assumes inv: "it_inv env (unat (t_items opts)) (unat (t_readers opts)) s"
    and W: "t_writers opts = 1" and run: "\<not> halted s"
  shows "it_inv env (unat (t_items opts)) (unat (t_readers opts)) (it_main_step env opts s)"
    (is "it_inv env ?N ?R ?t")
proof -
  have sub: "it_inv env ?N ?R (s\<lparr>main_at := pc\<rparr>)" if "control_inv ?R (s\<lparr>main_at := pc\<rparr>)" for pc
  proof -
    let ?u = "s\<lparr>main_at := pc\<rparr>"
    have "in_flight ?u = in_flight s" "last_seq ?u = last_seq s" "owned ?u = owned s"
      by (rule ext, rule reader_frame; simp)+
    then show ?thesis
      using inv that reader_frame(4) [of ?u _ s ?N] writer_frame [of ?u s ?N]
      by (simp add: it_inv_def slots_inv_def beyond_def fault_inv_def)
  qed
  show ?thesis
  proof (cases "main_at s")
    case (MkReader i)
    then have c: "i \<le> ?R" "\<forall>j. rpcs s j = RNotStarted \<longleftrightarrow> i \<le> j" "wpcs s 0 = WNotStarted"
      "\<forall>i > 0. wpcs s i = WNotStarted"
      using inv by (simp_all add: it_inv_def control_inv_def)
    show ?thesis
    proof (cases "i < ?R \<and> seqnos_ok env i \<and> create_reader env i = 0")
      case True
      let ?info = "\<lparr>r_writers = 1, r_readers = t_readers opts, r_seqnos = [0], r_maxseq = t_items opts - 1\<rparr>"
      have t: "?t = s\<lparr>rinfo := (rinfo s)(i := ?info), rpcs := (rpcs s)(i := RLoop), main_at := MkReader (Suc i)\<rparr>"
        using MkReader True W by (simp add: it_main_step_def)
      have ri: "reader_inv ?N s i" "rpcs s i = RNotStarted"
        using inv c by (simp_all add: it_inv_def)
      have last: "last_seq ?t i = 0" "last_seq s i = 0" "in_flight ?t i = None" "in_flight s i = None"
        using ri(2) by (simp_all add: t last_seq_def in_flight_def)
      have ri': "reader_inv ?N ?t i"
        using ri last by (simp add: reader_inv_def t)
      have oth: "owned ?t j = owned s j \<and> in_flight ?t j = in_flight s j" if "j \<noteq> i" for j
        by (rule other_readers [where j = i]) (use that in \<open>simp_all add: t\<close>)
      have "reader_inv ?N ?t j" for j
      proof (cases "j = i")
        case False
        then show ?thesis
          using inv by (intro reader_frame(4) [of ?t j s]) (simp_all add: t it_inv_def)
      qed (simp add: ri')
      moreover have "slots_inv ?N ?R ?t"
      proof (rule slots_keep [where j = i])
        show "slots_inv ?N ?R s" using inv by (simp add: it_inv_def)
        show "removals (ibs ?t) = removals (ibs s)" by (simp add: t)
        show "owned ?t j = owned s j \<and> in_flight ?t j = in_flight s j" if "j \<noteq> i" for j
          using that by (rule oth)
      qed (use last in \<open>simp_all add: owned_def\<close>)
      moreover have "control_inv ?R ?t"
        using c True by (auto simp: control_inv_def t)
      ultimately show ?thesis
        using inv writer_frame [of ?t s ?N] by (simp add: it_inv_def t fault_inv_def)
    next
      case False
      have "?t = s\<lparr>main_at := MkWriter 0\<rparr> \<and> i = ?R \<or> ?t = s\<lparr>main_at := Returned 1\<rparr>"
        using MkReader False W c(1) by (auto simp: it_main_step_def Let_def)
      then show ?thesis
        using c inv by (elim disjE) (auto simp: control_inv_def intro!: sub)
    qed
  next
    case (MkWriter i)
    then have c: "i \<le> 1" "\<forall>j < ?R. rpcs s j \<noteq> RNotStarted" "wpcs s 0 = WNotStarted \<longleftrightarrow> i = 0"
      "\<forall>i > 0. wpcs s i = WNotStarted" "\<forall>j. ?R \<le> j \<longrightarrow> rpcs s j = RNotStarted"
      using inv by (simp_all add: it_inv_def control_inv_def)
    show ?thesis
    proof (cases "i = 0 \<and> create_writer env 0 = 0")
      case True
      let ?info = "\<lparr>w_loads = (if loads_ok env 0
        then Some (replicate ?N \<lparr>p_magic = 0, p_id = 0, p_seqno = 0\<rparr>) else None),
        w_id = 0, w_maxseq = t_items opts\<rparr>"
      have t: "?t = s\<lparr>winfo := (winfo s)(0 := ?info), wpcs := (wpcs s)(0 := WLoop 0), main_at := MkWriter 1\<rparr>"
        using MkWriter True W by (simp add: it_main_step_def Let_def)
      have "in_flight ?t = in_flight s" "last_seq ?t = last_seq s" "owned ?t = owned s"
        by (rule ext, rule reader_frame; simp add: t)+
      then have "slots_inv ?N ?R ?t" "\<forall>j. reader_inv ?N ?t j"
        using inv reader_frame(4) [of ?t _ s ?N] by (simp_all add: it_inv_def slots_inv_def beyond_def t)
      moreover have "control_inv ?R ?t"
        using c by (auto simp: control_inv_def t)
      moreover have "length (added (ibs s)) = 0" "pcs (ibs s) 0 = Outside"
        using inv c True by (auto simp: it_inv_def writer_inv_def Let_def)
      then have "writer_inv ?N ?t"
        by (simp add: writer_inv_def t)
      ultimately show ?thesis
        using inv run by (simp add: it_inv_def t fault_inv_def halted_def)
    next
      case False
      then have "?t = s\<lparr>main_at := JoinWriter 0\<rparr> \<and> i = 1 \<or> ?t = s\<lparr>main_at := Returned 1\<rparr>"
        using MkWriter W c(1) by (cases "i = 0") (auto simp: it_main_step_def Let_def)
      then show ?thesis
        using c by (elim disjE) (auto simp: control_inv_def intro!: sub)
    qed
  next
    case (JoinWriter i)
    then show ?thesis
      using inv W sub by (auto simp: it_main_step_def it_inv_def control_inv_def)
  next
    case (JoinReader i)
    then show ?thesis
      using inv sub by (auto simp: it_main_step_def it_inv_def control_inv_def less_Suc_eq)
  next
    case (Returned c)
    then show ?thesis using inv by (simp add: it_main_step_def)
  qed
qed

text \<open>Every reachable state.\<close>

lemma it_step_inv:
  assumes "it_inv env (unat (t_items opts)) (unat (t_readers opts)) s" "t_writers opts = 1"
    and "t_items opts < 2 ^ 62" "t_readers opts < 2 ^ 62"
  shows "it_inv env (unat (t_items opts)) (unat (t_readers opts)) (it_step env opts s t)"
proof (cases "halted s")
  case True
  with assms show ?thesis by (simp add: it_step_def)
next
  case False
  have "unat (t_items opts) < 2 ^ 62" "unat (t_readers opts) < 2 ^ 62"
    using assms(3,4) by (simp_all add: word_less_nat_alt)
  with False assms show ?thesis
    by (cases t) (simp_all add: it_step_def main_step_inv writer_step_inv reader_step_inv)
qed

lemma it_run_inv:
  assumes "t_writers opts = 1" "t_items opts < 2 ^ 62" "t_readers opts < 2 ^ 62"
  shows "it_inv env (unat (t_items opts)) (unat (t_readers opts)) (it_run env opts (it_start env opts) sched)"
proof (induction sched rule: rev_induct)
  case Nil
  then show ?case using it_inv_start [OF assms(1)] by simp
next
  case (snoc t ts)
  with it_step_inv [OF _ assms] show ?case by simp
qed

section \<open>No more than two readers end\<close>

lemma ended_readers:
  assumes "it_inv env N R s"
  shows "card {j. rpcs s j = REnded} \<le> min 2 N"
proof -
  let ?E = "{j. rpcs s j = REnded}"
  have r: "reader_inv N s j" for j using assms by (simp add: it_inv_def)
  have seq: "1 \<le> last_seq s j" "N \<le> Suc (last_seq s j)" "last_seq s j \<le> N" if "rpcs s j = REnded" for j
    using r [of j] that by (auto simp: reader_inv_def)
  have inj: "inj_on (last_seq s) ?E"
  proof (rule inj_onI)
    fix i j assume "i \<in> ?E" "j \<in> ?E" "last_seq s i = last_seq s j"
    then have "last_seq s j - 1 \<in> owned s i \<inter> owned s j"
      using seq [of i] by (auto simp: owned_def)
    then show "i = j" using assms by (auto simp: it_inv_def slots_inv_def)
  qed
  have sub: "last_seq s ` ?E \<subseteq> {max 1 (N - 1)..N}"
    using seq by fastforce
  have "card ?E = card (last_seq s ` ?E)" using inj by (simp add: card_image)
  also have "\<dots> \<le> card {max 1 (N - 1)..N}" using sub by (intro card_mono) simp_all
  also have "\<dots> \<le> min 2 N" by (cases N) auto
  finally show ?thesis .
qed

lemma main_waits:
  assumes "it_inv env N R s" "R > min 2 N"
  shows "main_at s \<noteq> Returned 0"
proof
  assume "main_at s = Returned 0"
  then have "{..<R} \<subseteq> {j. rpcs s j = REnded}"
    using assms(1) by (auto simp: it_inv_def control_inv_def)
  moreover have "finite {j. rpcs s j = REnded}"
    by (rule finite_subset [of _ "{..<R}"])
      (use assms(1) in \<open>auto simp: it_inv_def control_inv_def not_less [symmetric]\<close>)
  ultimately have "R \<le> card {j. rpcs s j = REnded}"
    using card_mono [of "{j. rpcs s j = REnded}" "{..<R}"] by simp
  with ended_readers [OF assms(1)] assms(2) show False by linarith
qed

section \<open>Some thread can always go on\<close>

lemma stuck_reader:
  assumes inv: "it_inv env N R s" and run: "\<not> halted s" and stuck: "it_reader_step j s = s"
    and pc: "rpcs s j \<noteq> RNotStarted" "rpcs s j \<noteq> REnded" and N: "N < 2 ^ 62" "R < 2 ^ 62"
    and all: "unat (ib_widx (ib (ibs s))) = N"
  shows "\<exists>k. in_flight s j = Some k \<and> N \<le> k"
proof (cases "rpcs s j")
  case RLoop
  then have "rpcs (it_reader_step j s) j = RIn" by (simp add: it_reader_step_def)
  with RLoop stuck show ?thesis by simp
next
  case (RGot item)
  from reader_body_inv(2) [OF inv N run this] obtain info b where
    "it_reader_step j s = s\<lparr>rinfo := (rinfo s)(j := info), rpcs := (rpcs s)(j := if b then RLoop else REnded)\<rparr>"
    by blast
  then have "rpcs (it_reader_step j s) j \<noteq> rpcs s j" using RGot by simp
  with stuck show ?thesis by simp
next
  case RIn
  have "reader_inv N s j" using inv by (simp add: it_inv_def)
  with RIn obtain idx where idx: "pcs (ibs s) (Suc (2 * j)) = Removing idx"
    by (auto simp: reader_inv_def)
  have "ibs (it_reader_step j s) = ib_go (Suc (2 * j)) (ibs s)"
    using RIn by (simp add: it_reader_step_def Let_def)
  then have same: "ib_go (Suc (2 * j)) (ibs s) = ibs s" using stuck by simp
  have "idx \<ge> ib_widx (ib (ibs s))"
    using ib_go_reader [of "ibs s" "Suc (2 * j)" idx] idx run same by (auto simp: halted_def)
  then show ?thesis
    using RIn idx all by (simp add: in_flight_def word_le_nat_alt)
qed (use pc in simp_all)

lemma stuck_writer:
  assumes inv: "it_inv env N R s" and N: "N < 2 ^ 62" and run: "\<not> halted s"
    and stuck: "it_writer_step 0 s = s" and started: "wpcs s 0 \<noteq> WNotStarted" and ok: "loads_ok env 0"
  shows "wpcs s 0 = WEnded" "unat (ib_widx (ib (ibs s))) = N"
proof -
  have w: "writer_inv N s" and r: "ib_reach {0} N (ibs s)" and f: "fault_inv env s"
    using inv by (simp_all add: it_inv_def)
  show ended: "wpcs s 0 = WEnded"
  proof (cases "wpcs s 0")
    case (WLoop q)
    then have "wpcs (it_writer_step 0 s) 0 \<noteq> WLoop q \<or> it_fault (it_writer_step 0 s) \<noteq> None"
      by (auto simp: it_writer_step_def split: sum.splits)
    with WLoop stuck run show ?thesis by (simp add: halted_def)
  next
    case (WFilled q)
    then have "wpcs (it_writer_step 0 s) 0 = WAdding q" by (simp add: it_writer_step_def)
    with WFilled stuck show ?thesis by simp
  next
    case (WAdding q)
    let ?u = "ib_go 0 (ibs s)"
    from WAdding w have pc: "(\<exists>item idx. pcs (ibs s) 0 = Adding item idx) \<or> pcs (ibs s) 0 = Publishing"
      and n: "length (added (ibs s)) \<le> N"
      by (auto simp: writer_inv_def Let_def)
    have reach: "ib_reach {0} N ?u"
      using run pc by (intro ib_reach.step [OF r] ib_go_step) (auto simp: halted_def)
    have nf: "ib_fault ?u = None" by (rule no_buffer_fault [OF reach N]) (use n in simp)
    have "ibs (it_writer_step 0 s) = ?u" using WAdding by (simp add: it_writer_step_def Let_def)
    then have "?u = ibs s" using stuck by simp
    with pc ib_go_writer(2,3) [OF _ nf] show ?thesis by auto
  qed (use started in simp_all)
  then have "length (added (ibs s)) = N" "pcs (ibs s) 0 = Outside"
    using w by (simp_all add: writer_inv_def Let_def)
  then show "unat (ib_widx (ib (ibs s))) = N"
    using single_inv_reach [OF r] N by (simp add: single_inv_def Let_def)
qed

text \<open>When no thread can take a step, \<open>main\<close> has returned.\<close>

definition env_ok :: "it_env \<Rightarrow> bool" where
  "env_ok env \<longleftrightarrow> buf_ok env \<and> loads_ok env 0 \<and>
     seqnos_ok env = (\<lambda>_. True) \<and> create_reader env = (\<lambda>_. 0) \<and> create_writer env = (\<lambda>_. 0)"

lemma progress:
  assumes inv: "it_inv env (unat (t_items opts)) (unat (t_readers opts)) s"
    and W: "t_writers opts = 1" and ok: "env_ok env" and run: "\<not> halted s"
    and N: "t_items opts < 2 ^ 62" and R: "unat (t_readers opts) \<le> min 2 (unat (t_items opts))"
    and stuck: "it_main_step env opts s = s" "it_writer_step 0 s = s"
      "\<And>j. j < unat (t_readers opts) \<Longrightarrow> it_reader_step j s = s"
  shows False
proof -
  let ?N = "unat (t_items opts)" and ?R = "unat (t_readers opts)"
  have N': "?N < 2 ^ 62" "?R < 2 ^ 62" using N R by (simp_all add: word_less_nat_alt)
  have c: "control_inv ?R s" and sl: "slots_inv ?N ?R s" and rd: "reader_inv ?N s j" for j
    using inv by (simp_all add: it_inv_def)
  have at: "main_at (it_main_step env opts s) = main_at s" using stuck(1) by simp
  have joining: "(main_at s = JoinWriter 0 \<and> wpcs s 0 \<noteq> WEnded \<or>
      (\<exists>i < ?R. main_at s = JoinReader i \<and> rpcs s i \<noteq> REnded)) \<and>
      wpcs s 0 \<noteq> WNotStarted \<and> (\<forall>j < ?R. rpcs s j \<noteq> RNotStarted)"
    using at run W ok c
    by (cases "main_at s")
      (auto simp: it_main_step_def Let_def env_ok_def halted_def control_inv_def split: if_splits)
  have ended: "wpcs s 0 = WEnded" and all: "unat (ib_widx (ib (ibs s))) = ?N"
    using stuck_writer [OF inv N'(1) run stuck(2)] joining ok by (simp_all add: env_ok_def)
  then obtain i where i: "i < ?R" "rpcs s i \<noteq> REnded" using joining by auto
  have fl: "in_flight s j = None \<or> (\<exists>k. in_flight s j = Some k \<and> ?N \<le> k)" if "j < ?R" for j
    using stuck_reader [OF inv run stuck(3) [OF that] _ _ N' all] that joining
    by (cases "rpcs s j = REnded") (auto simp: in_flight_def)
  have taken: "\<exists>j < ?R. last_seq s j = Suc k \<and> rpcs s j = REnded" if "k < ?N" "?N \<le> k + 2" for k
  proof -
    obtain m where "in_flight s i = Some m" "?N \<le> m"
      using stuck_reader [OF inv run stuck(3) [OF i(1)] _ i(2) N' all] joining i by auto
    then have "m < removals (ibs s)"
      using rd [of i] owned_less [of ?N s i m] by (simp add: owned_def)
    with that \<open>?N \<le> m\<close> have "k < removals (ibs s)" by simp
    with sl that obtain j where j: "j < ?R" "k \<in> owned s j" by (auto simp: slots_inv_def)
    with fl [OF j(1)] that have "last_seq s j = Suc k" by (auto simp: owned_def)
    moreover from this have "rpcs s j = REnded" using rd [of j] that by (simp add: reader_inv_def)
    ultimately show ?thesis using j by blast
  qed
  obtain j where j: "j < ?R" "last_seq s j = ?N" "rpcs s j = REnded"
    using taken [of "?N - 1"] i R by auto
  show False
  proof (cases "?R = 1")
    case True
    then show False using i j by simp
  next
    case False
    then have R2: "?R = 2" "2 \<le> ?N" using i(1) R by simp_all
    have "?N - 2 < ?N" "?N \<le> ?N - 2 + 2" using R2 by simp_all
    from taken [OF this] obtain j' where "j' < 2" "last_seq s j' = Suc (?N - 2)" "rpcs s j' = REnded"
      unfolding R2(1) by blast
    then have "j \<noteq> j'" "j' < 2" "rpcs s j' = REnded" using j R2 by auto
    with i j show False unfolding R2(1) by (metis less_2_cases_iff)
  qed
qed

section \<open>How long a fair run can take\<close>

definition writer_work :: "nat \<Rightarrow> it_sys \<Rightarrow> nat" where
  "writer_work N s =
     (case wpcs s 0 of
        WNotStarted \<Rightarrow> 5 * N + 1
      | WLoop q \<Rightarrow> 5 * (N - unat q) + 1
      | WFilled q \<Rightarrow> 5 * (N - unat q)
      | WAdding q \<Rightarrow> 5 * (N - unat q) - (if pcs (ibs s) 0 = Publishing then 2 else 1)
      | WEnded \<Rightarrow> 0)"

fun reader_work :: "it_rpc \<Rightarrow> nat" where
  "reader_work RNotStarted = 1"
| "reader_work RLoop = 1"
| "reader_work RIn = 3"
| "reader_work (RGot _) = 2"
| "reader_work REnded = 0"

fun main_work :: "nat \<Rightarrow> it_main_pc \<Rightarrow> nat" where
  "main_work R (MkReader i) = (R - i) + R + 6"
| "main_work R (MkWriter i) = (1 - i) + R + 4"
| "main_work R (JoinWriter i) = (1 - i) + R + 2"
| "main_work R (JoinReader i) = (R - i) + 1"
| "main_work R (Returned _) = 0"

definition work :: "nat \<Rightarrow> nat \<Rightarrow> it_sys \<Rightarrow> nat" where
  "work N R s = main_work R (main_at s) + writer_work N s + 4 * (N + R - removals (ibs s)) +
     (\<Sum>j < R. reader_work (rpcs s j))"

lemma sum_update:
  fixes f :: "nat \<Rightarrow> nat"
  assumes "j < R" "\<And>i. i \<noteq> j \<Longrightarrow> f i = g i"
  shows "sum f {..<R} + g j = sum g {..<R} + f j"
  using assms by (simp add: sum.remove [of "{..<R}" j f] sum.remove [of "{..<R}" j g])

lemma writer_work_step:
  assumes inv: "it_inv env N R s" and N: "N < 2 ^ 62" and run: "\<not> halted s" and ok: "loads_ok env 0"
  shows "it_writer_step i s = s \<or> work N R (it_writer_step i s) < work N R s"
proof (cases "wpcs s i = WNotStarted \<or> wpcs s i = WEnded")
  case True
  then show ?thesis by (auto simp: it_writer_step_def)
next
  case False
  then have i: "i = 0" and started: "wpcs s 0 \<noteq> WNotStarted"
    using inv by (cases "i = 0"; auto simp: it_inv_def control_inv_def)+
  have w: "writer_inv N s" and f: "fault_inv env s" and r: "ib_reach {0} N (ibs s)"
    using inv by (simp_all add: it_inv_def)
  have same: "main_at (it_writer_step 0 s) = main_at s" "rpcs (it_writer_step 0 s) = rpcs s"
    "removals (ibs (it_writer_step 0 s)) = removals (ibs s)"
    by (simp_all add: it_writer_step_def Let_def split: it_wpc.split sum.split)
  have "writer_work N (it_writer_step 0 s) < writer_work N s"
  proof (cases "wpcs s 0")
    case (WLoop q)
    from started ok f obtain l where l: "w_loads (winfo s 0) = Some l"
      by (auto simp: fault_inv_def)
    with w WLoop have "length l = N" "w_maxseq (winfo s 0) = of_nat N"
      by (simp_all add: writer_inv_def Let_def)
    then show ?thesis
      using WLoop l N
      by (simp add: it_writer_step_def fill_load_def writer_work_def word_less_nat_alt unat_of_nat)
  next
    case (WFilled q)
    with w have "unat q < N" by (simp add: writer_inv_def Let_def)
    with WFilled show ?thesis by (simp add: it_writer_step_def writer_work_def)
  next
    case (WAdding q)
    let ?u = "ib_go 0 (ibs s)"
    from WAdding w have pc: "(\<exists>item idx. pcs (ibs s) 0 = Adding item idx) \<or> pcs (ibs s) 0 = Publishing"
      and n: "Suc (unat q) = length (added (ibs s))" "length (added (ibs s)) \<le> N"
      by (auto simp: writer_inv_def Let_def)
    have reach: "ib_reach {0} N ?u"
      using run pc by (intro ib_reach.step [OF r] ib_go_step) (auto simp: halted_def)
    have nf: "ib_fault ?u = None" by (rule no_buffer_fault [OF reach N]) (use n in simp)
    have "unat (q + 1) = Suc (unat q)" using n N by (simp add: unat_word_ariths)
    then show ?thesis
      using WAdding pc n ib_go_writer(2,3) [OF _ nf]
      by (auto simp: it_writer_step_def writer_work_def Let_def)
  qed (use False i in simp_all)
  then show ?thesis by (simp add: i work_def same)
qed

lemma reader_work_step:
  assumes inv: "it_inv env N R s" and N: "N < 2 ^ 62" "R < 2 ^ 62" and run: "\<not> halted s"
  shows "it_reader_step j s = s \<or> work N R (it_reader_step j s) < work N R s"
proof (cases "rpcs s j = RNotStarted \<or> rpcs s j = REnded")
  case True
  then show ?thesis by (auto simp: it_reader_step_def)
next
  case False
  let ?t = "it_reader_step j s"
  have j: "j < R" using inv False by (auto simp: it_inv_def control_inv_def not_less [symmetric])
  have same: "main_at ?t = main_at s" "wpcs ?t = wpcs s"
    "\<And>i. i \<noteq> j \<Longrightarrow> rpcs ?t i = rpcs s i" "pcs (ibs ?t) 0 = pcs (ibs s) 0"
    by (auto simp: it_reader_step_def Let_def split: it_rpc.split sum.split)
  have sums: "(\<Sum>i < R. reader_work (rpcs ?t i)) + reader_work (rpcs s j) =
      (\<Sum>i < R. reader_work (rpcs s i)) + reader_work (rpcs ?t j)"
    using sum_update [OF j, of "\<lambda>i. reader_work (rpcs ?t i)" "\<lambda>i. reader_work (rpcs s i)"] same(3) by simp
  have w: "writer_work N ?t = writer_work N s"
    unfolding writer_work_def same ..
  show ?thesis
  proof (cases "rpcs s j")
    case RLoop
    have t: "?t = s\<lparr>ibs := ib_begin_rem (Suc (2 * j)) (ibs s), rpcs := (rpcs s)(j := RIn)\<rparr>"
      using RLoop by (simp add: it_reader_step_def)
    then have "removals (ibs ?t) = Suc (removals (ibs s))" "rpcs ?t j = RIn" by simp_all
    moreover have "removals (ibs ?t) \<le> N + R"
      by (rule ridx_removals [OF reader_claims_inv [OF inv N run RLoop] N])
    ultimately have "reader_work (rpcs ?t j) = 3" "reader_work (rpcs s j) = 1"
      "4 * (N + R - removals (ibs ?t)) + 4 = 4 * (N + R - removals (ibs s))"
      using RLoop by simp_all
    then show ?thesis using sums unfolding work_def same w by linarith
  next
    case RIn
    have rem: "removals (ibs ?t) = removals (ibs s)" using RIn by (simp add: it_reader_step_def Let_def)
    show ?thesis
    proof (cases "rpcs ?t j = RIn")
      case True
      have "reader_inv N s j" "ib_reach {0} N (ibs s)" "writer_inv N s"
        using inv by (simp_all add: it_inv_def)
      with RIn obtain idx where idx: "pcs (ibs s) (Suc (2 * j)) = Removing idx"
        by (auto simp: reader_inv_def)
      let ?u = "ib_go (Suc (2 * j)) (ibs s)"
      have "it_inv env N R ?t" by (rule reader_moves_inv [OF inv N run RIn])
      moreover have "ibs ?t = ?u" using RIn by (simp add: it_reader_step_def Let_def)
      ultimately have nf: "ib_fault ?u = None" by (simp add: it_inv_def fault_inv_def)
      have "pcs ?u (Suc (2 * j)) \<noteq> Outside"
        using True RIn by (auto simp: it_reader_step_def Let_def split: if_splits)
      with ib_go_reader [OF idx nf] have "?u = ibs s" by auto
      then have "?t = s" using RIn idx by (simp add: it_reader_step_def fun_upd_idem)
      then show ?thesis ..
    next
      case False
      then have "reader_work (rpcs ?t j) = 2" "reader_work (rpcs s j) = 3"
        using RIn by (auto simp: it_reader_step_def Let_def split: if_splits)
      then show ?thesis using sums unfolding work_def same w rem by linarith
    qed
  next
    case (RGot item)
    from reader_body_inv(2) [OF inv N run RGot] obtain info b where
      "?t = s\<lparr>rinfo := (rinfo s)(j := info), rpcs := (rpcs s)(j := if b then RLoop else REnded)\<rparr>"
      by blast
    then have "reader_work (rpcs ?t j) < 2" "reader_work (rpcs s j) = 2"
      "removals (ibs ?t) = removals (ibs s)"
      using RGot by auto
    then show ?thesis using sums unfolding work_def same w by linarith
  qed (use False in simp_all)
qed

lemma main_work_step:
  assumes inv: "it_inv env N (unat (t_readers opts)) s" and W: "t_writers opts = 1"
    and ok: "env_ok env" and N: "N = unat (t_items opts)" and run: "\<not> halted s"
  shows "it_main_step env opts s = s \<or>
    work N (unat (t_readers opts)) (it_main_step env opts s) < work N (unat (t_readers opts)) s"
proof -
  let ?t = "it_main_step env opts s" and ?R = "unat (t_readers opts)"
  have c: "control_inv ?R s" using inv by (simp add: it_inv_def)
  have "rpcs s i = RNotStarted" if "main_at s = MkReader i" for i
    using c that by (simp add: control_inv_def)
  then have rp: "reader_work (rpcs ?t j) = reader_work (rpcs s j)" for j
    by (auto simp: it_main_step_def Let_def split: it_main_pc.split)
  have wp: "writer_work N ?t = writer_work N s"
    using c by (auto simp: it_main_step_def Let_def control_inv_def writer_work_def split: it_main_pc.split)
  have ib: "removals (ibs ?t) = removals (ibs s)"
    by (auto simp: it_main_step_def Let_def split: it_main_pc.split)
  have "?t = s \<or> main_work ?R (main_at ?t) < main_work ?R (main_at s)"
    using W ok c by (auto simp: it_main_step_def Let_def env_ok_def control_inv_def split: it_main_pc.split)
  then show ?thesis by (simp add: work_def rp wp ib)
qed

lemma reader_not_null: "reader_inv N s j \<Longrightarrow> rpcs s j \<noteq> RGot None"
  by (auto simp: reader_inv_def)

section \<open>Fair runs\<close>

definition one_writer :: "it_opts \<Rightarrow> bool" where
  "one_writer opts \<longleftrightarrow> t_writers opts = 1 \<and> t_items opts < 2 ^ 62 \<and> t_readers opts < 2 ^ 62"

abbreviation opts_inv :: "it_env \<Rightarrow> it_opts \<Rightarrow> it_sys \<Rightarrow> bool" where
  "opts_inv env opts \<equiv> it_inv env (unat (t_items opts)) (unat (t_readers opts))"

abbreviation opts_work :: "it_opts \<Rightarrow> it_sys \<Rightarrow> nat" where
  "opts_work opts \<equiv> work (unat (t_items opts)) (unat (t_readers opts))"

lemma one_writerD:
  assumes "one_writer opts"
  shows "t_writers opts = 1" "t_items opts < 2 ^ 62" "t_readers opts < 2 ^ 62"
    "unat (t_items opts) < 2 ^ 62" "unat (t_readers opts) < 2 ^ 62"
  using assms by (simp_all add: one_writer_def word_less_nat_alt)

lemma step_work:
  assumes inv: "opts_inv env opts s" and one: "one_writer opts" and ok: "env_ok env"
  shows "it_step env opts s t = s \<or> opts_work opts (it_step env opts s t) < opts_work opts s"
proof (cases "halted s")
  case False
  note d = one_writerD [OF one]
  have "loads_ok env 0" using ok by (simp add: env_ok_def)
  with False show ?thesis
    using main_work_step [OF inv d(1) ok refl False] writer_work_step [OF inv d(4) False]
      reader_work_step [OF inv d(4,5) False]
    by (cases t) (simp_all add: it_step_def)
qed (simp add: it_step_def)

lemma run_inv:
  assumes "opts_inv env opts s" "one_writer opts"
  shows "opts_inv env opts (it_run env opts s ts)"
  using assms(1)
proof (induction ts arbitrary: s)
  case (Cons t ts)
  from Cons.IH [OF it_step_inv [OF Cons.prems]] show ?case
    using one_writerD [OF assms(2)] by simp
qed simp

lemma run_work:
  assumes "opts_inv env opts s" "one_writer opts" "env_ok env"
  shows "it_run env opts s ts = s \<and> (\<forall>t \<in> set ts. it_step env opts s t = s) \<or>
    opts_work opts (it_run env opts s ts) < opts_work opts s"
  using assms(1)
proof (induction ts arbitrary: s)
  case (Cons t ts)
  have "opts_inv env opts (it_step env opts s t)"
    using run_inv [OF Cons.prems assms(2), of "[t]"] by simp
  from Cons.IH [OF this] step_work [OF Cons.prems assms(2,3), of t] show ?case by auto
qed simp

definition all_threads :: "it_opts \<Rightarrow> it_thread set" where
  "all_threads opts = {MainT, WriterT 0} \<union> ReaderT ` {..<unat (t_readers opts)}"

lemma segment_work:
  assumes inv: "opts_inv env opts s" and one: "one_writer opts" and ok: "env_ok env"
    and R: "unat (t_readers opts) \<le> min 2 (unat (t_items opts))"
    and run: "\<not> halted s" and all: "all_threads opts \<subseteq> set ts"
  shows "opts_work opts (it_run env opts s ts) < opts_work opts s"
proof (rule ccontr)
  assume "\<not> ?thesis"
  then have stay: "it_step env opts s t = s" if "t \<in> all_threads opts" for t
    using run_work [OF inv one ok, of ts] all that by blast
  have "it_main_step env opts s = s" "it_writer_step 0 s = s"
    using stay [of MainT] stay [of "WriterT 0"] run by (simp_all add: it_step_def all_threads_def)
  moreover have "it_reader_step j s = s" if "j < unat (t_readers opts)" for j
    using stay [of "ReaderT j"] that run by (simp add: it_step_def all_threads_def)
  ultimately show False
    by (rule progress [OF inv one_writerD(1) [OF one] ok run one_writerD(2) [OF one] R])
qed

lemma halted_run: "halted s \<Longrightarrow> it_run env opts s ts = s"
  by (induction ts) (simp_all add: it_step_def)

lemma fair_run_halts:
  assumes "opts_inv env opts s" and one: "one_writer opts" and ok: "env_ok env"
    and R: "unat (t_readers opts) \<le> min 2 (unat (t_items opts))"
    and "\<forall>seg \<in> set segs. all_threads opts \<subseteq> set seg" "opts_work opts s \<le> length segs"
  shows "halted (it_run env opts s (concat segs))"
  using assms(1,5,6)
proof (induction segs arbitrary: s)
  case Nil
  then have "main_work (unat (t_readers opts)) (main_at s) = 0" by (simp add: work_def)
  then show ?case by (cases "main_at s") (simp_all add: halted_def)
next
  case (Cons seg segs)
  show ?case
  proof (cases "halted s")
    case True
    then show ?thesis by (simp add: halted_run)
  next
    case False
    let ?t = "it_run env opts s seg"
    have "opts_work opts ?t < opts_work opts s"
      by (rule segment_work [OF Cons.prems(1) one ok R False]) (use Cons.prems in simp)
    then have "opts_work opts ?t \<le> length segs" using Cons.prems(3) by simp
    then show ?thesis
      using Cons.IH [OF run_inv [OF Cons.prems(1) one]] Cons.prems(2) by simp
  qed
qed

lemma returned_zero:
  assumes "env_ok env" "main_at s = Returned c \<longrightarrow> c = 0" "t_writers opts = 1" "control_inv R s"
  shows "main_at (it_step env opts s t) = Returned c \<longrightarrow> c = 0"
  using assms
  by (cases t)
    (auto simp: it_step_def it_main_step_def it_writer_step_def it_reader_step_def Let_def env_ok_def
      control_inv_def split: it_main_pc.split it_wpc.split it_rpc.split sum.split)

lemma run_returned_zero:
  assumes one: "one_writer opts" and ok: "env_ok env"
  shows "main_at (it_run env opts (it_start env opts) ts) = Returned c \<longrightarrow> c = 0"
proof (induction ts rule: rev_induct)
  case Nil
  then show ?case using ok by (simp add: it_start_def infbuffer_init_def env_ok_def)
next
  case (snoc t ts)
  have "control_inv (unat (t_readers opts)) (it_run env opts (it_start env opts) ts)"
    using it_run_inv [OF one_writerD(1-3) [OF one]] by (simp add: it_inv_def)
  from returned_zero [OF ok snoc one_writerD(1) [OF one] this] show ?case by simp
qed

lemma work_start:
  assumes "env_ok env"
  shows "opts_work opts (it_start env opts) =
    9 * unat (t_items opts) + 7 * unat (t_readers opts) + 7"
  using assms
  by (simp add: work_def writer_work_def it_start_def ib_start_def infbuffer_init_def env_ok_def)

section \<open>Properties\<close>

text \<open>
  C9: with one writer (the default) and any number of readers, no check of
  \<open>thread_reader\<close> ever fails, no reader is handed a null pointer, and no access leaves
  an array, in any interleaving. The one fault that is left is the \<open>calloc\<close> of
  \<open>loads\<close> whose result \<open>main\<close> does not test.
\<close>

theorem infbuffer_test_passes:
  assumes "one_writer opts"
  shows "let s = it_run env opts (it_start env opts) sched in
    ib_fault (ibs s) = None \<and> (it_fault s = None \<or> \<not> loads_ok env 0 \<and> it_fault s = Some Segfault) \<and>
    (\<forall>j. rpcs s j \<noteq> RGot None)"
proof -
  let ?s = "it_run env opts (it_start env opts) sched"
  have inv: "opts_inv env opts ?s"
    by (rule it_run_inv [OF one_writerD(1-3) [OF assms]])
  then have "rpcs ?s j \<noteq> RGot None" for j
    by (intro reader_not_null [of "unat (t_items opts)"]) (simp add: it_inv_def)
  with inv show ?thesis by (auto simp: Let_def it_inv_def fault_inv_def)
qed

text \<open>
  C10: with one writer, a reader ends only with one of the last two items; when there
  are more readers than that (three, or two for a single item, or one for none), \<open>main\<close>
  waits for a reader for ever: in no interleaving does it return success.
\<close>

theorem infbuffer_test_hangs:
  assumes "one_writer opts" and "unat (t_readers opts) > min 2 (unat (t_items opts))"
  shows "main_at (it_run env opts (it_start env opts) sched) \<noteq> Returned 0"
  using main_waits [OF it_run_inv [OF one_writerD(1-3) [OF assms(1)]] assms(2)] .

text \<open>
  C3: otherwise \<open>main\<close> returns success under every fair schedule: any schedule that
  can be cut into \<open>9 * items + 7 * readers + 7\<close> or more segments, each giving every
  thread at least one step.
\<close>

theorem infbuffer_test_returns:
  assumes "one_writer opts" and "unat (t_readers opts) \<le> min 2 (unat (t_items opts))"
    and "env_ok env" and "\<forall>seg \<in> set segs. all_threads opts \<subseteq> set seg"
    and "9 * unat (t_items opts) + 7 * unat (t_readers opts) + 7 \<le> length segs"
  shows "main_at (it_run env opts (it_start env opts) (concat segs)) = Returned 0"
proof -
  let ?s = "it_run env opts (it_start env opts) (concat segs)"
  have inv: "opts_inv env opts (it_start env opts)"
    by (rule it_inv_start [OF one_writerD(1) [OF assms(1)]])
  have "halted ?s"
    by (rule fair_run_halts [OF inv assms(1,3,2,4)]) (use assms(5) work_start [OF assms(3)] in simp)
  moreover have "it_fault ?s = None" "ib_fault (ibs ?s) = None"
    using run_inv [OF inv assms(1), of "concat segs"] assms(3)
    by (auto simp: it_inv_def fault_inv_def env_ok_def)
  ultimately show ?thesis
    using run_returned_zero [OF assms(1,3), of "concat segs"]
    by (cases "main_at ?s") (auto simp: halted_def)
qed

lemma env_ok_good: "env_ok good_env"
  by (simp add: env_ok_def good_env_def)

theorem infbuffer_test_passes_witness:
  "let s = it_run good_env it_defaults (it_start good_env it_defaults) [MainT, MainT, ReaderT 0] in
    ib_fault (ibs s) = None \<and> (it_fault s = None \<or> \<not> loads_ok good_env 0 \<and> it_fault s = Some Segfault) \<and>
    (\<forall>j. rpcs s j \<noteq> RGot None)"
  by (rule infbuffer_test_passes) (simp add: one_writer_def it_defaults_def)

theorem infbuffer_test_hangs_witness:
  "main_at (it_run good_env (it_defaults\<lparr>t_readers := 3\<rparr>) (it_start good_env (it_defaults\<lparr>t_readers := 3\<rparr>))
     [MainT, MainT, ReaderT 0]) \<noteq> Returned 0"
  by (rule infbuffer_test_hangs) (simp_all add: one_writer_def it_defaults_def)

theorem infbuffer_test_returns_witness:
  "main_at (it_run good_env it_defaults (it_start good_env it_defaults)
     (concat (replicate 200000 [MainT, WriterT 0, ReaderT 0]))) = Returned 0"
  by (rule infbuffer_test_returns)
    (simp_all add: one_writer_def it_defaults_def env_ok_good all_threads_def lessThan_Suc)

end
