(* ===== verification/Dscp.thy ===== *)
theory Dscp
  imports Cstring
begin

text \<open>
  The lookup of DiffServ code points in \<open>dscp.c\<close>: the table of names, the
  parser of the \<open>-S\<close> and \<open>-D\<close> options and the printer of their values.
\<close>

section \<open>The constants\<close>

text \<open>Type-of-service bits and DiffServ code points, as whole type-of-service bytes (RFC 1349, RFC 2474).\<close>

definition IPTOS_LOWDELAY :: int where "IPTOS_LOWDELAY = 0x10"
definition IPTOS_THROUGHPUT :: int where "IPTOS_THROUGHPUT = 0x08"
definition IPTOS_RELIABILITY :: int where "IPTOS_RELIABILITY = 0x04"
definition IPTOS_DSCP_AF11 :: int where "IPTOS_DSCP_AF11 = 0x28"
definition IPTOS_DSCP_AF12 :: int where "IPTOS_DSCP_AF12 = 0x30"
definition IPTOS_DSCP_AF13 :: int where "IPTOS_DSCP_AF13 = 0x38"
definition IPTOS_DSCP_AF21 :: int where "IPTOS_DSCP_AF21 = 0x48"
definition IPTOS_DSCP_AF22 :: int where "IPTOS_DSCP_AF22 = 0x50"
definition IPTOS_DSCP_AF23 :: int where "IPTOS_DSCP_AF23 = 0x58"
definition IPTOS_DSCP_AF31 :: int where "IPTOS_DSCP_AF31 = 0x68"
definition IPTOS_DSCP_AF32 :: int where "IPTOS_DSCP_AF32 = 0x70"
definition IPTOS_DSCP_AF33 :: int where "IPTOS_DSCP_AF33 = 0x78"
definition IPTOS_DSCP_AF41 :: int where "IPTOS_DSCP_AF41 = 0x88"
definition IPTOS_DSCP_AF42 :: int where "IPTOS_DSCP_AF42 = 0x90"
definition IPTOS_DSCP_AF43 :: int where "IPTOS_DSCP_AF43 = 0x98"
definition IPTOS_DSCP_EF :: int where "IPTOS_DSCP_EF = 0xb8"
definition IPTOS_DSCP_CS0 :: int where "IPTOS_DSCP_CS0 = 0x00"
definition IPTOS_DSCP_CS1 :: int where "IPTOS_DSCP_CS1 = 0x20"
definition IPTOS_DSCP_CS2 :: int where "IPTOS_DSCP_CS2 = 0x40"
definition IPTOS_DSCP_CS3 :: int where "IPTOS_DSCP_CS3 = 0x60"
definition IPTOS_DSCP_CS4 :: int where "IPTOS_DSCP_CS4 = 0x80"
definition IPTOS_DSCP_CS5 :: int where "IPTOS_DSCP_CS5 = 0xa0"
definition IPTOS_DSCP_CS6 :: int where "IPTOS_DSCP_CS6 = 0xc0"
definition IPTOS_DSCP_CS7 :: int where "IPTOS_DSCP_CS7 = 0xe0"

lemmas iptos_defs =
  IPTOS_LOWDELAY_def IPTOS_THROUGHPUT_def IPTOS_RELIABILITY_def IPTOS_DSCP_AF11_def
  IPTOS_DSCP_AF12_def IPTOS_DSCP_AF13_def IPTOS_DSCP_AF21_def IPTOS_DSCP_AF22_def
  IPTOS_DSCP_AF23_def IPTOS_DSCP_AF31_def IPTOS_DSCP_AF32_def IPTOS_DSCP_AF33_def
  IPTOS_DSCP_AF41_def IPTOS_DSCP_AF42_def IPTOS_DSCP_AF43_def IPTOS_DSCP_EF_def
  IPTOS_DSCP_CS0_def IPTOS_DSCP_CS1_def IPTOS_DSCP_CS2_def IPTOS_DSCP_CS3_def
  IPTOS_DSCP_CS4_def IPTOS_DSCP_CS5_def IPTOS_DSCP_CS6_def IPTOS_DSCP_CS7_def

section \<open>The table and its two functions\<close>

record ipqos_data =
  qos_name :: "string option"
  qos_value :: int

text \<open>\<open>ipqos[]\<close>, ended by the entry without a name.\<close>

definition ipqos :: "ipqos_data list" where
  "ipqos = map (\<lambda>(n, v). \<lparr>qos_name = Some n, qos_value = v\<rparr>)
     [(''af11'', IPTOS_DSCP_AF11), (''af12'', IPTOS_DSCP_AF12), (''af13'', IPTOS_DSCP_AF13),
      (''af21'', IPTOS_DSCP_AF21), (''af22'', IPTOS_DSCP_AF22), (''af23'', IPTOS_DSCP_AF23),
      (''af31'', IPTOS_DSCP_AF31), (''af32'', IPTOS_DSCP_AF32), (''af33'', IPTOS_DSCP_AF33),
      (''af41'', IPTOS_DSCP_AF41), (''af42'', IPTOS_DSCP_AF42), (''af43'', IPTOS_DSCP_AF43),
      (''cs0'', IPTOS_DSCP_CS0), (''cs1'', IPTOS_DSCP_CS1), (''cs2'', IPTOS_DSCP_CS2),
      (''cs3'', IPTOS_DSCP_CS3), (''cs4'', IPTOS_DSCP_CS4), (''cs5'', IPTOS_DSCP_CS5),
      (''cs6'', IPTOS_DSCP_CS6), (''cs7'', IPTOS_DSCP_CS7), (''ef'', IPTOS_DSCP_EF),
      (''lowdelay'', IPTOS_LOWDELAY), (''throughput'', IPTOS_THROUGHPUT), (''reliability'', IPTOS_RELIABILITY)]
     @ [\<lparr>qos_name = None, qos_value = -1\<rparr>]"

text \<open>The loop over the table up to its end mark: the first entry that satisfies the test.\<close>

fun ipqos_scan :: "(string \<Rightarrow> int \<Rightarrow> bool) \<Rightarrow> ipqos_data list \<Rightarrow> (string \<times> int) option" where
  "ipqos_scan test (d # ds) =
     (case qos_name d of
        None \<Rightarrow> None
      | Some n \<Rightarrow> if test n (qos_value d) then Some (n, qos_value d) else ipqos_scan test ds)"
| "ipqos_scan test [] = None"

definition parse_ipqos :: "string option \<Rightarrow> int" where
  "parse_ipqos cp =
     (case cp of
        None \<Rightarrow> -1
      | Some s \<Rightarrow>
          (case ipqos_scan (\<lambda>n v. strcasecmp s n = 0) ipqos of
             Some (n, v) \<Rightarrow> v
           | None \<Rightarrow>
               let (val, ep) = strtol s 0
               in if s = [] \<or> ep \<noteq> [] \<or> val < 0 \<or> val > 255 then -1 else val))"

definition iptos2str :: "int \<Rightarrow> string" where
  "iptos2str iptos =
     (let iptos = (if iptos < 0 \<or> iptos > 64 then 0 else iptos)
      in case ipqos_scan (\<lambda>n v. v = iptos) ipqos of
           Some (n, v) \<Rightarrow> n
         | None \<Rightarrow> ''0x'' @ print_02x iptos)"

section \<open>Lemmas\<close>

lemma ipqos_scan_mem:
  "ipqos_scan test ds = Some (n, v) \<Longrightarrow> \<lparr>qos_name = Some n, qos_value = v\<rparr> \<in> set ds \<and> test n v"
  by (induction ds) (auto split: option.splits if_splits)

lemma ipqos_values: "d \<in> set ipqos \<Longrightarrow> -1 \<le> qos_value d \<and> qos_value d \<le> 255"
  by (auto simp: ipqos_def iptos_defs)

lemma iptos2str_clamped: "v < 0 \<or> 64 < v \<Longrightarrow> iptos2str v = ''cs0''"
  by (simp add: iptos2str_def ipqos_def iptos_defs)

lemma names_table:
  "list_all (\<lambda>d. case qos_name d of None \<Rightarrow> True | Some n \<Rightarrow> parse_ipqos (Some n) = qos_value d) ipqos"
  by code_simp

text \<open>Text that starts with a digit matches no name.\<close>

lemma scan_digit_start:
  assumes "isdigit c"
  shows "ipqos_scan (\<lambda>n v. strcasecmp (c # s) n = 0) ipqos = None"
proof -
  have "ord (tolower c) < 97" using assms by (simp add: ord_tolower isdigit_def)
  then have ne: "tolower c \<noteq> tolower d" if "97 \<le> ord d" for d
    using that unfolding ord_inject [symmetric] by (simp add: ord_tolower)
  have "strcasecmp (c # s) (d # r) \<noteq> 0" if "97 \<le> ord d" for d r
    using ne [OF that] unfolding ord_inject [symmetric] by simp
  then show ?thesis
    by (simp add: ipqos_def iptos_defs ord_def)
qed

lemma parse_ipqos_digits:
  assumes "s \<noteq> []" "isdigit (hd s)" "strtol s 0 = (n, [])" "0 \<le> n" "n < 256"
  shows "parse_ipqos (Some s) = n"
  using assms scan_digit_start [of "hd s" "tl s"] by (simp add: parse_ipqos_def)

lemma parse_ipqos_hex:
  assumes "0 \<le> n" "n < 256"
  shows "parse_ipqos (Some (''0x'' @ print_02x n)) = n"
proof -
  have "clamp_long n = n" using assms by (simp add: LONG_MAX_def LONG_MIN_def)
  moreover have "isdigit CHR ''0''" by code_simp
  ultimately show ?thesis
    using assms strtol_hex [OF assms(1)] by (intro parse_ipqos_digits) auto
qed

section \<open>Properties\<close>

text \<open>
  \<open>parse_ipqos\<close> never hands on a value that is not a type-of-service byte: for
  every text, the result is a byte or the error value -1; and the case of letters,
  in names and in hexadecimal numbers, makes no difference.
\<close>

theorem parse_ipqos_range_and_case:
  "(-1 \<le> parse_ipqos cp \<and> parse_ipqos cp \<le> 255) \<and>
   parse_ipqos (map_option (map tolower) cp) = parse_ipqos cp"
proof
  show "-1 \<le> parse_ipqos cp \<and> parse_ipqos cp \<le> 255"
    by (auto simp: parse_ipqos_def Let_def split: option.splits prod.splits
        dest!: ipqos_scan_mem ipqos_values)
  show "parse_ipqos (map_option (map tolower) cp) = parse_ipqos cp"
  proof (cases cp)
    case (Some s)
    have "map tolower (map tolower s) = map tolower s" by simp
    from strcasecmp_fold [OF this] strtol_fold_case [OF this, of 0] Some
    show ?thesis
      by (simp add: parse_ipqos_def Let_def split_beta split: option.splits)
  qed (simp add: parse_ipqos_def)
qed

text \<open>
  C25: what \<open>iptos2str\<close> prints parses back to the same value for 0 to 64 and to 0 for
  every other value: the upper bound in \<open>iptos2str\<close> is that of a code point, while the
  table and the parser hold type-of-service bytes, so \<open>ef\<close> and the other names above
  64 come out as \<open>cs0\<close>.
\<close>

theorem iptos2str_parse:
  "parse_ipqos (Some (iptos2str v)) = (if 0 \<le> v \<and> v \<le> 64 then v else 0)"
proof (cases "0 \<le> v \<and> v \<le> 64")
  case True
  show ?thesis
  proof (cases "ipqos_scan (\<lambda>n u. u = v) ipqos")
    case None
    then show ?thesis using True parse_ipqos_hex [of v] by (simp add: iptos2str_def)
  next
    case (Some nv)
    then obtain n where "ipqos_scan (\<lambda>n u. u = v) ipqos = Some (n, v)"
      "\<lparr>qos_name = Some n, qos_value = v\<rparr> \<in> set ipqos"
      using ipqos_scan_mem by (cases nv) fastforce
    then show ?thesis
      using True bspec [OF names_table [unfolded list_all_iff]] by (fastforce simp: iptos2str_def)
  qed
next
  case False
  then have "iptos2str v = ''cs0''" by (intro iptos2str_clamped) auto
  moreover have "parse_ipqos (Some ''cs0'') = 0" by code_simp
  ultimately show ?thesis using False by auto
qed

text \<open>
  every type-of-service byte can be given on the command line: \<open>parse_ipqos\<close>
  reads back its decimal, its hexadecimal (\<open>0x..\<close>) and its octal (\<open>0..\<close>) form.
\<close>

theorem parse_ipqos_numeric:
  assumes "0 \<le> n" "n < 256"
  shows "parse_ipqos (Some (print_int n)) = n \<and>
    parse_ipqos (Some (''0x'' @ print_02x n)) = n \<and>
    parse_ipqos (Some (CHR ''0'' # print_base 8 n)) = n"
proof -
  note p = print_base_digits [of 10 n, simplified, OF assms(1)]
  have fits: "clamp_long n = n" using assms by (simp add: LONG_MAX_def LONG_MIN_def)
  have d: "isdigit CHR ''0''" "isdigit (digit_char d)" if "0 \<le> d" "d < 10" for d
    using that by (simp_all add: isdigit_def digit_char_def ord_def)
  have "print_int n \<noteq> []" "isdigit (hd (print_int n))"
    using p d assms by (auto simp: print_int_def)
  with d(1) [of 0] show ?thesis
    using assms strtol_print_int [of "[]" n] fits strtol_hex [OF assms(1)] fits
      strtol_octal [OF assms(1)] fits
    by (auto intro!: parse_ipqos_digits)
qed

theorem parse_ipqos_numeric_witness:
  "(0 :: int) \<le> 184 \<and> (184 :: int) < 256 \<and> parse_ipqos (Some (print_int 184)) = 184"
  using parse_ipqos_numeric [of 184] by simp

end
