(* ===== verification/Timeval.thy ===== *)
theory Timeval
  imports Prelude "HOL-Library.Product_Lexorder"
begin

text \<open>
  Arithmetic on \<open>struct timeval\<close> (\<open>util.c\<close>, \<open>twd_time.h\<close>). \<open>time_t\<close> and
  \<open>suseconds_t\<close> are 64-bit signed integers: values of type \<open>int\<close>, every sum, difference and
  product of which is checked against the range of \<open>long\<close> (\<open>long_c\<close>) and ends in
  \<open>SignedOverflow\<close> outside it. The conversions to the 32-bit \<open>int\<close> and \<open>unsigned\<close> are
  written out. \<open>random()\<close> is the parameter \<open>rnd\<close>. The exception is
  \<open>convert_timeval2timespec\<close>, the product of which is exact: it is the C value when the
  microseconds are below \<open>2^63 / 1000\<close>, as those of a normalised time are.
\<close>

record timeval =
  tv_sec :: int
  tv_usec :: int

record timespec =
  ts_sec :: int
  ts_nsec :: int

section \<open>util.c\<close>

function roughly :: "int \<Rightarrow> int \<Rightarrow> int result" where
  "roughly rnd value =
     (if value < 0 then
        (case int_c (- value) of
           Inl e \<Rightarrow> Inl e
         | Inr v \<Rightarrow> bind_r (roughly rnd v) (\<lambda>w. int_c (- w)))
      else if value \<le> 1 then Inr value
      else bind_r (int_c (value * 3)) (\<lambda>v. Inr (to_int32 (v sdiv 4 + rnd smod (value sdiv 2)))))"
  by pat_completeness auto

termination
  by (relation "measure (\<lambda>(_, v). if v < 0 then 1 else 0)")
     (auto simp: int_c_def split: if_splits)

declare roughly.simps [simp del]

definition timeval_minus :: "timeval \<Rightarrow> timeval \<Rightarrow> timeval result" where
  "timeval_minus s1 s2 =
     (if tv_usec s1 \<ge> tv_usec s2
      then bind_r (long_c (tv_usec s1 - tv_usec s2)) (\<lambda>usec.
           bind_r (long_c (tv_sec s1 - tv_sec s2)) (\<lambda>sec.
             Inr \<lparr>tv_sec = sec, tv_usec = usec\<rparr>))
      else bind_r (long_c (tv_usec s1 + 1000000)) (\<lambda>usec.
           bind_r (long_c (usec - tv_usec s2)) (\<lambda>usec.
           bind_r (long_c (tv_sec s1 - tv_sec s2)) (\<lambda>sec.
           bind_r (long_c (sec - 1)) (\<lambda>sec.
             Inr \<lparr>tv_sec = sec, tv_usec = usec\<rparr>)))))"

definition timeval_minus_msec :: "timeval \<Rightarrow> timeval \<Rightarrow> u32 result" where
  "timeval_minus_msec s1 s2 =
     (if tv_sec s1 < tv_sec s2 then Inr 0
      else bind_r (long_c (tv_sec s1 - tv_sec s2)) (\<lambda>d.
        if d > 2000000 then Inr 2000000000
        else if tv_sec s1 > tv_sec s2 then
          bind_r (long_c (to_int32 (tv_usec s1) - tv_usec s2)) (\<lambda>usec.
            Inr (word_of_int (uint ((word_of_int d :: u32) * 1000) + usec sdiv 1000)))
        else if tv_usec s1 \<le> tv_usec s2 then Inr 0
        else bind_r (long_c (tv_usec s1 - tv_usec s2)) (\<lambda>usec. Inr (word_of_int usec div 1000))))"

definition timeval_add_msec :: "timeval \<Rightarrow> int \<Rightarrow> timeval result" where
  "timeval_add_msec s msecs =
     bind_r (long_c (tv_sec s + msecs sdiv 1000)) (\<lambda>sec.
     bind_r (long_c (tv_usec s + (msecs smod 1000) * 1000)) (\<lambda>u.
       let usecs = to_int32 u
       in if usecs < 1000000 then Inr \<lparr>tv_sec = sec, tv_usec = usecs\<rparr>
          else bind_r (long_c (sec + 1)) (\<lambda>sec. Inr \<lparr>tv_sec = sec, tv_usec = usecs - 1000000\<rparr>)))"

definition timeval_compare :: "timeval \<Rightarrow> timeval \<Rightarrow> int" where
  "timeval_compare s1 s2 =
     (if tv_sec s1 < tv_sec s2 then -1
      else if tv_sec s1 > tv_sec s2 then 1
      else if tv_usec s1 < tv_usec s2 then -1
      else if tv_usec s1 > tv_usec s2 then 1
      else 0)"

text \<open>The value \<open>*d\<close> has afterwards.\<close>

definition timeval_min :: "timeval \<Rightarrow> timeval \<Rightarrow> timeval" where
  "timeval_min d s =
     (if tv_sec s = 0 then d
      else if tv_sec d = 0 \<or> timeval_compare d s > 0 then s
      else d)"

definition timeval_min_sec :: "int \<Rightarrow> timeval \<Rightarrow> int \<Rightarrow> timeval" where
  "timeval_min_sec rnd d secs =
     (if tv_sec d = 0 \<or> tv_sec d > secs
      then \<lparr>tv_sec = secs, tv_usec = rnd smod 1000000\<rparr>
      else d)"

section \<open>twd\_time.h\<close>

text \<open>\<open>answer\<close>: what \<open>clock_gettime\<close> returns and the time it stores.\<close>

definition twd_gettime :: "int \<times> timespec \<Rightarrow> (int \<times> timespec) result" where
  "twd_gettime answer = (if fst answer = -1 then Inl (Exit 1) else Inr (0, snd answer))"

definition convert_timeval2timespec :: "timeval \<Rightarrow> timespec" where
  "convert_timeval2timespec t2 = \<lparr>ts_sec = tv_sec t2, ts_nsec = tv_usec t2 * 1000\<rparr>"

text \<open>(\<open>*result\<close>, \<open>*y\<close> afterwards, returned value).\<close>

definition timeval_subtract :: "timeval \<Rightarrow> timeval \<Rightarrow> (timeval \<times> timeval \<times> int) result" where
  "timeval_subtract x y =
     bind_r (if tv_usec x < tv_usec y then
         bind_r (long_c (tv_usec y - tv_usec x)) (\<lambda>u.
           let nsec = to_int32 (u sdiv 1000000 + 1)
           in bind_r (int_c (1000000 * nsec)) (\<lambda>p.
              bind_r (long_c (tv_usec y - p)) (\<lambda>usec.
              bind_r (long_c (tv_sec y + nsec)) (\<lambda>sec. Inr \<lparr>tv_sec = sec, tv_usec = usec\<rparr>))))
       else Inr y) (\<lambda>y.
     bind_r (long_c (tv_usec x - tv_usec y)) (\<lambda>u.
     bind_r (if u > 1000000 then
         (let nsec = to_int32 (u sdiv 1000000)
          in bind_r (int_c (1000000 * nsec)) (\<lambda>p.
             bind_r (long_c (tv_usec y + p)) (\<lambda>usec.
             bind_r (long_c (tv_sec y - nsec)) (\<lambda>sec. Inr \<lparr>tv_sec = sec, tv_usec = usec\<rparr>))))
       else Inr y) (\<lambda>y.
     bind_r (long_c (tv_sec x - tv_sec y)) (\<lambda>sec.
     bind_r (long_c (tv_usec x - tv_usec y)) (\<lambda>usec.
       Inr (\<lparr>tv_sec = sec, tv_usec = usec\<rparr>, y, if tv_sec x < tv_sec y then 1 else 0))))))"

section \<open>The time a timeval stands for\<close>

definition usecs :: "timeval \<Rightarrow> int" where
  "usecs s = tv_sec s * 1000000 + tv_usec s"

definition normal :: "timeval \<Rightarrow> bool" where
  "normal s \<longleftrightarrow> 0 \<le> tv_usec s \<and> tv_usec s < 1000000"

text \<open>The library's order on time values: by seconds, then by microseconds.\<close>

instantiation timeval_ext :: (linorder) linorder
begin

definition less_eq_timeval_ext :: "'a timeval_ext \<Rightarrow> 'a timeval_ext \<Rightarrow> bool" where
  "less_eq_timeval_ext s t \<longleftrightarrow>
     (tv_sec s, tv_usec s, timeval.more s) \<le> (tv_sec t, tv_usec t, timeval.more t)"

definition less_timeval_ext :: "'a timeval_ext \<Rightarrow> 'a timeval_ext \<Rightarrow> bool" where
  "less_timeval_ext s t \<longleftrightarrow>
     (tv_sec s, tv_usec s, timeval.more s) < (tv_sec t, tv_usec t, timeval.more t)"

instance
proof
  fix s t u :: "'a timeval_ext"
  show "s < t \<longleftrightarrow> s \<le> t \<and> \<not> t \<le> s"
    unfolding less_eq_timeval_ext_def less_timeval_ext_def by (rule less_le_not_le)
  show "s \<le> s" by (simp add: less_eq_timeval_ext_def)
  show "s \<le> t \<Longrightarrow> t \<le> u \<Longrightarrow> s \<le> u"
    unfolding less_eq_timeval_ext_def by (rule order_trans)
  show "s \<le> t \<or> t \<le> s" unfolding less_eq_timeval_ext_def by (rule linear)
  show "s = t" if "s \<le> t" "t \<le> s"
  proof -
    have "(tv_sec s, tv_usec s, timeval.more s) = (tv_sec t, tv_usec t, timeval.more t)"
      using that unfolding less_eq_timeval_ext_def by (rule antisym)
    then show ?thesis by (cases s; cases t) simp
  qed
qed

end

text \<open>
  The contract of a three-way comparison, as the scheduling code uses it to keep
  the earliest of several deadlines.
\<close>

locale three_way =
  fixes cmp :: "'a \<Rightarrow> 'a \<Rightarrow> int" and le :: "'a \<Rightarrow> 'a \<Rightarrow> bool"
  assumes cmp_pos: "cmp x y > 0 \<longleftrightarrow> \<not> le x y"
    and cmp_anti: "cmp y x = - cmp x y"
    and le_trans: "le x y \<Longrightarrow> le y z \<Longrightarrow> le x z"
begin

lemma total: "le x y \<or> le y x"
  using cmp_pos [of x y] cmp_pos [of y x] cmp_anti [of x y] by linarith

lemma cmp_neg: "cmp x y < 0 \<longleftrightarrow> \<not> le y x"
  using cmp_pos [of y x] cmp_anti [of x y] by linarith

lemma cmp_zero: "cmp x y = 0 \<longleftrightarrow> le x y \<and> le y x"
  using cmp_pos [of x y] cmp_neg [of x y] by linarith

text \<open>Replacing a kept value whenever the comparison is positive keeps a least one.\<close>

lemma keep_least:
  "foldl (\<lambda>d s. if cmp d s > 0 then s else d) d ss \<in> insert d (set ss) \<and>
   (\<forall>x \<in> insert d (set ss). le (foldl (\<lambda>d s. if cmp d s > 0 then s else d) d ss) x)"
proof (induction ss arbitrary: d)
  case Nil
  then show ?case using total by auto
next
  case (Cons s ss)
  let ?d = "if cmp d s > 0 then s else d"
  have d: "le ?d d" "le ?d s"
    using total [of d d] total [of s s] total [of d s] by (auto simp: cmp_pos)
  let ?r = "foldl (\<lambda>d s. if cmp d s > 0 then s else d) ?d ss"
  have r: "?r \<in> insert ?d (set ss)" "le ?r ?d" "\<And>x. x \<in> set ss \<Longrightarrow> le ?r x"
    using Cons.IH [of ?d] by blast+
  have "le ?r d" "le ?r s"
    using r(2) d le_trans by blast+
  moreover have "?r \<in> insert d (set (s # ss))"
    using r(1) by auto
  ultimately show ?case
    using r(3) by simp
qed

end

lemma timeval_le_iff:
  "s \<le> t \<longleftrightarrow> tv_sec s < tv_sec t \<or> (tv_sec s = tv_sec t \<and> tv_usec s \<le> tv_usec t)"
  for s t :: timeval
  by (auto simp: less_eq_timeval_ext_def)

interpretation timeval: three_way timeval_compare "(\<le>) :: timeval \<Rightarrow> timeval \<Rightarrow> bool"
  by unfold_locales (auto simp: timeval_compare_def timeval_le_iff)

lemma usecs_le_iff: "normal s \<Longrightarrow> normal t \<Longrightarrow> s \<le> t \<longleftrightarrow> usecs s \<le> usecs t"
  by (auto simp: timeval_le_iff normal_def usecs_def)

section \<open>Lemmas\<close>

lemma sdiv_bounds_1000:
  fixes x :: int
  shows "- 1000 < 1000 * (x sdiv 1000) - x" "1000 * (x sdiv 1000) - x < 1000"
  using minus_mod_eq_mult_div [of "\<bar>x\<bar>" 1000] pos_mod_bound [of 1000 "\<bar>x\<bar>"] pos_mod_sign [of 1000 "\<bar>x\<bar>"]
  by (auto simp: signed_divide_int_def sgn_if)

lemma sdiv_smod_1000: "(x sdiv 1000) * 1000 + x smod 1000 = (x :: int)"
  by (rule sdiv_mult_smod_eq)

lemma smod_bounds_1000: "- 1000 < x smod 1000" "x smod 1000 < (1000 :: int)"
  using sdiv_bounds_1000 [of x] sdiv_smod_1000 [of x] by linarith+

lemma smod_nonneg_1000: "0 \<le> x \<Longrightarrow> 0 \<le> x smod (1000 :: int)"
  by (simp add: smod_mod_positive)

lemma sdiv_nonneg: "0 \<le> x \<Longrightarrow> 0 < y \<Longrightarrow> x sdiv y = x div y" for x y :: int
  by (auto simp: signed_divide_int_def sgn_if)

lemma smod_nonneg: "0 \<le> x \<Longrightarrow> 0 < y \<Longrightarrow> x smod y = x mod y" for x y :: int
  by (auto simp: signed_modulo_int_def sgn_if)

lemma sdiv_multiple: "(1000 * k) sdiv 1000 = (k :: int)"
  by (auto simp: signed_divide_int_def sgn_if abs_mult)

lemma long_usecs: "-2000000 \<le> u \<Longrightarrow> u \<le> 2000000 \<Longrightarrow> long_c u = Inr u"
  by (simp add: LONG_MIN_def LONG_MAX_def)

text \<open>\<open>timeval_minus\<close> is exact and keeps the form, unless the difference of the seconds overflows.\<close>

lemma timeval_minus_correct:
  assumes "normal s" "normal t" "LONG_MIN < tv_sec s - tv_sec t" "tv_sec s - tv_sec t \<le> LONG_MAX"
  shows "\<exists>d. timeval_minus s t = Inr d \<and> usecs d = usecs s - usecs t \<and> normal d"
  using assms
  by (simp add: timeval_minus_def long_usecs usecs_def normal_def algebra_simps)

lemma unsigned_times_1000:
  "0 \<le> d \<Longrightarrow> d \<le> 2000000 \<Longrightarrow> uint ((word_of_int d :: u32) * 1000) = d * 1000"
  by (simp add: uint_word_ariths uint_word_of_int)

lemma minus_msec_exact:
  assumes "normal s" "normal t" "tv_sec t < tv_sec s" "tv_sec s - tv_sec t \<le> 2000000"
  shows "\<exists>r. timeval_minus_msec s t = Inr r \<and>
    uint r = (tv_sec s - tv_sec t) * 1000 + (tv_usec s - tv_usec t) sdiv 1000"
proof -
  let ?d = "tv_sec s - tv_sec t" and ?m = "(tv_usec s - tv_usec t) sdiv 1000"
  have u: "to_int32 (tv_usec s) = tv_usec s"
    using assms(1) by (simp add: normal_def INT_MIN_def INT_MAX_def)
  have m: "-1001 < ?m" "?m < 1001"
    using assms(1,2) sdiv_bounds_1000 [of "tv_usec s - tv_usec t"] unfolding normal_def
    by linarith+
  have long: "long_c ?d = Inr ?d" "long_c (tv_usec s - tv_usec t) = Inr (tv_usec s - tv_usec t)"
    using assms by (simp_all add: normal_def LONG_MIN_def LONG_MAX_def)
  have "uint ((word_of_int ?d :: u32) * 1000) = ?d * 1000"
    by (rule unsigned_times_1000) (use assms(3,4) in simp_all)
  then have "timeval_minus_msec s t = Inr (word_of_int (?d * 1000 + ?m))"
    unfolding timeval_minus_msec_def u long bind_r_simps using assms(3,4) by simp
  moreover have "uint (word_of_int (?d * 1000 + ?m) :: u32) = ?d * 1000 + ?m"
  proof (rule uint_u32)
    have bounds: "0 \<le> d * 1000 + m \<and> d * 1000 + m < 4294967296"
      if "-1001 < m" "m < 1001" "1 \<le> d" "d \<le> 2000000" for d m :: int
      using that by simp
    have "1 \<le> ?d" using assms(3) by simp
    from bounds [OF m this assms(4)]
    show "0 \<le> ?d * 1000 + ?m" "?d * 1000 + ?m < 4294967296" by (rule conjunct1, rule conjunct2)
  qed
  ultimately show ?thesis by blast
qed

lemma minus_msec_same_second:
  assumes "normal s" "normal t" "tv_sec s = tv_sec t" "tv_usec t < tv_usec s"
  shows "\<exists>r. timeval_minus_msec s t = Inr r \<and> uint r = (tv_usec s - tv_usec t) div 1000"
proof -
  have "uint (word_of_int (tv_usec s - tv_usec t) :: u32) = tv_usec s - tv_usec t"
    using assms by (intro uint_u32) (simp_all add: normal_def)
  then show ?thesis
    using assms by (simp add: timeval_minus_msec_def uint_div normal_def LONG_MIN_def LONG_MAX_def)
qed

lemma add_msec_parts:
  assumes "normal s" "INT_MIN \<le> m" "m \<le> INT_MAX"
    and "LONG_MIN \<le> tv_sec s + m sdiv 1000" "tv_sec s + m sdiv 1000 < LONG_MAX"
  shows "timeval_add_msec s m =
    (let u = tv_usec s + (m smod 1000) * 1000
     in Inr (if u < 1000000 then \<lparr>tv_sec = tv_sec s + m sdiv 1000, tv_usec = u\<rparr>
        else \<lparr>tv_sec = tv_sec s + m sdiv 1000 + 1, tv_usec = u - 1000000\<rparr>))"
proof -
  have "INT_MIN \<le> tv_usec s + (m smod 1000) * 1000" "tv_usec s + (m smod 1000) * 1000 \<le> INT_MAX"
    using assms(1) smod_bounds_1000 [of m] by (simp_all add: normal_def INT_MIN_def INT_MAX_def)
  moreover from this have "long_c (tv_usec s + (m smod 1000) * 1000) = Inr (tv_usec s + (m smod 1000) * 1000)"
    by (simp add: INT_MIN_def INT_MAX_def LONG_MIN_def LONG_MAX_def)
  ultimately show ?thesis using assms(4,5) by (simp add: timeval_add_msec_def Let_def)
qed

lemma add_msec_usecs:
  assumes "normal s" "0 \<le> m" "m \<le> INT_MAX"
    and "LONG_MIN \<le> tv_sec s" "tv_sec s + m sdiv 1000 < LONG_MAX"
  shows "\<exists>d. timeval_add_msec s m = Inr d \<and> usecs d = usecs s + 1000 * m \<and> normal d"
proof -
  have parts: "m = (m sdiv 1000) * 1000 + m smod 1000" by (simp add: sdiv_smod_1000)
  have "0 \<le> m sdiv 1000" using assms(2) by (simp add: sdiv_nonneg)
  then have "LONG_MIN \<le> tv_sec s + m sdiv 1000" using assms(4) by linarith
  moreover have "INT_MIN \<le> m" using assms(2) by (simp add: INT_MIN_def)
  ultimately show ?thesis
    using assms(1) smod_bounds_1000 [of m] smod_nonneg_1000 [OF assms(2)] parts
    unfolding add_msec_parts [OF assms(1) \<open>INT_MIN \<le> m\<close> assms(3) \<open>LONG_MIN \<le> tv_sec s + m sdiv 1000\<close> assms(5)]
    by (auto simp: normal_def usecs_def Let_def)
qed

section \<open>Properties\<close>

text \<open>
  C23: \<open>timeval_minus_msec\<close> measures a difference to within a millisecond: for
  normalised times it is 0 when the first is not later, and otherwise differs from
  the exact difference by less than 1 ms, up to 2000000 s apart, where it saturates. The
  subtraction that decides on the saturation can overflow itself, for times that far apart.
\<close>

theorem timeval_minus_msec_accurate:
  assumes "normal s" "normal t"
  shows "(usecs s \<le> usecs t \<longrightarrow> timeval_minus_msec s t = Inr 0) \<and>
    (usecs t < usecs s \<and> tv_sec s - tv_sec t \<le> 2000000 \<longrightarrow>
      (\<exists>ms. timeval_minus_msec s t = Inr ms \<and> \<bar>1000 * uint ms - (usecs s - usecs t)\<bar> < 1000)) \<and>
    (tv_sec s - tv_sec t > 2000000 \<longrightarrow> timeval_minus_msec s t =
      (if tv_sec s - tv_sec t \<le> LONG_MAX then Inr 2000000000 else Inl SignedOverflow))"
proof (intro conjI impI; (elim conjE)?)
  show "timeval_minus_msec s t = Inr 0" if "usecs s \<le> usecs t"
    using that assms by (auto simp: timeval_minus_msec_def normal_def usecs_def LONG_MIN_def LONG_MAX_def)
  show "timeval_minus_msec s t =
      (if tv_sec s - tv_sec t \<le> LONG_MAX then Inr 2000000000 else Inl SignedOverflow)"
    if "tv_sec s - tv_sec t > 2000000"
    using that by (simp add: timeval_minus_msec_def long_c_def LONG_MIN_def)
  assume later: "usecs t < usecs s" and near: "tv_sec s - tv_sec t \<le> 2000000"
  show "\<exists>ms. timeval_minus_msec s t = Inr ms \<and> \<bar>1000 * uint ms - (usecs s - usecs t)\<bar> < 1000"
  proof (cases "tv_sec t < tv_sec s")
    case True
    from minus_msec_exact [OF assms True near] sdiv_bounds_1000 [of "tv_usec s - tv_usec t"]
    show ?thesis by (auto simp: usecs_def algebra_simps)
  next
    case False
    with later assms have eq: "tv_sec s = tv_sec t" "tv_usec t < tv_usec s"
      by (auto simp: usecs_def normal_def)
    from minus_msec_same_second [OF assms eq] eq show ?thesis by (auto simp: usecs_def)
  qed
qed

text \<open>
  \<open>timeval_add_msec\<close> followed by \<open>timeval_minus_msec\<close> gives the interval back, for
  every interval of 0 to 2000000000 ms from a time that far from the end of \<open>time_t\<close>.
\<close>

theorem timeval_add_minus_msec:
  assumes "normal s" "0 \<le> m" "m \<le> 2000000000" "LONG_MIN \<le> tv_sec s" "tv_sec s < LONG_MAX - 2000000"
  shows "\<exists>r. bind_r (timeval_add_msec s m) (\<lambda>d. timeval_minus_msec d s) = Inr r \<and> uint r = m"
proof -
  have "m \<le> INT_MAX" using assms(3) by (simp add: INT_MAX_def)
  moreover have "tv_sec s + m sdiv 1000 < LONG_MAX"
    using assms(2,3,5) by (simp add: sdiv_nonneg)
  ultimately obtain t where t: "timeval_add_msec s m = Inr t" "usecs t = usecs s + 1000 * m" "normal t"
    using add_msec_usecs [OF assms(1,2) _ assms(4)] by blast
  have near: "tv_sec t - tv_sec s \<le> 2000000"
    using t(2,3) assms by (simp add: usecs_def normal_def)
  consider (apart) "tv_sec s < tv_sec t" | (close) "tv_sec t = tv_sec s" "tv_usec t = tv_usec s + 1000 * m"
    using t(2,3) assms(1,2) unfolding usecs_def normal_def by (smt (verit))
  then have "\<exists>r. timeval_minus_msec t s = Inr r \<and> uint r = m"
  proof cases
    case apart
    have "tv_usec t - tv_usec s = 1000 * (m - 1000 * (tv_sec t - tv_sec s))"
      using t(2) by (simp add: usecs_def algebra_simps)
    then have "(tv_usec t - tv_usec s) sdiv 1000 = m - 1000 * (tv_sec t - tv_sec s)"
      by (simp only: sdiv_multiple)
    with minus_msec_exact [OF t(3) assms(1) apart near] show ?thesis by simp
  next
    case close
    show ?thesis
    proof (cases "m = 0")
      case True
      with close show ?thesis by (simp add: timeval_minus_msec_def LONG_MIN_def LONG_MAX_def)
    next
      case False
      with close assms(2) minus_msec_same_second [OF t(3) assms(1) close(1)] show ?thesis by simp
    qed
  qed
  then show ?thesis by (simp add: t(1))
qed

text \<open>
  \<open>timeval_min\<close> keeps the earlier of two deadlines, a deadline in second 0
  standing for none: the result is one of the two, it is a deadline when one of
  them is, and then it is not later than either.
\<close>

theorem timeval_min_earliest:
  "timeval_min d s \<in> {d, s} \<and>
   (tv_sec (timeval_min d s) = 0 \<longleftrightarrow> tv_sec d = 0 \<and> tv_sec s = 0) \<and>
   (tv_sec d \<noteq> 0 \<longrightarrow> timeval_min d s \<le> d) \<and> (tv_sec s \<noteq> 0 \<longrightarrow> timeval_min d s \<le> s)"
  using timeval.total [of d s] by (auto simp: timeval_min_def timeval.cmp_pos)

lemma fold_timeval_min:
  assumes "tv_sec d \<noteq> 0" "\<forall>s \<in> set ss. tv_sec s \<noteq> 0"
  shows "foldl timeval_min d ss = foldl (\<lambda>d s. if timeval_compare d s > 0 then s else d) d ss"
  using assms by (induction ss arbitrary: d) (auto simp: timeval_min_def)

text \<open>
  the deadline loop of an event loop, \<open>timeval_min\<close> folded over a list of
  deadlines from "none", ends with the least of them.
\<close>

theorem timeval_min_fold:
  assumes "ss \<noteq> []" "\<forall>s \<in> set ss. tv_sec s \<noteq> 0" "tv_sec d = 0"
  shows "foldl timeval_min d ss = Min (set ss)"
proof -
  obtain s r where ss: "ss = s # r" using assms(1) by (cases ss) auto
  then have "timeval_min d s = s"
    using assms by (simp add: timeval_min_def)
  then have "foldl timeval_min d ss = foldl (\<lambda>d s. if timeval_compare d s > 0 then s else d) s r"
    using fold_timeval_min [of s r] assms ss by simp
  with timeval.keep_least [of s r] show ?thesis
    unfolding ss by (metis (no_types, lifting) List.finite_set Min_eqI list.simps(15))
qed

text \<open>
  \<open>timeval_subtract\<close> of normalised times gives their exact difference with a
  normalised microsecond part, leaves in \<open>*y\<close> another form of the same time, and
  returns 1 exactly when the difference is negative.
\<close>

theorem timeval_subtract_correct:
  assumes "normal x" "normal y" "LONG_MIN \<le> tv_sec x - tv_sec y - 1" "tv_sec x - tv_sec y \<le> LONG_MAX"
    and "tv_sec y < LONG_MAX"
    and "LONG_MIN \<le> tv_sec y"
  shows "\<exists>result y' neg. timeval_subtract x y = Inr (result, y', neg) \<and>
    usecs result = usecs x - usecs y \<and> normal result \<and> usecs y' = usecs y \<and>
    neg = (if usecs x < usecs y then 1 else 0)"
proof (cases "tv_usec x < tv_usec y")
  case True
  then have "(tv_usec y - tv_usec x) sdiv 1000000 = 0" "to_int32 1 = 1" "int_c 1000000 = Inr 1000000"
    using assms(1,2) by (simp_all add: normal_def sdiv_nonneg INT_MIN_def INT_MAX_def int_c_def)
  then have "timeval_subtract x y = Inr
      (\<lparr>tv_sec = tv_sec x - (tv_sec y + 1), tv_usec = tv_usec x - (tv_usec y - 1000000)\<rparr>,
       \<lparr>tv_sec = tv_sec y + 1, tv_usec = tv_usec y - 1000000\<rparr>, if tv_sec x < tv_sec y + 1 then 1 else 0)"
    using True assms by (simp add: timeval_subtract_def long_usecs Let_def normal_def)
  then show ?thesis using True assms(1,2) by (auto simp: normal_def usecs_def)
next
  case False
  then have "timeval_subtract x y = Inr
      (\<lparr>tv_sec = tv_sec x - tv_sec y, tv_usec = tv_usec x - tv_usec y\<rparr>, y, if tv_sec x < tv_sec y then 1 else 0)"
    using assms by (simp add: timeval_subtract_def long_usecs Let_def normal_def)
  then show ?thesis using False assms(1,2) by (auto simp: normal_def usecs_def)
qed

lemma roughly_nonneg:
  assumes "0 \<le> rnd" "2 \<le> v" "v \<le> INT_MAX"
  shows "v * 3 \<le> INT_MAX \<Longrightarrow>
      \<exists>w. roughly rnd v = Inr w \<and> v * 3 div 4 \<le> w \<and> w < v * 3 div 4 + v div 2"
    and "INT_MAX < v * 3 \<Longrightarrow> roughly rnd v = Inl SignedOverflow"
proof -
  have m: "0 \<le> rnd smod (v sdiv 2)" "rnd smod (v sdiv 2) < v div 2"
    using assms by (simp_all add: sdiv_nonneg smod_nonneg)
  show "\<exists>w. roughly rnd v = Inr w \<and> v * 3 div 4 \<le> w \<and> w < v * 3 div 4 + v div 2"
    if "v * 3 \<le> INT_MAX"
  proof -
    have "v * 3 div 4 + rnd smod (v sdiv 2) \<le> INT_MAX"
      using that assms m by (simp add: INT_MAX_def)
    moreover have "roughly rnd v = Inr (to_int32 (v * 3 div 4 + rnd smod (v sdiv 2)))"
      using that assms by (subst roughly.simps) (simp add: int_c_def INT_MIN_def sdiv_nonneg)
    ultimately show ?thesis
      using m assms by (simp add: INT_MIN_def)
  qed
  show "roughly rnd v = Inl SignedOverflow" if "INT_MAX < v * 3"
    using that assms by (subst roughly.simps) (simp add: int_c_def)
qed

text \<open>
  \<open>roughly\<close> spreads a value over 3/4 to 5/4 of itself with its sign kept, whatever
  \<open>random\<close> returns; its product overflows an \<open>int\<close> for values beyond a third of the range.
\<close>

theorem roughly_spread:
  assumes "0 \<le> rnd" "2 \<le> \<bar>v\<bar>" "\<bar>v\<bar> \<le> INT_MAX"
  shows "if \<bar>v\<bar> * 3 \<le> INT_MAX
    then \<exists>w. roughly rnd v = Inr w \<and> sgn w = sgn v \<and>
      \<bar>v\<bar> * 3 div 4 \<le> \<bar>w\<bar> \<and> \<bar>w\<bar> < \<bar>v\<bar> * 3 div 4 + \<bar>v\<bar> div 2
    else roughly rnd v = Inl SignedOverflow"
proof -
  have neg: "roughly rnd v = bind_r (roughly rnd \<bar>v\<bar>) (\<lambda>w. int_c (- w))" if "v < 0"
    using that assms by (subst roughly.simps) (simp add: int_c_def INT_MIN_def INT_MAX_def)
  note abs = roughly_nonneg [OF assms(1,2,3)]
  show ?thesis
  proof (cases "\<bar>v\<bar> * 3 \<le> INT_MAX")
    case True
    then obtain w where w: "roughly rnd \<bar>v\<bar> = Inr w" "\<bar>v\<bar> * 3 div 4 \<le> w"
      "w < \<bar>v\<bar> * 3 div 4 + \<bar>v\<bar> div 2"
      using abs(1) by blast
    have "0 < \<bar>v\<bar> * 3 div 4" using assms(2) by linarith
    with w have "0 < w" by linarith
    moreover have "int_c (- w) = Inr (- w)"
      using w True assms \<open>0 < w\<close> by (simp add: int_c_def INT_MIN_def INT_MAX_def)
    ultimately show ?thesis
      using True w neg by (cases "v < 0") (auto simp: sgn_if)
  next
    case False
    then show ?thesis
      using abs(2) neg by (cases "v < 0") auto
  qed
qed

section \<open>Witnesses\<close>

theorem timeval_minus_msec_accurate_witness:
  "timeval_minus_msec \<lparr>tv_sec = 7, tv_usec = 100\<rparr> \<lparr>tv_sec = 5, tv_usec = 999999\<rparr> = Inr 1001 \<and>
   (\<exists>ms. timeval_minus_msec \<lparr>tv_sec = 7, tv_usec = 100\<rparr> \<lparr>tv_sec = 5, tv_usec = 999999\<rparr> = Inr ms \<and>
     \<bar>1000 * uint ms - 1000101\<bar> < 1000) \<and>
   timeval_minus_msec \<lparr>tv_sec = LONG_MAX, tv_usec = 0\<rparr> \<lparr>tv_sec = -1, tv_usec = 0\<rparr> = Inl SignedOverflow"
  using timeval_minus_msec_accurate
    [of "\<lparr>tv_sec = 7, tv_usec = 100\<rparr>" "\<lparr>tv_sec = 5, tv_usec = 999999\<rparr>"]
    timeval_minus_msec_accurate [of "\<lparr>tv_sec = LONG_MAX, tv_usec = 0\<rparr>" "\<lparr>tv_sec = -1, tv_usec = 0\<rparr>"]
  by (simp add: normal_def usecs_def timeval_minus_msec_def signed_divide_int_def INT_MIN_def
      INT_MAX_def LONG_MIN_def LONG_MAX_def)

theorem timeval_add_minus_msec_witness:
  "\<exists>r. bind_r (timeval_add_msec \<lparr>tv_sec = 5, tv_usec = 999999\<rparr> 1999999999)
     (\<lambda>d. timeval_minus_msec d \<lparr>tv_sec = 5, tv_usec = 999999\<rparr>) = Inr r \<and> uint r = 1999999999"
  by (rule timeval_add_minus_msec) (simp_all add: normal_def LONG_MIN_def LONG_MAX_def)

theorem timeval_min_earliest_witness:
  "timeval_min \<lparr>tv_sec = 9, tv_usec = 3\<rparr> \<lparr>tv_sec = 4, tv_usec = 8\<rparr> \<le> \<lparr>tv_sec = 9, tv_usec = 3\<rparr>"
  using timeval_min_earliest [of "\<lparr>tv_sec = 9, tv_usec = 3\<rparr>" "\<lparr>tv_sec = 4, tv_usec = 8\<rparr>"] by simp

theorem timeval_min_fold_witness:
  "foldl timeval_min \<lparr>tv_sec = 0, tv_usec = 0\<rparr>
     [\<lparr>tv_sec = 9, tv_usec = 3\<rparr>, \<lparr>tv_sec = 4, tv_usec = 8\<rparr>, \<lparr>tv_sec = 4, tv_usec = 7\<rparr>] =
   Min {\<lparr>tv_sec = 9, tv_usec = 3\<rparr>, \<lparr>tv_sec = 4, tv_usec = 8\<rparr>, \<lparr>tv_sec = 4, tv_usec = 7\<rparr>}"
  using timeval_min_fold
    [of "[\<lparr>tv_sec = 9, tv_usec = 3\<rparr>, \<lparr>tv_sec = 4, tv_usec = 8\<rparr>, \<lparr>tv_sec = 4, tv_usec = 7\<rparr>]"
      "\<lparr>tv_sec = 0, tv_usec = 0\<rparr>"]
  by simp

theorem timeval_subtract_correct_witness:
  "timeval_subtract \<lparr>tv_sec = 5, tv_usec = 1\<rparr> \<lparr>tv_sec = 5, tv_usec = 2\<rparr> =
     Inr (\<lparr>tv_sec = -1, tv_usec = 999999\<rparr>, \<lparr>tv_sec = 6, tv_usec = -999998\<rparr>, 1) \<and>
   (\<exists>result y' neg. timeval_subtract \<lparr>tv_sec = 5, tv_usec = 1\<rparr> \<lparr>tv_sec = 5, tv_usec = 2\<rparr> =
     Inr (result, y', neg) \<and> usecs result = -1)"
  using timeval_subtract_correct [of "\<lparr>tv_sec = 5, tv_usec = 1\<rparr>" "\<lparr>tv_sec = 5, tv_usec = 2\<rparr>"]
  by (auto simp: timeval_subtract_def sdiv_nonneg INT_MIN_def INT_MAX_def LONG_MIN_def LONG_MAX_def
      int_c_def normal_def usecs_def)

theorem roughly_spread_witness:
  "\<exists>w. roughly 12345 (-1000) = Inr w \<and> sgn w = -1 \<and> 750 \<le> \<bar>w\<bar> \<and> \<bar>w\<bar> < 1250"
  using roughly_spread [of 12345 "-1000"] by (simp add: INT_MAX_def)

end
