(* ===== verification/Parse_Num.thy ===== *)
theory Parse_Num
  imports Cstring
begin

text \<open>
  The number parsers of \<open>util.c\<close>: \<open>parse_nat\<close>, a non-negative \<open>int\<close> read by \<open>strtol\<close>,
  and \<open>parse_msec\<close>, a decimal number of seconds read into milliseconds with
  \<open>unsigned\<close> (wrapping) arithmetic.
\<close>

definition isblank :: "char \<Rightarrow> bool" where
  "isblank c \<longleftrightarrow> c = CHR '' '' \<or> ord c = 9"

definition parse_nat :: "string \<Rightarrow> int" where
  "parse_nat s =
     (let (l, end) = strtol s 0
      in if dropWhile isblank end \<noteq> [] then -1
         else if l < 0 \<or> l > INT_MAX then -1
         else l)"

text \<open>
  The two digit loops of \<open>parse_msec\<close>: the accumulator, the number of digits read
  (\<open>j\<close>) and the rest of the text.
\<close>

fun msec_digits :: "u32 \<Rightarrow> nat \<Rightarrow> string \<Rightarrow> u32 \<times> nat \<times> string" where
  "msec_digits acc j (c # s) =
     (if isdigit c then msec_digits (acc * 10 + word_of_int (ord c) - 48) (j + 1) s
      else (acc, j, c # s))"
| "msec_digits acc j [] = (acc, j, [])"

text \<open>The two loops that scale the fraction to three digits.\<close>

function msec_scale :: "u32 \<Rightarrow> nat \<Rightarrow> u32" where
  "msec_scale fl j =
     (if j > 3 then msec_scale (fl div 10) (j - 1)
      else if j < 3 then msec_scale (fl * 10) (j + 1)
      else fl)"
  by pat_completeness auto

termination
  by (relation "measure (\<lambda>(_, j). if j > 3 then j - 3 else 3 - j)") auto

declare msec_scale.simps [simp del]

definition parse_msec :: "string \<Rightarrow> int" where
  "parse_msec s =
     (let (in_s, _, rest) = msec_digits 0 0 (dropWhile isblank s);
          (fl, rest) =
            (case rest of
               c # r \<Rightarrow>
                 if c = CHR ''.''
                 then let (f, j, r') = msec_digits 0 0 r in (msec_scale f j, r')
                 else (0, rest)
             | [] \<Rightarrow> (0, rest))
      in if dropWhile isblank rest = [] then sint (in_s * 1000 + fl) else -1)"

section \<open>Lemmas\<close>

definition ndigits :: "int list \<Rightarrow> string" where
  "ndigits ds = map digit_char ds"

definition dec :: "int list \<Rightarrow> int" where
  "dec ds = foldl (\<lambda>a d. a * 10 + d) 0 ds"

definition all_digits :: "int list \<Rightarrow> bool" where
  "all_digits ds \<longleftrightarrow> list_all (\<lambda>d. 0 \<le> d \<and> d < 10) ds"

lemma isdigit_digit_char: "0 \<le> d \<Longrightarrow> d < 10 \<Longrightarrow> isdigit (digit_char d) \<and> ord (digit_char d) = 48 + d"
  by (simp add: isdigit_def digit_char_def)

definition no_digit :: "string \<Rightarrow> bool" where
  "no_digit s \<longleftrightarrow> (case s of [] \<Rightarrow> True | c # _ \<Rightarrow> \<not> isdigit c)"

lemma msec_digits_ndigits:
  "all_digits ds \<Longrightarrow> no_digit r \<Longrightarrow>
   msec_digits acc j (ndigits ds @ r) =
     (foldl (\<lambda>a d. a * 10 + word_of_int d) acc ds, j + length ds, r)"
proof (induction ds arbitrary: acc j)
  case Nil
  then show ?case by (cases r) (simp_all add: ndigits_def no_digit_def)
next
  case (Cons d ds)
  then show ?case
    using isdigit_digit_char [of d] by (simp add: ndigits_def all_digits_def)
qed

lemma foldl_word_dec:
  "foldl (\<lambda>a d. a * 10 + word_of_int d) (word_of_int a0 :: u32) ds =
   word_of_int (foldl (\<lambda>a d. a * 10 + d) a0 ds)"
proof (induction ds arbitrary: a0)
  case (Cons d ds)
  from Cons.IH [of "a0 * 10 + d"] show ?case by simp
qed simp

lemma msec_digits_dec:
  "all_digits ds \<Longrightarrow> no_digit r \<Longrightarrow>
   msec_digits 0 0 (ndigits ds @ r) = (word_of_int (dec ds), length ds, r)"
  using foldl_word_dec [of 0 ds] by (simp add: msec_digits_ndigits dec_def)

lemma foldl_dec_append:
  "foldl (\<lambda>a d. a * 10 + d) a ds = a * 10 ^ length ds + dec ds" for a :: int
proof (induction ds rule: rev_induct)
  case (snoc d ds)
  then show ?case by (simp add: dec_def algebra_simps)
qed (simp add: dec_def)

lemma dec_bounds: "all_digits ds \<Longrightarrow> 0 \<le> dec ds \<and> dec ds < 10 ^ length ds"
proof (induction ds rule: rev_induct)
  case (snoc d ds)
  then show ?case by (simp add: dec_def all_digits_def)
qed (simp add: dec_def)

lemma msec_scale_down:
  "3 \<le> j \<Longrightarrow> unat (msec_scale fl j) = unat fl div 10 ^ (j - 3)"
proof (induction "j - 3" arbitrary: fl j)
  case 0
  then show ?case by (subst msec_scale.simps) simp
next
  case (Suc k)
  then have j: "j > 3" by simp
  then have "msec_scale fl j = msec_scale (fl div 10) (j - 1)"
    by (subst msec_scale.simps) simp
  moreover have "unat (msec_scale (fl div 10) (j - 1)) = unat (fl div 10) div 10 ^ (j - 1 - 3)"
    using Suc by (intro Suc.hyps(1)) simp_all
  moreover have "unat (fl div 10) = unat fl div 10" by (simp add: unat_div)
  moreover have "j - 3 = Suc (j - 1 - 3)" using Suc by simp
  ultimately show ?case by (simp add: div_mult2_eq mult.commute)
qed

lemma msec_scale_up:
  "j \<le> 3 \<Longrightarrow> msec_scale fl j = fl * 10 ^ (3 - j)"
proof (induction "3 - j" arbitrary: fl j)
  case 0
  then show ?case by (subst msec_scale.simps) simp
next
  case (Suc k)
  then have j: "j < 3" by simp
  then have "msec_scale fl j = msec_scale (fl * 10) (j + 1)"
    by (subst msec_scale.simps) simp
  moreover have "msec_scale (fl * 10) (j + 1) = fl * 10 * 10 ^ (3 - (j + 1))"
    using Suc by (intro Suc.hyps(1)) simp_all
  moreover have "3 - j = Suc (3 - (j + 1))" using Suc by simp
  ultimately show ?case by (simp add: mult.assoc)
qed

text \<open>The first three digits of a fraction of up to nine, as thousandths.\<close>

lemma msec_scale_dec:
  assumes "all_digits ds" "length ds \<le> 9"
  shows "uint (msec_scale (word_of_int (dec ds)) (length ds)) = dec ds * 1000 div 10 ^ length ds"
proof -
  have d: "0 \<le> dec ds" "dec ds < 10 ^ length ds" using dec_bounds assms(1) by blast+
  have "(10 :: int) ^ length ds \<le> 10 ^ 9" using assms(2) by (intro power_increasing) simp_all
  with d have u: "uint (word_of_int (dec ds) :: u32) = dec ds" by (intro uint_u32) simp_all
  show ?thesis
  proof (cases "length ds \<le> 3")
    case True
    have p: "(1000 :: int) = 10 ^ (3 - length ds) * 10 ^ length ds"
      using True by (simp flip: power_add)
    have "dec ds * 10 ^ (3 - length ds) < 10 ^ length ds * 10 ^ (3 - length ds)"
      using d by simp
    also have "\<dots> = 1000" using p by (simp add: mult.commute)
    finally have "uint (word_of_int (dec ds * 10 ^ (3 - length ds)) :: u32) =
        dec ds * 10 ^ (3 - length ds)"
      using d by (intro uint_u32) simp_all
    moreover have "dec ds * 1000 div 10 ^ length ds = dec ds * 10 ^ (3 - length ds)"
      unfolding p by simp
    ultimately show ?thesis
      using True by (simp add: msec_scale_up)
  next
    case False
    then have p: "(10 :: int) ^ length ds = 10 ^ (length ds - 3) * 1000"
      using power_add [of "10 :: int" "length ds - 3" 3] by simp
    have "unat (msec_scale (word_of_int (dec ds)) (length ds)) =
        unat (word_of_int (dec ds) :: u32) div 10 ^ (length ds - 3)"
      using False by (intro msec_scale_down) simp
    then have "uint (msec_scale (word_of_int (dec ds)) (length ds)) =
        int (unat (word_of_int (dec ds) :: u32) div 10 ^ (length ds - 3))"
      by (simp only: uint_nat)
    also have "\<dots> = uint (word_of_int (dec ds) :: u32) div 10 ^ (length ds - 3)"
      by (simp only: uint_nat zdiv_int of_nat_power of_nat_numeral)
    finally show ?thesis unfolding p u by simp
  qed
qed

lemma isblank_isspace: "isblank c \<Longrightarrow> isspace c"
  by (auto simp: isblank_def isspace_def ord_def)

lemma digit_not_blank: "isdigit c \<Longrightarrow> \<not> isblank c"
  by (auto simp: isblank_def isdigit_def ord_def)

lemma no_digit_simps:
  "no_digit []" "no_digit (CHR ''.'' # s)"
  "list_all isblank bs \<Longrightarrow> no_digit bs"
  using digit_not_blank by (auto simp: no_digit_def isdigit_def ord_def split: list.split)

lemma skip_front:
  assumes "list_all isblank bs" "all_digits ds" "r = [] \<or> \<not> isblank (hd r)"
  shows "dropWhile isblank (bs @ ndigits ds @ r) = ndigits ds @ r"
proof (rule dropWhile_front [OF assms(1)])
  show "ndigits ds @ r = [] \<or> \<not> isblank (hd (ndigits ds @ r))"
    using assms(2,3) isdigit_digit_char digit_not_blank
    by (cases ds) (auto simp: ndigits_def all_digits_def)
qed

section \<open>Properties\<close>

text \<open>
  \<open>parse_nat\<close> reads back the decimal text of every number an \<open>int\<close> can hold, after
  any white space, and answers -1 for every number outside 0 to \<open>INT_MAX\<close>, however
  many digits it has.
\<close>

theorem parse_nat_print_int:
  assumes "list_all isspace ws"
  shows "parse_nat (ws @ print_int v) = (if 0 \<le> v \<and> v \<le> INT_MAX then v else -1)"
  by (simp add: parse_nat_def strtol_print_int [OF assms] clamp_long_def LONG_MAX_def LONG_MIN_def
      INT_MAX_def)

theorem parse_nat_print_int_witness:
  "list_all isspace '' '' \<and> parse_nat ('' '' @ print_int 2147483647) = 2147483647"
proof -
  have "list_all isspace '' ''" by code_simp
  with parse_nat_print_int [of "'' ''" 2147483647] show ?thesis by (simp add: INT_MAX_def)
qed

text \<open>
  C26: \<open>parse_msec\<close> converts seconds to milliseconds, cutting the fraction after the
  third digit: for every text of blanks, digits, an optional fraction of up to nine
  digits and blanks whose value fits an \<open>int\<close>.
\<close>

theorem parse_msec_decimal:
  assumes "list_all isblank bs" "list_all isblank bs'"
    and "all_digits is" "all_digits fs" "length fs \<le> 9" "dec is \<le> 2147482"
  shows "parse_msec (bs @ ndigits is @ ''.'' @ ndigits fs @ bs') =
      dec is * 1000 + dec fs * 1000 div 10 ^ length fs \<and>
    (is \<noteq> [] \<longrightarrow> parse_msec (bs @ ndigits is @ bs') = dec is * 1000)"
proof -
  let ?f = "dec fs * 1000 div 10 ^ length fs"
  have d: "0 \<le> dec is" "0 \<le> dec fs" "dec fs < 10 ^ length fs"
    using dec_bounds assms(3,4) by blast+
  then have "dec fs * 1000 < 1000 * 10 ^ length fs" by simp
  moreover have "?f * 10 ^ length fs \<le> dec fs * 1000"
    using pos_mod_sign [of "10 ^ length fs" "dec fs * 1000"]
    by (simp flip: minus_mod_eq_div_mult)
  ultimately have "?f * 10 ^ length fs < 1000 * 10 ^ length fs" by linarith
  then have "?f < 1000" by simp
  with d have f: "0 \<le> ?f" "?f < 1000" by (simp_all add: pos_imp_zdiv_nonneg_iff)
  have v: "sint (word_of_int (dec is) * 1000 + word_of_int k :: u32) = dec is * 1000 + k"
    if "0 \<le> k" "k < 1000" for k
  proof -
    have "to_int32 (dec is * 1000 + k) = dec is * 1000 + k"
      using that d assms(6) by (intro to_int32_small) (simp_all add: INT_MIN_def INT_MAX_def)
    then show ?thesis by (simp add: to_int32_def)
  qed
  have blank: "dropWhile isblank bs' = []" using assms(2) by (rule dropWhile_all)
  have "msec_scale (word_of_int (dec fs)) (length fs) = word_of_int ?f"
    using msec_scale_dec [OF assms(4,5)] by (metis word_of_int_uint)
  moreover have "dropWhile isblank (bs @ ndigits is @ ''.'' @ ndigits fs @ bs') =
      ndigits is @ ''.'' @ ndigits fs @ bs'"
    using assms by (intro skip_front) (simp_all add: isblank_def ord_def)
  ultimately have "parse_msec (bs @ ndigits is @ ''.'' @ ndigits fs @ bs') = dec is * 1000 + ?f"
    using assms v [OF f] blank
    by (simp add: parse_msec_def msec_digits_dec no_digit_simps)
  moreover have "parse_msec (bs @ ndigits is @ bs') = dec is * 1000" if ne: "is \<noteq> []"
  proof -
    obtain i r where i: "is = i # r" using ne by (cases "is") auto
    have "dropWhile isblank (bs @ ndigits is @ bs') = ndigits is @ bs'"
      using i assms isdigit_digit_char [of i] digit_not_blank
      by (intro dropWhile_front) (auto simp: ndigits_def all_digits_def)
    moreover have "(case bs' of [] \<Rightarrow> A | c # r \<Rightarrow> if c = CHR ''.'' then B c r else A) = A" for A :: "u32 \<times> string" and B
      using assms(2) by (cases bs') (auto simp: isblank_def ord_def)
    ultimately show ?thesis
      using assms v [of 0] blank
      by (simp add: parse_msec_def msec_digits_dec no_digit_simps)
  qed
  ultimately show ?thesis by blast
qed

theorem parse_msec_decimal_witness:
  "parse_msec '' 12.3456 '' = 12345 \<and> all_digits [1, 2]"
proof -
  have "'' 12.3456 '' = '' '' @ ndigits [1, 2] @ ''.'' @ ndigits [3, 4, 5, 6] @ '' ''" by code_simp
  moreover have "list_all isblank '' ''" "all_digits [1, 2]" "all_digits [3, 4, 5, 6]" by code_simp+
  moreover have "dec [1, 2] * 1000 + dec [3, 4, 5, 6] * 1000 div 10 ^ length [3, 4, 5, 6 :: int] = 12345"
    "dec [1, 2] \<le> 2147482" "length [3, 4, 5, 6 :: int] \<le> 9"
    by (simp_all add: dec_def)
  ultimately show ?thesis
    using parse_msec_decimal [of "'' ''" "'' ''" "[1, 2]" "[3, 4, 5, 6]"] by metis
qed

text \<open>
  beyond those bounds the wrap-around of \<open>unsigned\<close> shows: a fraction of ten digits
  loses its leading part before it is scaled (half a second reads as 70 ms), and a
  number of seconds above \<open>INT_MAX / 1000\<close> becomes an arbitrary number of milliseconds,
  negative ones other than the error value -1 included.
\<close>

theorem parse_msec_wraps:
  "parse_msec ''0.5000000000'' = 70 \<and> parse_msec ''4294968'' = 704 \<and>
   parse_msec ''2147484'' = -2147483296"
  by code_simp

text \<open>
  text without a number is not an error for either parser: the empty text, and
  text of blanks only, read as 0.
\<close>

theorem blank_reads_as_zero:
  assumes "list_all isblank s"
  shows "parse_nat s = 0 \<and> parse_msec s = 0"
proof -
  have "list_all isspace s" using assms isblank_isspace by (auto simp: list_all_iff)
  note strtol_blank [OF this] and skip = dropWhile_all [OF assms]
  then show ?thesis
    unfolding parse_nat_def parse_msec_def skip by (simp add: skip INT_MAX_def del: dropWhile_eq_Nil_conv)
qed

theorem blank_reads_as_zero_witness: "parse_nat '' '' = 0 \<and> parse_msec '' '' = 0"
proof (rule blank_reads_as_zero)
  show "list_all isblank '' ''" by code_simp
qed

end
