(* ===== verification/Prefix.thy ===== *)
theory Prefix
  imports Prelude
begin

text \<open>
  Address prefixes (\<open>util.c\<close>, \<open>util.h\<close>): matching, masking and comparing prefixes,
  and the address classes. An address is the list of its bytes; every read of
  an array is checked against its length, so that an access out of bounds is the
  fault \<open>OutOfBounds\<close>.
\<close>

section \<open>Arrays of bytes\<close>

definition byte_at :: "u8 list \<Rightarrow> nat \<Rightarrow> u8 result" where
  "byte_at a i = (if i < length a then Inr (a ! i) else Inl OutOfBounds)"

text \<open>\<open>memcmp(a,b,n) == 0\<close>.\<close>

definition memcmp_eq :: "u8 list \<Rightarrow> u8 list \<Rightarrow> nat \<Rightarrow> bool result" where
  "memcmp_eq a b n =
     (if n \<le> length a \<and> n \<le> length b then Inr (take n a = take n b) else Inl OutOfBounds)"

text \<open>\<open>memcpy(dst + at,src,n)\<close>.\<close>

definition memcpy_at :: "u8 list \<Rightarrow> nat \<Rightarrow> u8 list \<Rightarrow> nat \<Rightarrow> u8 list result" where
  "memcpy_at dst at src n =
     (if n \<le> length src \<and> at + n \<le> length dst
      then Inr (take at dst @ take n src @ drop (at + n) dst) else Inl OutOfBounds)"

section \<open>Definitions\<close>

definition in_prefix :: "u8 list \<Rightarrow> u8 list \<Rightarrow> u8 \<Rightarrow> bool result" where
  "in_prefix address prefix plen =
     (let plen = (if plen > 128 then 128 else plen)
      in bind_r (memcmp_eq address prefix (unat (plen div 8))) (\<lambda>same.
           if \<not> same then Inr False
           else if plen mod 8 = 0 then Inr True
           else let m = push_bit (8 - unat (plen mod 8)) (0xFF :: u8)
                in bind_r (byte_at address (unat (plen div 8))) (\<lambda>x.
                   bind_r (byte_at prefix (unat (plen div 8))) (\<lambda>y.
                     Inr (x AND m = y AND m)))))"

text \<open>The contents of \<open>ret\<close> afterwards.\<close>

definition mask_prefix :: "u8 list \<Rightarrow> u8 list \<Rightarrow> u8 \<Rightarrow> u8 list result" where
  "mask_prefix ret prefix plen =
     (if plen \<ge> 128 then memcpy_at ret 0 prefix 16
      else bind_r (memcpy_at ret 0 (replicate 16 0) 16) (\<lambda>ret.
           bind_r (memcpy_at ret 0 prefix (unat (plen div 8))) (\<lambda>ret.
             if plen mod 8 \<noteq> 0 then
               bind_r (byte_at prefix (unat (plen div 8))) (\<lambda>x.
                 let b = x AND (push_bit (8 - unat (plen mod 8)) 0xFF AND 0xFF)
                 in if unat (plen div 8) < length ret then Inr (ret[unat (plen div 8) := b])
                    else Inl OutOfBounds)
             else Inr ret)))"

definition v4prefix :: "u8 list" where
  "v4prefix = [0, 0, 0, 0, 0, 0, 0, 0, 0, 0, 0xFF, 0xFF, 0, 0, 0, 0]"

definition llprefix :: "u8 list" where
  "llprefix = [0xFE, 0x80, 0, 0, 0, 0, 0, 0, 0, 0, 0, 0, 0, 0, 0, 0]"

definition v4mapped :: "u8 list \<Rightarrow> bool result" where
  "v4mapped address = memcmp_eq address v4prefix 12"

definition linklocal :: "u8 list \<Rightarrow> bool result" where
  "linklocal address = memcmp_eq address llprefix 8"

definition v4tov6 :: "u8 list \<Rightarrow> u8 list \<Rightarrow> u8 list result" where
  "v4tov6 dst src =
     bind_r (memcpy_at dst 0 v4prefix 12) (\<lambda>dst. memcpy_at dst 12 src 4)"

text \<open>The operators \<open>&&\<close> and \<open>||\<close> evaluate their second operand only when it matters.\<close>

definition and_c :: "bool result \<Rightarrow> bool result \<Rightarrow> bool result" where
  "and_c a b = bind_r a (\<lambda>x. if x then b else Inr False)"

definition or_c :: "bool result \<Rightarrow> bool result \<Rightarrow> bool result" where
  "or_c a b = bind_r a (\<lambda>x. if x then Inr True else b)"

definition test_byte :: "u8 list \<Rightarrow> nat \<Rightarrow> (u8 \<Rightarrow> bool) \<Rightarrow> bool result" where
  "test_byte a i t = bind_r (byte_at a i) (\<lambda>x. Inr (t x))"

text \<open>\<open>zeroes\<close> is declared in \<open>util.h\<close> and defined nowhere in the repository: a parameter.\<close>

definition martian_prefix :: "u8 list \<Rightarrow> u8 list \<Rightarrow> int \<Rightarrow> bool result" where
  "martian_prefix zeroes prefix plen =
     or_c (and_c (Inr (plen \<ge> 8)) (test_byte prefix 0 (\<lambda>x. x = 0xFF)))
    (or_c (and_c (Inr (plen \<ge> 10))
            (and_c (test_byte prefix 0 (\<lambda>x. x = 0xFE)) (test_byte prefix 1 (\<lambda>x. x AND 0xC0 = 0x80))))
    (or_c (and_c (Inr (plen \<ge> 128))
            (and_c (memcmp_eq prefix zeroes 15) (test_byte prefix 15 (\<lambda>x. x = 0 \<or> x = 1))))
          (and_c (Inr (plen \<ge> 96))
            (and_c (v4mapped prefix)
              (or_c (and_c (Inr (plen \<ge> 104)) (test_byte prefix 12 (\<lambda>x. x = 127 \<or> x = 0)))
                    (and_c (Inr (plen \<ge> 100)) (test_byte prefix 12 (\<lambda>x. x AND 0xE0 = 0xE0))))))))"

datatype prefixes_status = PST_DISJOINT | PST_EQUALS | PST_MORE_SPECIFIC | PST_LESS_SPECIFIC

text \<open>
  The loop of \<open>prefixes_cmp\<close> over the whole bytes \<open>i\<close> to \<open>n - 1\<close>: do they agree? The
  mask is the \<open>signed char\<close> \<open>1 << 7\<close>, shifted right arithmetically.
\<close>

function same_bytes :: "u8 list \<Rightarrow> u8 list \<Rightarrow> nat \<Rightarrow> nat \<Rightarrow> bool result" where
  "same_bytes p1 p2 i n =
     (if i < n then
        bind_r (byte_at p1 i) (\<lambda>x. bind_r (byte_at p2 i) (\<lambda>y.
          if x \<noteq> y then Inr False else same_bytes p1 p2 (i + 1) n))
      else Inr True)"
  by pat_completeness auto

termination
  by (relation "measure (\<lambda>(_, _, i, n). n - i)") auto

declare same_bytes.simps [simp del]

definition prefixes_cmp :: "u8 list \<Rightarrow> u8 \<Rightarrow> u8 list \<Rightarrow> u8 \<Rightarrow> prefixes_status result" where
  "prefixes_cmp p1 plen1 p2 plen2 =
     (let min = unat (if plen1 < plen2 then plen1 else plen2);
          i = min div 8;
          order = (if plen1 < plen2 then PST_LESS_SPECIFIC
                   else if plen1 > plen2 then PST_MORE_SPECIFIC
                   else PST_EQUALS)
      in bind_r (same_bytes p1 p2 0 i) (\<lambda>same.
           if \<not> same then Inr PST_DISJOINT
           else let min = min - i * 8
                in if min \<noteq> 0 then
                     let mask = signed_drop_bit (min - 1) (push_bit 7 1 :: u8)
                     in bind_r (byte_at p1 i) (\<lambda>x. bind_r (byte_at p2 i) (\<lambda>y.
                          if x AND mask \<noteq> y AND mask then Inr PST_DISJOINT else Inr order))
                   else Inr order))"

section \<open>Bits of an address\<close>

definition addr_bit :: "u8 list \<Rightarrow> nat \<Rightarrow> bool" where
  "addr_bit a i = bit (a ! (i div 8)) (7 - i mod 8)"

definition agree :: "nat \<Rightarrow> u8 list \<Rightarrow> u8 list \<Rightarrow> bool" where
  "agree n a b \<longleftrightarrow> (\<forall>i < n. addr_bit a i = addr_bit b i)"

lemma byte_eq_bits: "x = y \<longleftrightarrow> (\<forall>j < 8. bit x (7 - j) = bit y (7 - j))" for x y :: u8
proof
  assume eq: "\<forall>j < 8. bit x (7 - j) = bit y (7 - j)"
  show "x = y"
  proof (rule bit_word_eqI)
    fix n
    assume "n < LENGTH(8)"
    with eq [rule_format, of "7 - n"] show "bit x n = bit y n" by simp
  qed
qed simp

lemma addr_bit_byte: "j < 8 \<Longrightarrow> addr_bit a (8 * k + j) = bit (a ! k) (7 - j)"
  by (simp add: addr_bit_def)

lemma agree_whole:
  "agree (8 * k) a b \<longleftrightarrow> (\<forall>i < k. a ! i = b ! i)"
proof
  assume ag: "agree (8 * k) a b"
  show "\<forall>i < k. a ! i = b ! i"
  proof (intro allI impI)
    fix i assume "i < k"
    then have "8 * i + j < 8 * k" if "j < 8" for j using that by linarith
    with ag show "a ! i = b ! i"
      unfolding byte_eq_bits agree_def by (metis addr_bit_byte)
  qed
next
  assume "\<forall>i < k. a ! i = b ! i"
  then show "agree (8 * k) a b"
    by (simp add: agree_def addr_bit_def less_mult_imp_div_less mult.commute)
qed

lemma agree_split:
  "r \<le> 8 \<Longrightarrow> agree (8 * k + r) a b \<longleftrightarrow>
     agree (8 * k) a b \<and> (\<forall>j < r. bit (a ! k) (7 - j) = bit (b ! k) (7 - j))"
proof -
  assume r: "r \<le> 8"
  have "i < 8 * k + r \<longleftrightarrow> i < 8 * k \<or> (\<exists>j < r. i = 8 * k + j)" for i
    by (auto simp: less_diff_conv2 intro!: exI [of _ "i - 8 * k"])
  then have "agree (8 * k + r) a b \<longleftrightarrow>
      agree (8 * k) a b \<and> (\<forall>j < r. addr_bit a (8 * k + j) = addr_bit b (8 * k + j))"
    unfolding agree_def by blast
  with r show ?thesis by (simp add: addr_bit_byte)
qed

lemma take_eq_nth:
  "n \<le> length a \<Longrightarrow> n \<le> length b \<Longrightarrow> take n a = take n b \<longleftrightarrow> (\<forall>i < n. a ! i = b ! i)"
  by (auto simp: list_eq_iff_nth_eq)

text \<open>The two forms in which the code makes the mask of the top \<open>r\<close> bits of a byte.\<close>

lemma bit_top_mask:
  assumes "0 < r" "r < 8" "j < 8"
  shows "bit (push_bit (8 - r) (0xFF :: u8)) (7 - j) \<longleftrightarrow> j < r"
proof -
  have "bit (0xFF :: u8) n" if "n < 8" for n
  proof -
    have "(0xFF :: u8) = - 1" by simp
    with that show ?thesis by (simp only: bit_minus_1_iff) simp
  qed
  then show ?thesis
    using assms by (auto simp: bit_push_bit_iff)
qed

lemma top_mask_eq:
  assumes "0 < r" "r < 8"
  shows "x AND push_bit (8 - r) (0xFF :: u8) = y AND push_bit (8 - r) 0xFF \<longleftrightarrow>
    (\<forall>j < r. bit x (7 - j) = bit y (7 - j))"
proof -
  have "j < r \<Longrightarrow> j < 8" for j using assms by simp
  then show ?thesis
    unfolding byte_eq_bits [of "x AND _"] bit_and_iff using bit_top_mask [OF assms] by metis
qed

lemma signed_mask_table:
  "list_all (\<lambda>r. signed_drop_bit (r - 1) (push_bit 7 1 :: u8) = push_bit (8 - r) 0xFF) [1..<8]"
  by code_simp

lemma signed_mask:
  "0 < r \<Longrightarrow> r < 8 \<Longrightarrow> signed_drop_bit (r - 1) (push_bit 7 1 :: u8) = push_bit (8 - r) 0xFF"
  using signed_mask_table unfolding list_all_iff by (metis One_nat_def Suc_leI atLeastLessThan_iff set_upt)

lemma addr_eq_iff_agree: "length a = 16 \<Longrightarrow> length b = 16 \<Longrightarrow> a = b \<longleftrightarrow> agree 128 a b"
  using agree_whole [of 16 a b] by (simp add: list_eq_iff_nth_eq)

lemma agree_refl [simp]: "agree n a a"
  and agree_sym: "agree n a b = agree n b a"
  and agree_mono: "agree n a b \<Longrightarrow> m \<le> n \<Longrightarrow> agree m a b"
  and agree_trans: "agree n a b \<Longrightarrow> agree n b c \<Longrightarrow> agree n a c"
  by (auto simp: agree_def)

lemma agree_divmod:
  "agree n a b \<longleftrightarrow> agree (8 * (n div 8)) a b \<and>
     (\<forall>j < n mod 8. bit (a ! (n div 8)) (7 - j) = bit (b ! (n div 8)) (7 - j))"
  using agree_split [of "n mod 8" "n div 8" a b] by simp

section \<open>Lemmas on the operations\<close>

lemma in_prefix_agree:
  assumes "length a = 16" "length p = 16"
  shows "in_prefix a p plen = Inr (agree (min (unat plen) 128) a p)"
proof -
  define l where "l = (if plen > 128 then 128 else plen)"
  define n where "n = unat l"
  have n: "n = min (unat plen) 128" "n \<le> 128"
    by (simp_all add: n_def l_def word_less_nat_alt min_def)
  have parts: "unat (l div 8) = n div 8" "unat (l mod 8) = n mod 8"
    by (simp_all add: n_def unat_div unat_mod)
  have zero: "l mod 8 = 0 \<longleftrightarrow> n mod 8 = 0"
    by (simp add: word_unat_eq_iff parts)
  have whole: "memcmp_eq a p (n div 8) = Inr (agree (8 * (n div 8)) a p)"
    using n assms by (simp add: memcmp_eq_def agree_whole take_eq_nth)
  show ?thesis
  proof (cases "n mod 8 = 0")
    case True
    then have "agree n a p = agree (8 * (n div 8)) a p"
      using agree_divmod [of n a p] by simp
    then show ?thesis
      unfolding in_prefix_def l_def [symmetric] Let_def parts zero whole n(1) [symmetric]
      using True by simp
  next
    case False
    then have "n div 8 < 16" using n(2) by presburger
    then have byte: "byte_at a (n div 8) = Inr (a ! (n div 8))" "byte_at p (n div 8) = Inr (p ! (n div 8))"
      using assms by (simp_all add: byte_at_def)
    have r: "0 < n mod 8" "n mod 8 < 8" using False by simp_all
    show ?thesis
      unfolding in_prefix_def l_def [symmetric] Let_def parts zero whole n(1) [symmetric] byte
        bind_r_simps top_mask_eq [OF r] agree_divmod [of n a p]
      using False by simp
  qed
qed

lemma memcpy_at_length: "memcpy_at dst at src n = Inr r \<Longrightarrow> length r = length dst"
  by (auto simp: memcpy_at_def split: if_splits)

definition masked :: "nat \<Rightarrow> u8 list \<Rightarrow> u8 list" where
  "masked n p =
     map (\<lambda>k. if k < n div 8 then p ! k
              else if k = n div 8 \<and> n mod 8 \<noteq> 0 then p ! k AND push_bit (8 - n mod 8) 0xFF
              else 0) [0..<16]"

lemma length_masked [simp]: "length (masked n p) = 16"
  by (simp add: masked_def)

lemma masked_all: "length p = 16 \<Longrightarrow> 128 \<le> n \<Longrightarrow> masked n p = p"
  by (auto simp: masked_def list_eq_iff_nth_eq)

lemma mask_prefix_masked:
  assumes "length ret = 16" "length p = 16"
  shows "mask_prefix ret p plen = Inr (masked (unat plen) p)"
proof (cases "plen \<ge> 128")
  case True
  then have "128 \<le> unat plen" by (simp add: word_le_nat_alt)
  then show ?thesis
    using True assms masked_all by (simp add: mask_prefix_def memcpy_at_def)
next
  case False
  define n where "n = unat plen"
  have n: "n < 128" using False by (simp add: n_def word_le_nat_alt)
  have parts: "unat (plen div 8) = n div 8" "unat (plen mod 8) = n mod 8"
    by (simp_all add: n_def unat_div unat_mod)
  have zero: "plen mod 8 = 0 \<longleftrightarrow> n mod 8 = 0"
    by (simp add: word_unat_eq_iff parts)
  have k: "n div 8 < 16" using n by presburger
  have ff: "push_bit (8 - n mod 8) 0xFF AND 0xFF = (push_bit (8 - n mod 8) 0xFF :: u8)"
  proof -
    have "(0xFF :: u8) = - 1" by simp
    then show ?thesis by (metis and.right_neutral)
  qed
  have base: "take 0 ret @ take 16 (replicate 16 0) @ drop (0 + 16) ret = (replicate 16 0 :: u8 list)"
    using assms by simp
  have byte: "byte_at p (n div 8) = Inr (p ! (n div 8))" using k assms by (simp add: byte_at_def)
  have copy: "memcpy_at (replicate 16 0) 0 p (n div 8) = Inr (take (n div 8) p @ replicate (16 - n div 8) 0)"
    using k assms by (simp add: memcpy_at_def)
  have clear: "memcpy_at ret 0 (replicate 16 0) 16 = Inr (replicate 16 0)"
    using assms by (simp add: memcpy_at_def)
  let ?r = "take (n div 8) p @ replicate (16 - n div 8) 0"
  have len: "length ?r = 16" using k assms by simp
  have "masked n p = (if n mod 8 \<noteq> 0 then ?r[n div 8 := p ! (n div 8) AND push_bit (8 - n mod 8) 0xFF] else ?r)"
    using k assms by (auto simp: masked_def list_eq_iff_nth_eq nth_append nth_list_update)
  then show ?thesis
    using False k len
    unfolding mask_prefix_def parts zero clear copy bind_r_simps byte ff n_def [symmetric] Let_def
    by simp
qed

lemma bit_masked:
  assumes "i < 128"
  shows "addr_bit (masked n p) i \<longleftrightarrow> i < n \<and> addr_bit p i"
proof -
  define k j where "k = i div 8" and "j = i mod 8"
  have kj: "k < 16" "j < 8" "i = 8 * k + j" using assms by (simp_all add: k_def j_def)
  have "addr_bit (masked n p) i \<longleftrightarrow> bit (masked n p ! k) (7 - j)"
    unfolding kj(3) using kj(2) by (rule addr_bit_byte)
  also have "\<dots> \<longleftrightarrow> i < n \<and> bit (p ! k) (7 - j)"
  proof (cases "k = n div 8 \<and> n mod 8 \<noteq> 0")
    case True
    then have "i < n \<longleftrightarrow> j < n mod 8"
      using kj by (metis mult_div_mod_eq nat_add_left_cancel_less)
    moreover have "masked n p ! k = p ! k AND push_bit (8 - n mod 8) 0xFF"
      using True kj by (simp add: masked_def)
    ultimately show ?thesis
      using bit_top_mask [of "n mod 8" j] True kj(2) by (auto simp: bit_and_iff)
  next
    case False
    then have "masked n p ! k = (if k < n div 8 then p ! k else 0)"
      using kj(1) by (auto simp: masked_def)
    moreover have "i < n \<longleftrightarrow> k < n div 8"
    proof (cases "k < n div 8")
      case True
      then have "8 * k + 8 \<le> 8 * (n div 8)" by simp
      then show ?thesis using True kj(2,3) mult_div_mod_eq [of 8 n] by linarith
    next
      case less: False
      then have "8 * (n div 8) \<le> 8 * k" "n mod 8 = 0 \<or> 8 * (n div 8) + 8 \<le> 8 * k"
        using False by auto
      then show ?thesis
        using less kj(3) mult_div_mod_eq [of 8 n] mod_less_divisor [of 8 n] by linarith
    qed
    ultimately show ?thesis by simp
  qed
  also have "bit (p ! k) (7 - j) = addr_bit p i"
    unfolding kj(3) using kj(2) by (simp add: addr_bit_byte)
  finally show ?thesis .
qed

lemma agree_masked: "n \<le> 128 \<Longrightarrow> agree 128 (masked n a) (masked n b) \<longleftrightarrow> agree n a b"
  unfolding agree_def by (meson bit_masked less_le_trans)

lemma same_bytes_agree:
  assumes "n \<le> length a" "n \<le> length b" "i \<le> n"
  shows "same_bytes a b i n = Inr (\<forall>k. i \<le> k \<and> k < n \<longrightarrow> a ! k = b ! k)"
  using assms(3)
proof (induction "n - i" arbitrary: i)
  case 0
  then show ?case by (subst same_bytes.simps) auto
next
  case (Suc d)
  then have i: "i < n" by simp
  have "same_bytes a b (i + 1) n = Inr (\<forall>k. i + 1 \<le> k \<and> k < n \<longrightarrow> a ! k = b ! k)"
    using Suc by (intro Suc.hyps(1)) simp_all
  moreover have step: "i \<le> k \<and> k < n \<longleftrightarrow> k = i \<or> (i + 1 \<le> k \<and> k < n)" for k
    using i by auto
  moreover have "(\<forall>k. i \<le> k \<and> k < n \<longrightarrow> a ! k = b ! k) \<longleftrightarrow>
      a ! i = b ! i \<and> (\<forall>k. i + 1 \<le> k \<and> k < n \<longrightarrow> a ! k = b ! k)"
    unfolding step by blast
  ultimately show ?case
    using i assms(1,2) by (subst same_bytes.simps) (simp add: byte_at_def)
qed

definition order_of :: "u8 \<Rightarrow> u8 \<Rightarrow> prefixes_status" where
  "order_of l1 l2 =
     (if l1 < l2 then PST_LESS_SPECIFIC else if l1 > l2 then PST_MORE_SPECIFIC else PST_EQUALS)"

lemma prefixes_cmp_agree:
  assumes "length p1 = 16" "length p2 = 16" "l1 \<le> 128 \<or> l2 \<le> 128"
  shows "prefixes_cmp p1 l1 p2 l2 =
    Inr (if agree (min (unat l1) (unat l2)) p1 p2 then order_of l1 l2 else PST_DISJOINT)"
proof -
  define n where "n = min (unat l1) (unat l2)"
  have n: "unat (if l1 < l2 then l1 else l2) = n" "n \<le> 128"
    using assms(3) by (auto simp: n_def word_less_nat_alt word_le_nat_alt)
  have whole: "same_bytes p1 p2 0 (n div 8) = Inr (agree (8 * (n div 8)) p1 p2)"
    using n assms by (simp add: same_bytes_agree agree_whole)
  have rest: "n - n div 8 * 8 = n mod 8" by presburger
  show ?thesis
  proof (cases "n mod 8 = 0")
    case True
    then have "agree n p1 p2 = agree (8 * (n div 8)) p1 p2"
      using agree_divmod [of n p1 p2] by simp
    with True show ?thesis
      unfolding prefixes_cmp_def Let_def n whole bind_r_simps rest n_def [symmetric] order_of_def
      by simp
  next
    case False
    then have "n div 8 < 16" using n(2) by presburger
    then have byte: "byte_at p1 (n div 8) = Inr (p1 ! (n div 8))" "byte_at p2 (n div 8) = Inr (p2 ! (n div 8))"
      using assms by (simp_all add: byte_at_def)
    have r: "0 < n mod 8" "n mod 8 < 8" using False by simp_all
    show ?thesis
      unfolding prefixes_cmp_def Let_def n whole bind_r_simps rest n_def [symmetric] order_of_def
        byte signed_mask [OF r] top_mask_eq [OF r] agree_divmod [of n p1 p2]
      using False by (simp add: if_bool_eq_disj) metis
  qed
qed

section \<open>Properties\<close>

text \<open>
  C4: \<open>in_prefix\<close> reads no byte out of bounds and decides whether the first \<open>plen\<close>
  bits agree (all 128 when \<open>plen\<close> is larger), which is to say whether the two addresses
  have the same masked prefix as \<open>mask_prefix\<close> computes it.
\<close>

theorem in_prefix_correct:
  assumes "length a = 16" "length p = 16" "length ret = 16"
  shows "in_prefix a p plen = Inr (agree (min (unat plen) 128) a p) \<and>
    in_prefix a p plen = Inr (mask_prefix ret a plen = mask_prefix ret p plen)"
proof -
  have "masked (unat plen) a = masked (unat plen) p \<longleftrightarrow> agree (min (unat plen) 128) a p"
  proof (cases "unat plen \<le> 128")
    case True
    then show ?thesis
      using addr_eq_iff_agree [of "masked (unat plen) a" "masked (unat plen) p"] agree_masked by simp
  next
    case False
    with assms have "masked (unat plen) a = a" "masked (unat plen) p = p"
      by (simp_all add: masked_all)
    then show ?thesis using False addr_eq_iff_agree [OF assms(1,2)] by simp
  qed
  with assms show ?thesis by (simp add: in_prefix_agree mask_prefix_masked)
qed

text \<open>
  C38: \<open>mask_prefix\<close> keeps the first \<open>plen\<close> bits, clears the others, stays within its
  arrays, and changes nothing when applied to its own result.
\<close>

theorem mask_prefix_correct:
  assumes "length ret = 16" "length p = 16"
  shows "\<exists>r. mask_prefix ret p plen = Inr r \<and> length r = 16 \<and>
    (\<forall>i < 128. addr_bit r i = (i < unat plen \<and> addr_bit p i)) \<and>
    mask_prefix ret r plen = Inr r"
proof -
  let ?n = "unat plen" and ?r = "masked (unat plen) p"
  have "agree 128 (masked ?n ?r) ?r" by (auto simp: agree_def bit_masked)
  then have "masked ?n ?r = ?r" by (simp add: addr_eq_iff_agree)
  with assms show ?thesis by (auto simp: mask_prefix_masked bit_masked)
qed

text \<open>
  C6: \<open>prefixes_cmp\<close> orders two prefixes by inclusion: they are disjoint exactly when
  neither contains the other in the sense of \<open>in_prefix\<close>, otherwise the longer one is
  the more specific, and exchanging the arguments exchanges the verdict.
\<close>

theorem prefixes_cmp_inclusion:
  assumes "length p1 = 16" "length p2 = 16" "l1 \<le> 128" "l2 \<le> 128"
  shows "prefixes_cmp p1 l1 p2 l2 = Inr (
      if in_prefix p1 p2 l2 = Inr True \<and> l2 < l1 then PST_MORE_SPECIFIC
      else if in_prefix p2 p1 l1 = Inr True \<and> l1 < l2 then PST_LESS_SPECIFIC
      else if in_prefix p1 p2 l2 = Inr True \<and> l1 = l2 then PST_EQUALS
      else PST_DISJOINT)"
proof -
  have l: "min (unat l1) 128 = unat l1" "min (unat l2) 128 = unat l2"
    using assms(3,4) by (simp_all add: word_le_nat_alt)
  show ?thesis
    using assms(3) agree_sym [of "unat l1" p1 p2] linorder_less_linear [of l1 l2]
    unfolding prefixes_cmp_agree [OF assms(1,2) disjI1 [OF assms(3)]]
      in_prefix_agree [OF assms(1,2)] in_prefix_agree [OF assms(2,1)] l order_of_def
    by (elim disjE) (auto simp: word_less_nat_alt)
qed

text \<open>
  \<open>prefixes_cmp\<close> has no clamp like that of \<open>in_prefix\<close>: with two lengths above 128 it
  reads past the end of both addresses unless they differ, while one length of at
  most 128 makes every access safe.
\<close>

theorem prefixes_cmp_bounds:
  assumes "length p1 = 16" "length p2 = 16"
  shows "prefixes_cmp p1 l1 p2 l2 = Inl OutOfBounds \<longleftrightarrow> 128 < l1 \<and> 128 < l2 \<and> p1 = p2"
proof (cases "l1 \<le> 128 \<or> l2 \<le> 128")
  case True
  then show ?thesis using assms prefixes_cmp_agree [OF assms True] by auto
next
  case False
  define n where "n = min (unat l1) (unat l2)"
  have n: "unat (if l1 < l2 then l1 else l2) = n" "128 < n"
    using False by (auto simp: n_def word_less_nat_alt word_le_nat_alt)
  have split: "same_bytes p1 p2 i k = (if \<forall>j. i \<le> j \<and> j < 16 \<longrightarrow> p1 ! j = p2 ! j
      then (if k \<le> 16 then Inr True else Inl OutOfBounds) else Inr False)"
    if "i \<le> 16" "16 \<le> k" for i k
    using that(1)
  proof (induction "16 - i" arbitrary: i)
    case 0
    with that assms show ?case
      by (subst same_bytes.simps) (auto simp: byte_at_def)
  next
    case (Suc d)
    then have i: "i < 16" by simp
    have step: "i \<le> j \<and> j < 16 \<longleftrightarrow> j = i \<or> (i + 1 \<le> j \<and> j < 16)" for j using i by auto
    have "same_bytes p1 p2 (i + 1) k = (if \<forall>j. i + 1 \<le> j \<and> j < 16 \<longrightarrow> p1 ! j = p2 ! j
      then (if k \<le> 16 then Inr True else Inl OutOfBounds) else Inr False)"
      using Suc by (intro Suc.hyps(1)) simp_all
    with i that assms show ?case
      unfolding step by (subst same_bytes.simps) (auto simp: byte_at_def)
  qed
  have eq: "(\<forall>j. 0 \<le> j \<and> j < 16 \<longrightarrow> p1 ! j = p2 ! j) \<longleftrightarrow> p1 = p2"
    using assms by (simp add: list_eq_iff_nth_eq)
  have bytes: "same_bytes p1 p2 0 (n div 8) = (if p1 = p2
      then (if n div 8 \<le> 16 then Inr True else Inl OutOfBounds) else Inr False)"
    using split [of 0 "n div 8"] n(2) unfolding eq by simp
  have past: "byte_at p1 (n div 8) = Inl OutOfBounds"
    using n(2) assms by (simp add: byte_at_def)
  have rest: "n - n div 8 * 8 = 0 \<longrightarrow> \<not> n div 8 \<le> 16" using n(2) by presburger
  show ?thesis
    unfolding prefixes_cmp_def Let_def n bytes using False past rest
    by (cases "p1 = p2"; cases "n div 8 \<le> 16") (auto simp: not_le bind_r_def)
qed

text \<open>The reserved blocks.\<close>

definition martian_blocks :: "(u8 list \<times> u8) list" where
  "martian_blocks =
     [([0xFF, 0, 0, 0, 0, 0, 0, 0, 0, 0, 0, 0, 0, 0, 0, 0], 8),
      ([0xFE, 0x80, 0, 0, 0, 0, 0, 0, 0, 0, 0, 0, 0, 0, 0, 0], 10),
      ([0, 0, 0, 0, 0, 0, 0, 0, 0, 0, 0, 0, 0, 0, 0, 0], 128),
      ([0, 0, 0, 0, 0, 0, 0, 0, 0, 0, 0, 0, 0, 0, 0, 1], 128),
      ([0, 0, 0, 0, 0, 0, 0, 0, 0, 0, 0xFF, 0xFF, 127, 0, 0, 0], 104),
      ([0, 0, 0, 0, 0, 0, 0, 0, 0, 0, 0xFF, 0xFF, 0, 0, 0, 0], 104),
      ([0, 0, 0, 0, 0, 0, 0, 0, 0, 0, 0xFF, 0xFF, 224, 0, 0, 0], 100),
      ([0, 0, 0, 0, 0, 0, 0, 0, 0, 0, 0xFF, 0xFF, 240, 0, 0, 0], 100)]"

lemma class_bits_table:
  "list_all (\<lambda>n. let x = word_of_int n :: u8 in
      x AND 0xE0 = 0xE0 \<longleftrightarrow> x AND 0xF0 = 0xE0 \<or> x AND 0xF0 = 0xF0) (map int [0..<256])"
  by code_simp

lemma class_bits: "x AND 0xE0 = 0xE0 \<longleftrightarrow> x AND 0xF0 = 0xE0 \<or> x AND 0xF0 = 0xF0" for x :: u8
proof -
  have "uint x < 256" using uint_lt2p [of x] by simp
  then have "uint x \<in> set (map int [0..<256])" by (intro int_in_upt) simp_all
  from bspec [OF class_bits_table [unfolded list_all_iff] this] show ?thesis
    by (simp add: Let_def)
qed

lemma explicit_address:
  assumes "length p = 16"
  obtains b0 b1 b2 b3 b4 b5 b6 b7 b8 b9 b10 b11 b12 b13 b14 b15 where
    "p = [b0, b1, b2, b3, b4, b5, b6, b7, b8, b9, b10, b11, b12, b13, b14, b15]"
  using assms by (auto simp: eval_nat_numeral length_Suc_conv)

text \<open>
  C13: \<open>martian_prefix\<close> is the test for the prefixes that lie inside one of eight
  reserved blocks: multicast, link-local, the unspecified and the loopback address,
  and the IPv4 blocks 127/8, 0/8, 224/4 and 240/4.
\<close>

theorem martian_prefix_blocks:
  assumes "zeroes = replicate 16 0" "length p = 16"
  shows "martian_prefix zeroes p plen =
    Inr (\<exists>(q, l) \<in> set martian_blocks. int (unat l) \<le> plen \<and> in_prefix p q l = Inr True)"
proof -
  obtain b0 b1 b2 b3 b4 b5 b6 b7 b8 b9 b10 b11 b12 b13 b14 b15 where
    p: "p = [b0, b1, b2, b3, b4, b5, b6, b7, b8, b9, b10, b11, b12, b13, b14, b15]"
    using explicit_address [OF assms(2)] .
  have z: "zeroes = [0, 0, 0, 0, 0, 0, 0, 0, 0, 0, 0, 0, 0, 0, 0, 0]"
    using assms(1) by (simp add: eval_nat_numeral)
  define v4 where "v4 \<longleftrightarrow> take 12 p = take 12 v4prefix"
  note ops = in_prefix_def byte_at_def memcmp_eq_def v4mapped_def v4prefix_def
  have wrap: "(16320 :: u8) = 192" "(4080 :: u8) = 240" "(960 :: u8) = 192" by simp_all
  have blocks:
    "in_prefix p [0xFF, 0, 0, 0, 0, 0, 0, 0, 0, 0, 0, 0, 0, 0, 0, 0] 8 = Inr (b0 = 0xFF)"
    "in_prefix p [0xFE, 0x80, 0, 0, 0, 0, 0, 0, 0, 0, 0, 0, 0, 0, 0, 0] 10 =
       Inr (b0 = 0xFE \<and> b1 AND 0xC0 = 0x80)"
    "in_prefix p [0, 0, 0, 0, 0, 0, 0, 0, 0, 0, 0, 0, 0, 0, 0, 0] 128 =
       Inr (take 15 p = take 15 zeroes \<and> b15 = 0)"
    "in_prefix p [0, 0, 0, 0, 0, 0, 0, 0, 0, 0, 0, 0, 0, 0, 0, 1] 128 =
       Inr (take 15 p = take 15 zeroes \<and> b15 = 1)"
    "in_prefix p [0, 0, 0, 0, 0, 0, 0, 0, 0, 0, 0xFF, 0xFF, 127, 0, 0, 0] 104 = Inr (v4 \<and> b12 = 127)"
    "in_prefix p [0, 0, 0, 0, 0, 0, 0, 0, 0, 0, 0xFF, 0xFF, 0, 0, 0, 0] 104 = Inr (v4 \<and> b12 = 0)"
    "in_prefix p [0, 0, 0, 0, 0, 0, 0, 0, 0, 0, 0xFF, 0xFF, 224, 0, 0, 0] 100 =
       Inr (v4 \<and> b12 AND 0xF0 = 0xE0)"
    "in_prefix p [0, 0, 0, 0, 0, 0, 0, 0, 0, 0, 0xFF, 0xFF, 240, 0, 0, 0] 100 =
       Inr (v4 \<and> b12 AND 0xF0 = 0xF0)"
    by (auto simp: p z v4_def ops wrap)
  have bytes: "byte_at p 0 = Inr b0" "byte_at p 1 = Inr b1" "byte_at p 12 = Inr b12"
    "byte_at p 15 = Inr b15"
    by (simp_all add: p byte_at_def)
  have cmp: "memcmp_eq p zeroes 15 = Inr (take 15 p = take 15 zeroes)" "v4mapped p = Inr v4"
    by (simp_all add: memcmp_eq_def v4mapped_def v4_def assms v4prefix_def)
  show ?thesis
    unfolding martian_blocks_def martian_prefix_def test_byte_def bytes cmp bind_r_simps
    by (auto simp: blocks or_c_def and_c_def class_bits)
qed

text \<open>
  a link-local address in the sense of \<open>linklocal\<close> (fe80::/64) is never routed: as a
  host prefix it is martian; and an address made by \<open>v4tov6\<close> is IPv4-mapped, carries
  the IPv4 address in its last four bytes and is not link-local.
\<close>

theorem address_classes:
  assumes "zeroes = replicate 16 0" "length a = 16" "length src = 4"
  shows "(linklocal a = Inr True \<longrightarrow> martian_prefix zeroes a 128 = Inr True) \<and>
    (\<exists>r. v4tov6 a src = Inr r \<and> length r = 16 \<and> drop 12 r = src \<and> v4mapped r = Inr True \<and>
         linklocal r = Inr False)"
proof
  obtain b0 b1 b2 b3 b4 b5 b6 b7 b8 b9 b10 b11 b12 b13 b14 b15 where
    a: "a = [b0, b1, b2, b3, b4, b5, b6, b7, b8, b9, b10, b11, b12, b13, b14, b15]"
    using explicit_address [OF assms(2)] .
  show "linklocal a = Inr True \<longrightarrow> martian_prefix zeroes a 128 = Inr True"
  proof
    assume "linklocal a = Inr True"
    then have b: "b0 = 0xFE" "b1 = 0x80" by (auto simp: a linklocal_def memcmp_eq_def llprefix_def)
    then show "martian_prefix zeroes a 128 = Inr True"
      by (simp add: martian_prefix_def a or_c_def and_c_def test_byte_def byte_at_def)
  qed
  obtain c0 c1 c2 c3 where src: "src = [c0, c1, c2, c3]"
    using assms(3) by (auto simp: eval_nat_numeral length_Suc_conv)
  show "\<exists>r. v4tov6 a src = Inr r \<and> length r = 16 \<and> drop 12 r = src \<and> v4mapped r = Inr True \<and>
         linklocal r = Inr False"
    by (auto simp: a src v4tov6_def memcpy_at_def v4prefix_def v4mapped_def linklocal_def
        memcmp_eq_def llprefix_def)
qed

section \<open>Witnesses\<close>

definition addr_10_1 :: "u8 list" where
  "addr_10_1 = [0, 0, 0, 0, 0, 0, 0, 0, 0, 0, 0xFF, 0xFF, 10, 1, 2, 3]"

definition addr_10 :: "u8 list" where
  "addr_10 = [0, 0, 0, 0, 0, 0, 0, 0, 0, 0, 0xFF, 0xFF, 10, 0, 0, 0]"

theorem in_prefix_correct_witness:
  "in_prefix addr_10_1 addr_10 104 = Inr True \<and> agree 104 addr_10_1 addr_10"
proof -
  have "in_prefix addr_10_1 addr_10 104 = Inr True" by code_simp
  moreover have "length addr_10_1 = 16" "length addr_10 = 16" by (simp_all add: addr_10_1_def addr_10_def)
  ultimately show ?thesis
    using in_prefix_correct [of addr_10_1 addr_10 "replicate 16 0" 104] by simp
qed

theorem mask_prefix_correct_witness:
  "\<exists>r. mask_prefix addr_10 addr_10_1 104 = Inr r \<and> r = addr_10 \<and>
    mask_prefix addr_10 r 104 = Inr r"
proof -
  have "mask_prefix addr_10 addr_10_1 104 = Inr addr_10" by code_simp
  moreover have "length addr_10_1 = 16" "length addr_10 = 16" by (simp_all add: addr_10_1_def addr_10_def)
  ultimately show ?thesis
    using mask_prefix_correct [of addr_10 addr_10_1 104] by auto
qed

theorem prefixes_cmp_inclusion_witness:
  "prefixes_cmp addr_10_1 128 addr_10 104 = Inr PST_MORE_SPECIFIC"
proof -
  have "in_prefix addr_10_1 addr_10 104 = Inr True" by code_simp
  moreover have "length addr_10_1 = 16" "length addr_10 = 16" by (simp_all add: addr_10_1_def addr_10_def)
  ultimately show ?thesis
    using prefixes_cmp_inclusion [of addr_10_1 addr_10 128 104] by simp
qed

theorem prefixes_cmp_bounds_witness:
  "prefixes_cmp addr_10 129 addr_10 200 = Inl OutOfBounds"
proof -
  have "length addr_10 = 16" by (simp add: addr_10_def)
  with prefixes_cmp_bounds [of addr_10 addr_10 129 200] show ?thesis by simp
qed

theorem martian_prefix_blocks_witness:
  "martian_prefix (replicate 16 0) (replicate 10 0 @ [0xFF, 0xFF, 239, 1, 2, 3]) 128 = Inr True \<and>
   martian_prefix (replicate 16 0) addr_10 104 = Inr False"
proof -
  have "\<exists>(q, l) \<in> set martian_blocks. int (unat l) \<le> 128 \<and>
      in_prefix (replicate 10 0 @ [0xFF, 0xFF, 239, 1, 2, 3]) q l = Inr True"
    and "\<not> (\<exists>(q, l) \<in> set martian_blocks. int (unat l) \<le> 104 \<and> in_prefix addr_10 q l = Inr True)"
    by code_simp+
  moreover have "length addr_10 = 16" by (simp add: addr_10_def)
  ultimately show ?thesis
    by (simp add: martian_prefix_blocks [of "replicate 16 0"])
qed

theorem address_classes_witness:
  "martian_prefix (replicate 16 0) llprefix 128 = Inr True \<and>
   (\<exists>r. v4tov6 llprefix [10, 1, 2, 3] = Inr r \<and> drop 12 r = [10, 1, 2, 3])"
proof -
  have "linklocal llprefix = Inr True" "length llprefix = 16" by code_simp+
  with address_classes [of "replicate 16 0" llprefix "[10, 1, 2, 3]"] show ?thesis by auto
qed

end
