(* ===== verification/Addr_Text.thy ===== *)
theory Addr_Text
  imports Prefix Cstring
begin

text \<open>
  Addresses as text (\<open>util.c\<close>): \<open>format_address\<close>, \<open>format_prefix\<close>, \<open>format_eui64\<close> and the
  parsers that read their output. \<open>inet_ntop\<close> and \<open>inet_pton\<close> are the parameters \<open>ntop\<close>
  and \<open>pton\<close>; what the round trips rely on is the predicate \<open>inet_text\<close>. \<open>sscanf\<close> with
  \<open>%02hhx\<close> is modelled as glibc reads it: white space, then at most two characters of a
  hexadecimal number, a sign among them.
\<close>

section \<open>Formatting\<close>

text \<open>
  The four static buffers of each formatting function, used in turn; the pointer that
  is returned is the index of a buffer.
\<close>

record fmt_bufs =
  bufs :: "string list"
  cur :: nat

definition next_buf :: "fmt_bufs \<Rightarrow> string \<Rightarrow> fmt_bufs \<times> nat" where
  "next_buf st s = (let i = (cur st + 1) mod 4 in (st\<lparr>bufs := (bufs st)[i := s], cur := i\<rparr>, i))"

type_synonym ntop_fun = "family \<Rightarrow> u8 list \<Rightarrow> string"
type_synonym pton_fun = "family \<Rightarrow> string \<Rightarrow> u8 list option"

definition address_text :: "ntop_fun \<Rightarrow> u8 list \<Rightarrow> string result" where
  "address_text ntop address =
     bind_r (v4mapped address) (\<lambda>m.
       Inr (if m then ntop AF_INET (take 4 (drop 12 address)) else ntop AF_INET6 (take 16 address)))"

definition format_address :: "ntop_fun \<Rightarrow> fmt_bufs \<Rightarrow> u8 list \<Rightarrow> (fmt_bufs \<times> nat) result" where
  "format_address ntop st address =
     bind_r (address_text ntop address) (\<lambda>s. Inr (next_buf st s))"

text \<open>\<open>snprintf(buf + n,size - n,..)\<close> after a string of length \<open>n\<close>: what does not fit is cut.\<close>

definition append_within :: "nat \<Rightarrow> string \<Rightarrow> string \<Rightarrow> string" where
  "append_within room s t = s @ take (room - 1 - length s) t"

definition INET6_ADDRSTRLEN :: nat where "INET6_ADDRSTRLEN = 46"

definition prefix_text :: "ntop_fun \<Rightarrow> u8 list \<Rightarrow> u8 \<Rightarrow> string result" where
  "prefix_text ntop prefix plen =
     bind_r (if plen \<ge> 96 then v4mapped prefix else Inr False) (\<lambda>v4.
       Inr (if v4
            then append_within (INET6_ADDRSTRLEN + 4) (ntop AF_INET (take 4 (drop 12 prefix)))
                   (''/'' @ print_int (uint plen - 96))
            else append_within (INET6_ADDRSTRLEN + 4) (ntop AF_INET6 (take 16 prefix))
                   (''/'' @ print_int (uint plen))))"

definition format_prefix :: "ntop_fun \<Rightarrow> fmt_bufs \<Rightarrow> u8 list \<Rightarrow> u8 \<Rightarrow> (fmt_bufs \<times> nat) result" where
  "format_prefix ntop st prefix plen =
     bind_r (prefix_text ntop prefix plen) (\<lambda>s. Inr (next_buf st s))"

fun join_hex :: "char \<Rightarrow> u8 list \<Rightarrow> string" where
  "join_hex sep [] = []"
| "join_hex sep [b] = print_02x (uint b)"
| "join_hex sep (b # bs) = print_02x (uint b) @ sep # join_hex sep bs"

definition eui64_text :: "u8 list \<Rightarrow> string result" where
  "eui64_text eui =
     (if 8 \<le> length eui then Inr (append_within 28 [] (join_hex CHR '':'' (take 8 eui))) else Inl OutOfBounds)"

definition format_eui64 :: "fmt_bufs \<Rightarrow> u8 list \<Rightarrow> (fmt_bufs \<times> nat) result" where
  "format_eui64 st eui = bind_r (eui64_text eui) (\<lambda>s. Inr (next_buf st s))"

section \<open>Parsing addresses and prefixes\<close>

text \<open>(returned value, \<open>addr_r\<close> afterwards, \<open>*af_r\<close> if it was written).\<close>

definition parse_address :: "pton_fun \<Rightarrow> string \<Rightarrow> u8 list \<Rightarrow> (int \<times> u8 list \<times> family option) result" where
  "parse_address pton address addr_r =
     (case pton AF_INET address of
        Some ina \<Rightarrow>
          bind_r (memcpy_at addr_r 0 v4prefix 12) (\<lambda>addr_r.
          bind_r (memcpy_at addr_r 12 ina 4) (\<lambda>addr_r. Inr (0, addr_r, Some AF_INET)))
      | None \<Rightarrow>
          (case pton AF_INET6 address of
             Some ina6 \<Rightarrow> bind_r (memcpy_at addr_r 0 ina6 16) (\<lambda>addr_r. Inr (0, addr_r, Some AF_INET6))
           | None \<Rightarrow> Inr (-1, addr_r, None)))"

text \<open>
  The part of \<open>parse_net\<close> before the results are written: prefix, length and family, or
  \<open>None\<close> where it returns -1. The array \<open>prefix\<close> is not initialised; \<open>junk\<close> is what it holds.
\<close>

definition net_parts :: "pton_fun \<Rightarrow> u8 list \<Rightarrow> string \<Rightarrow> (u8 list \<times> int \<times> family) option result" where
  "net_parts pton junk net =
     (if net = ''default'' then
        bind_r (memcpy_at junk 0 (replicate 16 0) 16) (\<lambda>prefix. Inr (Some (prefix, 0, AF_INET6)))
      else if CHR ''/'' \<notin> set net then
        bind_r (parse_address pton net junk) (\<lambda>(rc, prefix, af).
          Inr (if rc < 0 then None else map_option (\<lambda>af. (prefix, 128, af)) af))
      else
        let buf = takeWhile (\<lambda>c. c \<noteq> CHR ''/'') net;
            after = tl (dropWhile (\<lambda>c. c \<noteq> CHR ''/'') net)
        in if length buf \<ge> INET6_ADDRSTRLEN then Inr None
           else (case pton AF_INET buf of
                   Some ina \<Rightarrow>
                     bind_r (memcpy_at junk 0 v4prefix 12) (\<lambda>prefix.
                     bind_r (memcpy_at prefix 12 ina 4) (\<lambda>prefix.
                       let (plen, end) = strtol after 0
                       in Inr (if end \<noteq> [] \<or> plen < 0 \<or> plen > 32 then None
                               else Some (prefix, plen + 96, AF_INET))))
                 | None \<Rightarrow>
                     (case pton AF_INET6 buf of
                        Some ina6 \<Rightarrow>
                          bind_r (memcpy_at junk 0 ina6 16) (\<lambda>prefix.
                            let (plen, end) = strtol after 0
                            in Inr (if end \<noteq> [] \<or> plen < 0 \<or> plen > 128 then None
                                    else Some (prefix, plen, AF_INET6)))
                      | None \<Rightarrow> Inr None)))"

text \<open>What \<open>parse_net\<close> returns and writes: \<open>None\<close> for -1 with nothing written.\<close>

definition parse_net ::
  "pton_fun \<Rightarrow> u8 list \<Rightarrow> string \<Rightarrow> u8 list \<Rightarrow> (u8 list \<times> u8 \<times> family) option result" where
  "parse_net pton junk net prefix_r =
     bind_r (net_parts pton junk net) (\<lambda>parts.
       case parts of
         None \<Rightarrow> Inr None
       | Some (prefix, plen, af) \<Rightarrow>
           bind_r (mask_prefix prefix_r prefix (word_of_int plen)) (\<lambda>prefix_r.
             Inr (Some (prefix_r, word_of_int plen, af))))"

section \<open>Parsing EUI-64\<close>

definition hex_value :: "char \<Rightarrow> int" where
  "hex_value c = (case digit_value c of None \<Rightarrow> 0 | Some v \<Rightarrow> v)"

text \<open>One conversion \<open>%02hhx\<close>: the byte and the rest of the text, or no match.\<close>

definition scan_hh :: "string \<Rightarrow> (u8 \<times> string) option" where
  "scan_hh s =
     (case dropWhile isspace s of
        [] \<Rightarrow> None
      | c # r \<Rightarrow>
          if c = CHR ''-'' \<or> c = CHR ''+'' then
            (case r of
               d # r' \<Rightarrow>
                 if is_digit_of 16 d
                 then Some (word_of_int (if c = CHR ''-'' then - hex_value d else hex_value d), r')
                 else None
             | [] \<Rightarrow> None)
          else if is_digit_of 16 c then
            (case r of
               d # r' \<Rightarrow>
                 if is_digit_of 16 d then Some (word_of_int (hex_value c * 16 + hex_value d), r')
                 else if c = CHR ''0'' \<and> tolower d = CHR ''x'' then Some (0, r')
                 else Some (word_of_int (hex_value c), r)
             | [] \<Rightarrow> Some (word_of_int (hex_value c), r))
          else None)"

text \<open>
  \<open>sscanf\<close> with such conversions separated by \<open>sep\<close>, the \<open>k\<close>-th stored at the \<open>k\<close>-th index
  of the list: the array afterwards and the number of conversions.
\<close>

fun scan_hhs :: "char \<Rightarrow> nat list \<Rightarrow> u8 list \<Rightarrow> string \<Rightarrow> u8 list \<times> nat" where
  "scan_hhs sep [] eui s = (eui, 0)"
| "scan_hhs sep (k # ks) eui s =
     (case scan_hh s of
        None \<Rightarrow> (eui, 0)
      | Some (v, r) \<Rightarrow>
          (case r of
             c # r' \<Rightarrow>
               if c = sep
               then (let (eui', n) = scan_hhs sep ks (eui[k := v]) r' in (eui', n + 1))
               else (eui[k := v], 1)
           | [] \<Rightarrow> (eui[k := v], 1)))"

text \<open>(returned value, \<open>eui_r\<close> afterwards); \<open>eui_r\<close> has eight bytes.\<close>

definition parse_eui64 :: "string \<Rightarrow> u8 list \<Rightarrow> int \<times> u8 list" where
  "parse_eui64 eui eui_r =
     (let (e1, n1) = scan_hhs CHR '':'' [0, 1, 2, 3, 4, 5, 6, 7] eui_r eui in
      if n1 = 8 then (0, e1)
      else let (e2, n2) = scan_hhs CHR ''-'' [0, 1, 2, 3, 4, 5, 6, 7] e1 eui in
      if n2 = 8 then (0, e2)
      else let (e3, n3) = scan_hhs CHR '':'' [0, 1, 2, 5, 6, 7] e2 eui in
      if n3 = 6 then (0, e3[3 := 0xFF, 4 := 0xFE])
      else (-1, e3))"

section \<open>What the C library is relied on for\<close>

text \<open>
  \<open>inet_pton\<close> reads back what \<open>inet_ntop\<close> writes in the same family and does not take an
  IPv6 text for an IPv4 one; the text fits \<open>INET6_ADDRSTRLEN\<close> with its NUL, holds no slash
  and is not the word \<open>default\<close>; and a successful \<open>inet_pton\<close> fills its structure.
\<close>

definition inet_text :: "ntop_fun \<Rightarrow> pton_fun \<Rightarrow> bool" where
  "inet_text ntop pton \<longleftrightarrow>
     (\<forall>b. length b = 4 \<longrightarrow> pton AF_INET (ntop AF_INET b) = Some b) \<and>
     (\<forall>b. length b = 16 \<longrightarrow> pton AF_INET6 (ntop AF_INET6 b) = Some b \<and> pton AF_INET (ntop AF_INET6 b) = None) \<and>
     (\<forall>f b. length (ntop f b) < INET6_ADDRSTRLEN \<and> CHR ''/'' \<notin> set (ntop f b) \<and> ntop f b \<noteq> ''default'')"

definition pton_sizes :: "pton_fun \<Rightarrow> bool" where
  "pton_sizes pton \<longleftrightarrow>
     (\<forall>s b. pton AF_INET s = Some b \<longrightarrow> length b = 4) \<and> (\<forall>s b. pton AF_INET6 s = Some b \<longrightarrow> length b = 16)"

section \<open>Lemmas\<close>

lemma explicit4: "length b = 4 \<Longrightarrow> \<exists>b0 b1 b2 b3. b = [b0, b1, b2, b3]"
  by (auto simp: eval_nat_numeral length_Suc_conv)

lemma v4_copy:
  assumes "length dst = 16" "length ina = 4"
  shows "bind_r (memcpy_at dst 0 v4prefix 12) (\<lambda>d. memcpy_at d 12 ina 4) = Inr (take 12 v4prefix @ ina)"
  using assms by (simp add: memcpy_at_def v4prefix_def)

lemma v4_copy_bind:
  assumes "length dst = 16" "length ina = 4"
  shows "bind_r (memcpy_at dst 0 v4prefix 12) (\<lambda>d. bind_r (memcpy_at d 12 ina 4) f) = f (take 12 v4prefix @ ina)"
  using assms by (simp add: memcpy_at_def v4prefix_def)

lemma copy16: "length dst = 16 \<Longrightarrow> length b = 16 \<Longrightarrow> memcpy_at dst 0 b 16 = Inr b"
  by (simp add: memcpy_at_def)

lemma v4mapped_value: "length a = 16 \<Longrightarrow> v4mapped a = Inr (take 12 a = take 12 v4prefix)"
  by (simp add: v4mapped_def memcmp_eq_def v4prefix_def)

lemma v4mapped_split: "length a = 16 \<Longrightarrow> take 12 a = take 12 v4prefix \<Longrightarrow> take 12 v4prefix @ drop 12 a = a"
  by (metis append_take_drop_id)

lemma print_02x_table:
  "list_all (\<lambda>n. print_02x n = [digit_char (n div 16), digit_char (n mod 16)]) (map int [0..<256])"
  by code_simp

lemma print_02x_byte: "print_02x (uint b) = [digit_char (uint b div 16), digit_char (uint b mod 16)]" for b :: u8
proof -
  have "uint b < 256" using uint_lt2p [of b] by simp
  then have "uint b \<in> set (map int [0..<256])" by (intro int_in_upt) simp_all
  with print_02x_table show ?thesis unfolding list_all_iff by blast
qed

lemma scan_hh_printed: "scan_hh (print_02x (uint b) @ r) = Some (b, r)"
proof -
  have "uint b < 256" using uint_lt2p [of b] by simp
  moreover have "0 \<le> uint b" by simp
  ultimately have h: "0 \<le> uint b div 16" "uint b div 16 < 16" "0 \<le> uint b mod 16" "uint b mod 16 < 16"
    by (simp_all add: pos_imp_zdiv_nonneg_iff)
  note f = digit_char_facts [of "uint b div 16"] digit_char_facts [of "uint b mod 16"]
  have "word_of_int (uint b div 16 * 16 + uint b mod 16) = b" by simp
  then show ?thesis
    using h f by (simp add: print_02x_byte scan_hh_def is_digit_of_def hex_value_def del: div_mult_mod_eq)
qed

text \<open>Reading a list of bytes printed with the separator.\<close>

fun store_all :: "u8 list \<Rightarrow> nat list \<Rightarrow> u8 list \<Rightarrow> u8 list" where
  "store_all eui (k # ks) (b # bs) = store_all (eui[k := b]) ks bs"
| "store_all eui _ _ = eui"

lemma scan_hhs_printed:
  "length ks = length bs \<Longrightarrow> scan_hhs sep ks eui (join_hex sep bs) = (store_all eui ks bs, length bs)"
proof (induction sep bs arbitrary: ks eui rule: join_hex.induct)
  case (2 sep b)
  then obtain k where "ks = [k]" by (auto simp: length_Suc_conv)
  then show ?case using scan_hh_printed [of b "[]"] by simp
next
  case (3 sep b b' bs)
  then obtain k ks' where "ks = k # ks'" "length ks' = length (b' # bs)" by (cases ks) auto
  then show ?case using 3 scan_hh_printed [of b "sep # join_hex sep (b' # bs)"] by simp
qed simp

lemma join_hex_length: "bs \<noteq> [] \<Longrightarrow> length (join_hex sep bs) = 3 * length bs - 1"
  by (induction sep bs rule: join_hex.induct) (auto simp: print_02x_byte)

lemma scan_hhs_other_sep:
  "sep \<noteq> sep' \<Longrightarrow> bs \<noteq> [] \<Longrightarrow> ks \<noteq> [] \<Longrightarrow>
   snd (scan_hhs sep' ks eui (join_hex sep bs)) = 1"
proof (induction sep bs rule: join_hex.induct)
  case (2 sep b)
  then show ?case using scan_hh_printed [of b "[]"] by (cases ks) simp_all
next
  case (3 sep b b' bs)
  then show ?case using scan_hh_printed [of b "sep # join_hex sep (b' # bs)"] by (cases ks) simp_all
qed simp

lemma strtol_slash: "0 \<le> n \<Longrightarrow> n \<le> 128 \<Longrightarrow> strtol (print_int n) 0 = (n, [])"
  using strtol_print_int [of "[]" n] by (simp add: LONG_MAX_def LONG_MIN_def)

lemma print_int_length: "0 \<le> n \<Longrightarrow> n \<le> 128 \<Longrightarrow> length (print_int n) \<le> 3"
proof -
  have t: "list_all (\<lambda>n. length (print_int n) \<le> 3) (map int [0..<129])" by code_simp
  assume "0 \<le> n" "n \<le> 128"
  then have "n \<in> set (map int [0..<129])" by (intro int_in_upt) simp_all
  with t show ?thesis unfolding list_all_iff by blast
qed

lemma slash_split:
  "CHR ''/'' \<notin> set s \<Longrightarrow> takeWhile (\<lambda>c. c \<noteq> CHR ''/'') (s @ CHR ''/'' # t) = s \<and>
     tl (dropWhile (\<lambda>c. c \<noteq> CHR ''/'') (s @ CHR ''/'' # t)) = t"
  by (induction s) auto

text \<open>How \<open>parse_net\<close> reads an address, a slash and a text, in either family.\<close>

lemma net_parts_slash:
  assumes "length junk = 16" "CHR ''/'' \<notin> set s" "length s < INET6_ADDRSTRLEN"
  shows "pton AF_INET s = Some b \<Longrightarrow> length b = 4 \<Longrightarrow> strtol t 0 = (n, e) \<Longrightarrow>
      net_parts pton junk (s @ ''/'' @ t) =
        Inr (if e \<noteq> [] \<or> n < 0 \<or> n > 32 then None else Some (take 12 v4prefix @ b, n + 96, AF_INET))"
    and "pton AF_INET s = None \<Longrightarrow> pton AF_INET6 s = Some b6 \<Longrightarrow> length b6 = 16 \<Longrightarrow> strtol t 0 = (n, e) \<Longrightarrow>
      net_parts pton junk (s @ ''/'' @ t) =
        Inr (if e \<noteq> [] \<or> n < 0 \<or> n > 128 then None else Some (b6, n, AF_INET6))"
proof -
  have d: "s @ ''/'' @ t \<noteq> ''default''"
  proof
    assume "s @ ''/'' @ t = ''default''"
    then have "CHR ''/'' \<in> set ''default''" by (metis in_set_conv_decomp append_Cons append_Nil)
    then show False by simp
  qed
  note sp = slash_split [OF assms(2), of t]
  show "pton AF_INET s = Some b \<Longrightarrow> length b = 4 \<Longrightarrow> strtol t 0 = (n, e) \<Longrightarrow>
      net_parts pton junk (s @ ''/'' @ t) =
        Inr (if e \<noteq> [] \<or> n < 0 \<or> n > 32 then None else Some (take 12 v4prefix @ b, n + 96, AF_INET))"
    using d sp assms by (simp add: net_parts_def v4_copy_bind Let_def)
  show "pton AF_INET s = None \<Longrightarrow> pton AF_INET6 s = Some b6 \<Longrightarrow> length b6 = 16 \<Longrightarrow> strtol t 0 = (n, e) \<Longrightarrow>
      net_parts pton junk (s @ ''/'' @ t) =
        Inr (if e \<noteq> [] \<or> n < 0 \<or> n > 128 then None else Some (b6, n, AF_INET6))"
    using d sp assms by (simp add: net_parts_def copy16 Let_def)
qed

definition parts_wf :: "(u8 list \<times> int \<times> family) option \<Rightarrow> bool" where
  "parts_wf parts \<longleftrightarrow>
     (case parts of None \<Rightarrow> True | Some (p, n, af) \<Rightarrow> length p = 16 \<and> 0 \<le> n \<and> n \<le> 128 \<and>
       (af = AF_INET \<longrightarrow> 96 \<le> n \<and> take 12 p = take 12 v4prefix))"

lemma net_parts_wf:
  assumes "pton_sizes pton" "length junk = 16"
  shows "\<exists>parts. net_parts pton junk net = Inr parts \<and> parts_wf parts"
proof -
  have v: "length (take 12 v4prefix) = 12" by (simp add: v4prefix_def)
  have sizes: "pton AF_INET s = Some b \<Longrightarrow> length b = 4" "pton AF_INET6 s = Some b \<Longrightarrow> length b = 16" for s b
    using assms(1) by (auto simp: pton_sizes_def)
  define buf where "buf = takeWhile (\<lambda>c. c \<noteq> CHR ''/'') net"
  define after where "after = tl (dropWhile (\<lambda>c. c \<noteq> CHR ''/'') net)"
  consider "net = ''default''" | "net \<noteq> ''default''" "CHR ''/'' \<notin> set net"
    | "net \<noteq> ''default''" "CHR ''/'' \<in> set net" by blast
  then show ?thesis
  proof cases
    case 1
    then show ?thesis using assms(2) by (simp add: net_parts_def copy16 parts_wf_def)
  next
    case 2
    then show ?thesis
    proof (cases "pton AF_INET net")
      case None
      then show ?thesis
        using 2 sizes(2) assms(2)
        by (cases "pton AF_INET6 net") (simp_all add: net_parts_def parse_address_def copy16 parts_wf_def)
    next
      case (Some b)
      then show ?thesis
        using 2 sizes(1) assms(2) v by (simp add: net_parts_def parse_address_def v4_copy_bind parts_wf_def)
    qed
  next
    case 3
    obtain n e where n: "strtol after 0 = (n, e)" by fastforce
    show ?thesis
    proof (cases "length buf \<ge> INET6_ADDRSTRLEN")
      case True
      then show ?thesis using 3 by (simp add: net_parts_def buf_def parts_wf_def)
    next
      case short: False
      note unf = net_parts_def buf_def [symmetric] after_def [symmetric] n
      show ?thesis
      proof (cases "pton AF_INET buf")
        case None
        then show ?thesis
          using 3 short sizes(2) assms(2)
          by (cases "pton AF_INET6 buf") (simp_all add: unf copy16 parts_wf_def)
      next
        case (Some b)
        then show ?thesis
          using 3 short sizes(1) assms(2) v by (simp add: unf v4_copy_bind parts_wf_def)
      qed
    qed
  qed
qed

section \<open>Properties\<close>

text \<open>
  C12: what \<open>format_prefix\<close> writes, \<open>parse_net\<close> reads: for every address and every length
  up to 128 the text gives back the masked prefix, the length, and the family in which it was
  written (IPv4 when the prefix is mapped and at least 96 bits long).
\<close>

theorem format_prefix_parse_net:
  assumes "inet_text ntop pton" "length a = 16" "plen \<le> 128" "length junk = 16" "length ret = 16"
  shows "\<exists>s. prefix_text ntop a plen = Inr s \<and>
    parse_net pton junk s ret = Inr (case mask_prefix ret a plen of
      Inl _ \<Rightarrow> None
    | Inr p \<Rightarrow> Some (p, plen, if plen \<ge> 96 \<and> v4mapped a = Inr True then AF_INET else AF_INET6))"
proof -
  have u: "uint plen \<le> 128" using assms(3) by (simp add: word_le_def)
  have mask: "mask_prefix ret a plen = Inr (masked (unat plen) a)"
    using assms by (simp add: mask_prefix_masked)
  have texts: "length (ntop f b) < INET6_ADDRSTRLEN" "CHR ''/'' \<notin> set (ntop f b)" for f b
    using assms(1) by (simp_all add: inet_text_def)
  have whole: "append_within (INET6_ADDRSTRLEN + 4) (ntop f b) (''/'' @ print_int n) = ntop f b @ ''/'' @ print_int n"
    if "0 \<le> n" "n \<le> 128" for f b n
    using texts(1) [of f b] print_int_length [OF that] by (simp add: append_within_def INET6_ADDRSTRLEN_def)
  show ?thesis
  proof (cases "plen \<ge> 96 \<and> v4mapped a = Inr True")
    case True
    then have v: "take 12 v4prefix @ drop 12 a = a"
      using v4mapped_value [OF assms(2)] v4mapped_split [OF assms(2)] by simp
    have n: "0 \<le> uint plen - 96" "uint plen - 96 \<le> 32" using True u by (simp_all add: word_le_def)
    have "pton AF_INET (ntop AF_INET (drop 12 a)) = Some (drop 12 a)"
      using assms(1,2) by (simp add: inet_text_def)
    from net_parts_slash(1) [where pton = pton and s = "ntop AF_INET (drop 12 a)", OF assms(4) texts(2,1) this _ strtol_slash [of "uint plen - 96"]]
    have "net_parts pton junk (ntop AF_INET (drop 12 a) @ ''/'' @ print_int (uint plen - 96)) =
        Inr (Some (a, uint plen, AF_INET))"
      using n assms(2) v by simp
    then show ?thesis
      using True mask assms whole [of "uint plen - 96" AF_INET "drop 12 a"] n
      by (simp add: prefix_text_def parse_net_def)
  next
    case False
    have "pton AF_INET (ntop AF_INET6 a) = None" "pton AF_INET6 (ntop AF_INET6 a) = Some a"
      using assms(1,2) by (simp_all add: inet_text_def)
    from net_parts_slash(2) [where pton = pton and s = "ntop AF_INET6 a", OF assms(4) texts(2,1) this assms(2) strtol_slash [of "uint plen"]]
    have "net_parts pton junk (ntop AF_INET6 a @ ''/'' @ print_int (uint plen)) =
        Inr (Some (a, uint plen, AF_INET6))"
      using u by simp
    moreover have "prefix_text ntop a plen = Inr (ntop AF_INET6 a @ ''/'' @ print_int (uint plen))"
      using False v4mapped_value [OF assms(2)] assms(2) whole [of "uint plen" AF_INET6 a] u
      by (auto simp: prefix_text_def)
    ultimately show ?thesis
      using False mask assms by (auto simp: parse_net_def)
  qed
qed

text \<open>
  \<open>parse_address\<close> reads back what \<open>format_address\<close> writes, for every address.
\<close>

theorem format_address_parse:
  assumes "inet_text ntop pton" "length a = 16" "length old = 16"
  shows "\<exists>s. address_text ntop a = Inr s \<and>
    parse_address pton s old = Inr (0, a, Some (if v4mapped a = Inr True then AF_INET else AF_INET6))"
proof (cases "v4mapped a = Inr True")
  case True
  then have "take 12 v4prefix @ drop 12 a = a"
    using v4mapped_value [OF assms(2)] v4mapped_split [OF assms(2)] by simp
  moreover have "pton AF_INET (ntop AF_INET (drop 12 a)) = Some (drop 12 a)"
    using assms(1,2) by (simp add: inet_text_def)
  ultimately show ?thesis
    using True assms by (simp add: address_text_def parse_address_def v4_copy_bind)
next
  case False
  then have "address_text ntop a = Inr (ntop AF_INET6 a)"
    using v4mapped_value [OF assms(2)] assms(2) by (simp add: address_text_def)
  moreover have "pton AF_INET (ntop AF_INET6 a) = None" "pton AF_INET6 (ntop AF_INET6 a) = Some a"
    using assms(1,2) by (simp_all add: inet_text_def)
  ultimately show ?thesis
    using False assms by (simp add: parse_address_def copy16)
qed

text \<open>
  C16: whatever text it is given, \<open>parse_net\<close> touches no byte out of bounds, and what it
  accepts is a prefix in canonical form: at most 128 bits long, with every bit beyond its
  length cleared, and inside the mapped addresses when the family is IPv4 and a slash was given.
\<close>

theorem parse_net_canonical:
  assumes "pton_sizes pton" "length junk = 16" "length ret = 16"
  shows "\<exists>r. parse_net pton junk net ret = Inr r \<and>
    (case r of None \<Rightarrow> True | Some (p, plen, af) \<Rightarrow>
       plen \<le> 128 \<and> length p = 16 \<and> mask_prefix p p plen = Inr p \<and>
       (af = AF_INET \<longrightarrow> 96 \<le> plen \<and> v4mapped p = Inr True))"
proof -
  from net_parts_wf [OF assms(1,2)]
  obtain parts where parts: "net_parts pton junk net = Inr parts" "parts_wf parts" by blast
  show ?thesis
  proof (cases parts)
    case None
    then show ?thesis using parts by (simp add: parse_net_def)
  next
    case (Some q)
    then obtain p n af where q: "parts = Some (p, n, af)" by (cases q) auto
    with parts have f: "length p = 16" "0 \<le> n" "n \<le> 128" "af = AF_INET \<longrightarrow> 96 \<le> n \<and> take 12 p = take 12 v4prefix"
      by (auto simp: parts_wf_def)
    define l :: u8 where "l = word_of_int n"
    have l: "uint l = n" using f by (simp add: l_def uint_word_of_int)
    then have ul: "unat l = nat n" "l \<le> 128" using f by (simp_all add: unat_eq_nat_uint word_le_def)
    let ?m = "masked (unat l) p"
    have "agree 128 (masked (unat l) ?m) ?m" by (auto simp: agree_def bit_masked)
    then have "masked (unat l) ?m = ?m" by (simp add: addr_eq_iff_agree)
    moreover have "v4mapped ?m = Inr True" "96 \<le> l" if "af = AF_INET"
    proof -
      have "96 \<le> n" using that f(4) by blast
      then have "96 \<le> nat n" by (simp add: le_nat_iff)
      then have "96 div 8 \<le> nat n div 8" by (rule div_le_mono)
      then have "12 \<le> unat l div 8" using ul by simp
      then have "take 12 ?m = take 12 p"
        using f(1) by (auto simp: masked_def list_eq_iff_nth_eq)
      with that f show "v4mapped ?m = Inr True" by (simp add: v4mapped_value)
      show "96 \<le> l" using that f l by (simp add: word_le_def)
    qed
    ultimately show ?thesis
      using parts(1) q f(1) assms(3) ul
      by (simp add: parse_net_def mask_prefix_masked l_def [symmetric])
  qed
qed

text \<open>
  a slash without a number after it is taken for the length 0: \<open>parse_net\<close> does not ask
  whether \<open>strtol\<close> converted anything, so an IPv4 address followed by a slash means every
  mapped address.
\<close>

theorem parse_net_empty_length:
  assumes "pton AF_INET s = Some b" "length b = 4" "CHR ''/'' \<notin> set s" "length s < INET6_ADDRSTRLEN"
    and "length junk = 16" "length ret = 16"
  shows "parse_net pton junk (s @ ''/'') ret = Inr (Some (masked 96 (take 12 v4prefix @ b), 96, AF_INET))"
proof -
  have "strtol [] 0 = (0, [])" by code_simp
  from net_parts_slash(1) [where t = "[]" and pton = pton and s = s, OF assms(5,3,4,1,2) this]
  have "net_parts pton junk (s @ ''/'') = Inr (Some (take 12 v4prefix @ b, 96, AF_INET))" by simp
  moreover have "length (take 12 v4prefix @ b) = 16" using assms(2) by (simp add: v4prefix_def)
  ultimately show ?thesis using assms(6) by (simp add: parse_net_def mask_prefix_masked)
qed

text \<open>
  C40: EUI-64 identifiers survive printing and parsing, with colons as \<open>format_eui64\<close> writes
  them and with dashes, whatever the array held before; a 48-bit identifier is
  widened with FF-FE in the middle.
\<close>

theorem eui64_roundtrip:
  assumes "length e = 8" "length old = 8" "length m = 6"
  shows "(\<exists>s. eui64_text e = Inr s \<and> parse_eui64 s old = (0, e)) \<and>
    parse_eui64 (join_hex CHR ''-'' e) old = (0, e) \<and>
    parse_eui64 (join_hex CHR '':'' m) old = (0, take 3 m @ [0xFF, 0xFE] @ drop 3 m)"
proof -
  obtain e0 e1 e2 e3 e4 e5 e6 e7 where e: "e = [e0, e1, e2, e3, e4, e5, e6, e7]"
    using assms(1) by (auto simp: eval_nat_numeral length_Suc_conv)
  obtain o0 o1 o2 o3 o4 o5 o6 o7 where old: "old = [o0, o1, o2, o3, o4, o5, o6, o7]"
    using assms(2) by (auto simp: eval_nat_numeral length_Suc_conv)
  obtain m0 m1 m2 m3 m4 m5 where m: "m = [m0, m1, m2, m3, m4, m5]"
    using assms(3) by (auto simp: eval_nat_numeral length_Suc_conv)
  have eight: "scan_hhs sep [0, 1, 2, 3, 4, 5, 6, 7] [a0, a1, a2, a3, a4, a5, a6, a7] (join_hex sep e) = (e, 8)"
    for sep a0 a1 a2 a3 a4 a5 a6 a7
    by (subst scan_hhs_printed) (simp_all add: e)
  have "length (join_hex CHR '':'' e) = 23" using join_hex_length [of e] e by simp
  then have "eui64_text e = Inr (join_hex CHR '':'' e)"
    using assms(1) by (simp add: eui64_text_def append_within_def)
  moreover have "parse_eui64 (join_hex CHR '':'' e) old = (0, e)"
    using eight by (simp add: parse_eui64_def old)
  moreover have "parse_eui64 (join_hex CHR ''-'' e) old = (0, e)"
  proof -
    obtain n1 where "scan_hhs CHR '':'' [0, 1, 2, 3, 4, 5, 6, 7] old (join_hex CHR ''-'' e) = ([e0, o1, o2, o3, o4, o5, o6, o7], 1)"
      using scan_hh_printed [of e0 "CHR ''-'' # join_hex CHR ''-'' (tl e)"] by (simp add: e old)
    then show ?thesis using eight by (simp add: parse_eui64_def)
  qed
  moreover have "parse_eui64 (join_hex CHR '':'' m) old = (0, take 3 m @ [0xFF, 0xFE] @ drop 3 m)"
  proof -
    have split: "[0, 1, 2, 3, 4, 5, 6, 7] = [0, 1, 2, 3, 4, 5] @ [6 :: nat, 7]" by simp
    have stop: "scan_hh [] = None" by (simp add: scan_hh_def)
    have first: "scan_hhs CHR '':'' ([0, 1, 2, 3, 4, 5] @ [6, 7]) old (join_hex CHR '':'' m) =
        ([m0, m1, m2, m3, m4, m5, o6, o7], 6)"
      using scan_hh_printed [of m0] scan_hh_printed [of m1] scan_hh_printed [of m2]
        scan_hh_printed [of m3] scan_hh_printed [of m4] scan_hh_printed [of m5] scan_hh_printed [of m5 "[]"]
      by (simp add: m old)
    have second: "scan_hhs CHR ''-'' [0, 1, 2, 3, 4, 5, 6, 7] [m0, m1, m2, m3, m4, m5, o6, o7] (join_hex CHR '':'' m) =
        ([m0, m1, m2, m3, m4, m5, o6, o7], 1)"
      using scan_hh_printed [of m0] by (simp add: m)
    have third: "scan_hhs CHR '':'' [0, 1, 2, 5, 6, 7] [m0, m1, m2, m3, m4, m5, o6, o7] (join_hex CHR '':'' m) =
        ([m0, m1, m2, m3, m4, m3, m4, m5], 6)"
      by (subst scan_hhs_printed) (simp_all add: m)
    show ?thesis
      unfolding parse_eui64_def split first using second third by (simp add: m)
  qed
  ultimately show ?thesis by blast
qed

text \<open>
  the string a formatting function returns stays as it is during the next three
  calls of the same function and is overwritten by the fourth.
\<close>

theorem fmt_bufs_rotate:
  assumes "length (bufs st) = 4" "next_buf st s = (st0, i)" "length ts \<le> 4"
  shows "bufs (fold (\<lambda>t st. fst (next_buf st t)) ts st0) ! i = (if length ts < 4 then s else last ts)"
proof -
  have b: "length (bufs st0) = 4" "bufs st0 ! i = s" "cur st0 = i" "i < 4"
    using assms(1,2) by (auto simp: next_buf_def Let_def)
  have run: "length (bufs (fold (\<lambda>t st. fst (next_buf st t)) ts st0)) = 4 \<and>
      cur (fold (\<lambda>t st. fst (next_buf st t)) ts st0) = (i + length ts) mod 4 \<and>
      (0 < length ts \<longrightarrow> bufs (fold (\<lambda>t st. fst (next_buf st t)) ts st0) ! ((i + length ts) mod 4) = last ts) \<and>
      (length ts < 4 \<longrightarrow> bufs (fold (\<lambda>t st. fst (next_buf st t)) ts st0) ! i = s)"
    using assms(3)
  proof (induction ts rule: rev_induct)
    case Nil
    then show ?case using b by simp
  next
    case (snoc t ts)
    have m: "(i + length ts + 1) mod 4 \<noteq> i" if "length ts + 1 < 4"
    proof -
      have "length ts = 0 \<or> length ts = 1 \<or> length ts = 2" using that by arith
      then show ?thesis using b(4) by (elim disjE) presburger+
    qed
    have "((i + length ts) mod 4 + 1) mod 4 = (i + length ts + 1) mod 4" by presburger
    with snoc m show ?case by (auto simp: next_buf_def Let_def)
  qed
  show ?thesis
  proof (cases "length ts < 4")
    case False
    then have "length ts = 4" using assms(3) by simp
    with run b(4) show ?thesis by simp
  qed (use run in simp)
qed

section \<open>Witnesses\<close>

text \<open>A text form with all that is asked of \<open>inet_ntop\<close> and \<open>inet_pton\<close>: the family, then the bytes in hexadecimal.\<close>

definition family_tag :: "family \<Rightarrow> char" where
  "family_tag f = (if f = AF_INET then CHR ''4'' else CHR ''6'')"

definition hex_ntop :: ntop_fun where
  "hex_ntop f b = family_tag f # take 40 (concat (map (\<lambda>x. print_02x (uint x)) b))"

fun unhex :: "string \<Rightarrow> u8 list" where
  "unhex (a # b # r) = word_of_int (hex_value a * 16 + hex_value b) # unhex r"
| "unhex _ = []"

definition hex_pton :: pton_fun where
  "hex_pton f s =
     (case s of
        c # r \<Rightarrow> if c = family_tag f \<and> length r = (if f = AF_INET then 8 else 32) then Some (unhex r) else None
      | [] \<Rightarrow> None)"

lemma unhex_bytes: "unhex (concat (map (\<lambda>x. print_02x (uint x)) b)) = b"
proof (induction b)
  case (Cons x b)
  have "uint x < 256" using uint_lt2p [of x] by simp
  moreover have "0 \<le> uint x" by simp
  ultimately have h: "0 \<le> uint x div 16" "uint x div 16 < 16" "0 \<le> uint x mod 16" "uint x mod 16 < 16"
    by (simp_all add: pos_imp_zdiv_nonneg_iff)
  note f = digit_char_facts [of "uint x div 16"] digit_char_facts [of "uint x mod 16"]
  have "word_of_int (uint x div 16 * 16 + uint x mod 16) = x" by simp
  with h f Cons show ?case by (simp add: print_02x_byte hex_value_def del: div_mult_mod_eq)
qed simp

lemma hex_length: "length (concat (map (\<lambda>x. print_02x (uint x)) b)) = 2 * length b" for b :: "u8 list"
  by (induction b) (simp_all add: print_02x_byte)

lemma hex_no_slash: "CHR ''/'' \<notin> set (concat (map (\<lambda>x. print_02x (uint x)) b))" for b :: "u8 list"
proof -
  have t: "list_all (\<lambda>n. CHR ''/'' \<notin> set (print_02x n)) (map int [0..<256])" by code_simp
  have "CHR ''/'' \<notin> set (print_02x (uint x))" for x :: u8
  proof -
    have "uint x < 256" using uint_lt2p [of x] by simp
    then have "uint x \<in> set (map int [0..<256])" by (intro int_in_upt) simp_all
    with t show ?thesis unfolding list_all_iff by blast
  qed
  then show ?thesis by auto
qed

lemma hex_inet_text: "inet_text hex_ntop hex_pton"
proof -
  have slash: "CHR ''/'' \<notin> set (take 40 (concat (map (\<lambda>x. print_02x (uint x)) b)))" for b :: "u8 list"
    using hex_no_slash [of b] by (meson in_set_takeD)
  show ?thesis
    using slash
    by (auto simp: inet_text_def hex_ntop_def hex_pton_def hex_length unhex_bytes family_tag_def INET6_ADDRSTRLEN_def)
qed

lemma unhex_length: "length (unhex s) = length s div 2"
  by (induction s rule: unhex.induct) simp_all

lemma hex_pton_sizes: "pton_sizes hex_pton"
  by (auto simp: pton_sizes_def hex_pton_def unhex_length split: list.splits if_splits)

theorem format_prefix_parse_net_witness:
  "parse_net hex_pton (replicate 16 7) ''40a010203/8'' (replicate 16 9) = Inr (Some (addr_10, 104, AF_INET))"
proof -
  have "prefix_text hex_ntop addr_10_1 104 = Inr ''40a010203/8''"
    "mask_prefix (replicate 16 9) addr_10_1 104 = Inr addr_10" "v4mapped addr_10_1 = Inr True" by code_simp+
  moreover have "length addr_10_1 = 16" by (simp add: addr_10_1_def)
  ultimately show ?thesis
    using format_prefix_parse_net [OF hex_inet_text, of addr_10_1 104 "replicate 16 7" "replicate 16 9"] by simp
qed

theorem format_address_parse_witness:
  "parse_address hex_pton ''40a010203'' (replicate 16 7) = Inr (0, addr_10_1, Some AF_INET)"
proof -
  have "address_text hex_ntop addr_10_1 = Inr ''40a010203''" "v4mapped addr_10_1 = Inr True" by code_simp+
  moreover have "length addr_10_1 = 16" by (simp add: addr_10_1_def)
  ultimately show ?thesis
    using format_address_parse [OF hex_inet_text, of addr_10_1 "replicate 16 7"] by simp
qed

theorem parse_net_canonical_witness:
  "\<exists>r. parse_net hex_pton (replicate 16 7) ''40a010203/8'' (replicate 16 9) = Inr r"
  using parse_net_canonical [OF hex_pton_sizes, of "replicate 16 7" "replicate 16 9" "''40a010203/8''"] by auto

theorem parse_net_empty_length_witness:
  "parse_net hex_pton (replicate 16 7) ''40a010203/'' (replicate 16 9) =
     Inr (Some (masked 96 addr_10_1, 96, AF_INET))"
proof -
  have "hex_pton AF_INET ''40a010203'' = Some [10, 1, 2, 3]" by code_simp
  from parse_net_empty_length [where pton = hex_pton and s = "''40a010203''", OF this, of "replicate 16 7" "replicate 16 9"]
  show ?thesis by (simp add: INET6_ADDRSTRLEN_def addr_10_1_def v4prefix_def)
qed

theorem eui64_roundtrip_witness:
  "parse_eui64 ''02-00-5e-10-00-00-00-01'' (replicate 8 0) = (0, [2, 0, 0x5e, 0x10, 0, 0, 0, 1])"
proof -
  have "join_hex CHR ''-'' [2, 0, 0x5e, 0x10, 0, 0, 0, 1] = ''02-00-5e-10-00-00-00-01''" by code_simp
  with eui64_roundtrip [of "[2, 0, 0x5e, 0x10, 0, 0, 0, 1]" "replicate 8 0" "[1, 2, 3, 4, 5, 6]"]
  show ?thesis by simp
qed

theorem fmt_bufs_rotate_witness:
  "bufs (fold (\<lambda>t st. fst (next_buf st t)) [''b'', ''c'', ''d'']
     (fst (next_buf \<lparr>bufs = replicate 4 [], cur = 0\<rparr> ''a''))) ! 1 = ''a''"
  using fmt_bufs_rotate [of "\<lparr>bufs = replicate 4 [], cur = 0\<rparr>" "''a''" _ 1 "[''b'', ''c'', ''d'']"]
  by (simp add: next_buf_def Let_def)

end
