(* ===== verification/Parse_Addr.thy ===== *)
theory Parse_Addr
  imports Cstring
begin

text \<open>
  \<open>to_addr_port\<close> of \<open>parse_addr.c\<close>: splitting \<open>host:port\<close> and \<open>[host]:port\<close> in a
  local copy of the text, and the look-up of the two parts. The copy is a buffer
  of characters with its terminating NUL, accessed by index with every access
  checked. \<open>getaddrinfo\<close> is the parameter \<open>gai\<close>: given host, service and address
  family it answers an error code or the first address.
\<close>

datatype twdip = TWDIP_any | TWDIP_v4 | TWDIP_v6

definition EINVAL :: int where "EINVAL = 22"
definition EADDRNOTAVAIL :: int where "EADDRNOTAVAIL = 99"

definition NUL :: char where "NUL = char_of (0 :: int)"

text \<open>The string that starts at index \<open>i\<close> of a buffer.\<close>

definition cstr :: "string \<Rightarrow> nat \<Rightarrow> string" where
  "cstr buf i = takeWhile (\<lambda>c. c \<noteq> NUL) (drop i buf)"

definition memrchr :: "string \<Rightarrow> char \<Rightarrow> nat \<Rightarrow> nat option" where
  "memrchr buf c n =
     (let found = filter (\<lambda>i. buf ! i = c) [0..<n] in if found = [] then None else Some (last found))"

definition load_char :: "string \<Rightarrow> int \<Rightarrow> char result" where
  "load_char buf i = (if 0 \<le> i \<and> i < int (length buf) then Inr (buf ! nat i) else Inl OutOfBounds)"

definition store_char :: "string \<Rightarrow> int \<Rightarrow> char \<Rightarrow> string result" where
  "store_char buf i c = (if 0 \<le> i \<and> i < int (length buf) then Inr (buf[nat i := c]) else Inl OutOfBounds)"

definition lookup_addr ::
  "(string \<Rightarrow> string \<Rightarrow> twdip \<Rightarrow> int + 'a) \<Rightarrow> 'a \<Rightarrow> string \<Rightarrow> string \<Rightarrow> twdip \<Rightarrow> int \<times> 'a" where
  "lookup_addr gai sockaddr host port atype =
     (case gai host port atype of
        Inr ai_addr \<Rightarrow> (0, ai_addr)
      | Inl _ \<Rightarrow> (EADDRNOTAVAIL, sockaddr))"

text \<open>(returned value, \<open>*sockaddr\<close> afterwards).\<close>

definition to_addr_port ::
  "(string \<Rightarrow> string \<Rightarrow> twdip \<Rightarrow> int + 'a) \<Rightarrow> 'a \<Rightarrow> string \<Rightarrow> twdip \<Rightarrow> (int \<times> 'a) result" where
  "to_addr_port gai sockaddr addrport atype =
     (let len = length addrport;
          ipaddr = addrport @ [NUL]
      in case memrchr ipaddr CHR '':'' len of
           None \<Rightarrow> Inr (EINVAL, sockaddr)
         | Some colon \<Rightarrow>
             bind_r (store_char ipaddr (int colon) NUL) (\<lambda>ipaddr.
               let tport = int colon + 1
               in bind_r (load_char ipaddr 0) (\<lambda>first.
                    if first = CHR ''['' then
                      bind_r (load_char ipaddr (tport - 2)) (\<lambda>c.
                        if c \<noteq> CHR '']'' then Inr (EINVAL, sockaddr)
                        else bind_r (store_char ipaddr (tport - 2) NUL) (\<lambda>ipaddr.
                               Inr (lookup_addr gai sockaddr (cstr ipaddr 1) (cstr ipaddr (nat tport)) atype)))
                    else Inr (lookup_addr gai sockaddr (cstr ipaddr 0) (cstr ipaddr (nat tport)) atype))))"

section \<open>Lemmas\<close>

lemma last_filter_upt:
  assumes "i < n" "P i" "\<And>j. i < j \<Longrightarrow> j < n \<Longrightarrow> \<not> P j"
  shows "filter P [0..<n] \<noteq> [] \<and> last (filter P [0..<n]) = i"
proof -
  have "[0..<n] = [0..<i] @ i # [Suc i..<n]"
    using assms(1) by (metis le_add_diff_inverse less_imp_le_nat upt_add_eq_append upt_conv_Cons zero_le)
  moreover have "filter P [Suc i..<n] = []"
    using assms(3) by (simp add: filter_empty_conv)
  ultimately show ?thesis using assms(2) by simp
qed

lemma memrchr_split:
  assumes "CHR '':'' \<notin> set port"
  shows "memrchr ((host @ CHR '':'' # port) @ [NUL]) CHR '':'' (length (host @ CHR '':'' # port)) =
    Some (length host)"
proof -
  let ?b = "(host @ CHR '':'' # port) @ [NUL]"
  have "?b ! j \<noteq> CHR '':''" if "length host < j" "j < length (host @ CHR '':'' # port)" for j
  proof -
    have "?b ! j = port ! (j - length host - 1)" "j - length host - 1 < length port"
      using that by (auto simp: nth_append nth_Cons')
    then show ?thesis using assms nth_mem by fastforce
  qed
  then have "filter (\<lambda>i. ?b ! i = CHR '':'') [0..<length (host @ CHR '':'' # port)] \<noteq> [] \<and>
      last (filter (\<lambda>i. ?b ! i = CHR '':'') [0..<length (host @ CHR '':'' # port)]) = length host"
    by (intro last_filter_upt) (simp_all add: nth_append)
  then show ?thesis by (simp add: memrchr_def Let_def)
qed

lemma memrchr_none: "CHR '':'' \<notin> set s \<Longrightarrow> memrchr (s @ [NUL]) CHR '':'' (length s) = None"
  using nth_mem by (fastforce simp: memrchr_def Let_def filter_empty_conv nth_append)

lemma cstr_at: "NUL \<notin> set t \<Longrightarrow> i = length s \<Longrightarrow> cstr (s @ t @ NUL # r) i = t"
  by (induction t) (auto simp: cstr_def)

lemma to_addr_port_value:
  assumes "NUL \<notin> set (host @ port)" "CHR '':'' \<notin> set port"
  shows "to_addr_port gai sa (host @ '':'' @ port) atype = Inr (
    if host \<noteq> [] \<and> hd host = CHR ''[''
    then if last host = CHR '']'' then lookup_addr gai sa (butlast (tl host)) port atype
         else (EINVAL, sa)
    else lookup_addr gai sa host port atype)"
proof -
  let ?s = "host @ CHR '':'' # port" and ?k = "length host"
  have nul: "NUL \<noteq> CHR ''[''" "NUL \<noteq> CHR '']''" by code_simp+
  have store: "store_char (?s @ [NUL]) (int ?k) NUL = Inr (host @ NUL # port @ [NUL])"
    by (simp add: store_char_def)
  let ?b = "host @ NUL # port @ [NUL]"
  have port: "cstr ?b (nat (int ?k + 1)) = port"
    using cstr_at [of port "nat (int ?k + 1)" "host @ [NUL]" "[]"] assms(1) by (simp add: nat_add_distrib)
  have first: "load_char ?b 0 = Inr (if host = [] then NUL else hd host)"
    by (cases host) (simp_all add: load_char_def)
  have split: "memrchr (?s @ [NUL]) CHR '':'' (length ?s) = Some ?k"
    by (rule memrchr_split [OF assms(2)])
  show ?thesis
  proof (cases "host \<noteq> [] \<and> hd host = CHR ''[''")
    case True
    have at: "load_char ?b (int ?k + 1 - 2) = Inr (last host)"
      using True by (cases host) (auto simp: load_char_def last_conv_nth nth_append nat_diff_distrib)
    show ?thesis
    proof (cases "last host = CHR '']''")
      case closed: True
      obtain h where host: "host = CHR ''['' # h @ [CHR '']'']"
      proof -
        obtain l where l: "host = CHR ''['' # l" using True by (cases host) auto
        with closed have "l \<noteq> []" "last l = CHR '']''" by (auto split: if_splits)
        then have "host = CHR ''['' # butlast l @ [CHR '']'']" using l by (metis append_butlast_last_id)
        then show ?thesis by (rule that)
      qed
      have store2: "store_char ?b (int ?k + 1 - 2) NUL = Inr (CHR ''['' # h @ NUL # NUL # port @ [NUL])"
        by (simp add: host store_char_def nat_add_distrib list_update_append)
      have "cstr (CHR ''['' # h @ NUL # NUL # port @ [NUL]) 1 = h"
        using cstr_at [of h 1 "''[''" "NUL # port @ [NUL]"] assms(1) by (simp add: host)
      moreover have "cstr (CHR ''['' # h @ NUL # NUL # port @ [NUL]) (nat (int ?k + 1)) = port"
        using cstr_at [of port "nat (int ?k + 1)" "CHR ''['' # h @ [NUL, NUL]" "[]"] assms(1)
        by (simp add: host nat_add_distrib)
      ultimately show ?thesis
        using True closed split store first at store2
        by (simp add: to_addr_port_def Let_def host)
    next
      case False
      then show ?thesis
        using True split store first at by (simp add: to_addr_port_def Let_def)
    qed
  next
    case False
    have "cstr ?b 0 = host"
      using cstr_at [of host 0 "[]" "port @ [NUL]"] assms(1) by simp
    then show ?thesis
      using False split store first port nul
      by (auto simp: to_addr_port_def Let_def)
  qed
qed

lemma to_addr_port_no_fault: "\<exists>r. to_addr_port gai old arg at = Inr r"
proof (cases "memrchr (arg @ [NUL]) CHR '':'' (length arg)")
  case None
  then show ?thesis by (simp add: to_addr_port_def)
next
  case (Some k)
  then have k: "k < length arg" "arg ! k = CHR '':''"
    by (auto simp: memrchr_def Let_def nth_append split: if_splits dest!: last_in_set)
  let ?b = "(arg @ [NUL])[k := NUL]"
  have 1: "store_char (arg @ [NUL]) (int k) NUL = Inr ?b" using k by (simp add: store_char_def)
  have 2: "load_char ?b 0 = Inr (?b ! 0)" by (simp add: load_char_def)
  show ?thesis
  proof (cases "?b ! 0 = CHR ''[''")
    case True
    have "k \<noteq> 0"
    proof
      assume "k = 0"
      then have "?b ! 0 = NUL" by simp
      moreover have "NUL \<noteq> CHR ''[''" by code_simp
      ultimately show False using True by simp
    qed
    then have 3: "load_char ?b (int k - 1) = Inr (?b ! (k - 1))"
      "store_char ?b (int k - 1) NUL = Inr (?b[k - 1 := NUL])"
      using k by (simp_all add: load_char_def store_char_def nat_diff_distrib)
    then show ?thesis using Some 1 2 True by (simp add: to_addr_port_def Let_def)
  next
    case False
    then show ?thesis using Some 1 2 by (simp add: to_addr_port_def Let_def)
  qed
qed

section \<open>Properties\<close>

text \<open>
  C7: \<open>to_addr_port\<close> never reads or writes outside its copy of the text and looks up
  exactly the two parts the syntax names: \<open>host\<close> and \<open>port\<close> of \<open>host:port\<close>, split at the
  last colon, without the brackets of \<open>[host]:port\<close>. Text that opens with a bracket
  not closed right before the port is \<open>EINVAL\<close>, and nothing is looked up.
\<close>

theorem to_addr_port_split:
  assumes "NUL \<notin> set (host @ port)" "CHR '':'' \<notin> set port"
  shows "to_addr_port gai sa (host @ '':'' @ port) atype = Inr (
    if host \<noteq> [] \<and> hd host = CHR ''[''
    then if last host = CHR '']'' then lookup_addr gai sa (butlast (tl host)) port atype
         else (EINVAL, sa)
    else lookup_addr gai sa host port atype)"
  by (rule to_addr_port_value [OF assms])

text \<open>
  text without a colon, that is, without a port, is \<open>EINVAL\<close>; a host and a port
  that cannot be resolved are \<open>EADDRNOTAVAIL\<close>; in both cases the caller's address keeps
  its value.
\<close>

theorem to_addr_port_errors:
  assumes "to_addr_port gai sa s atype = Inr (rc, sa')" "rc \<noteq> 0"
  shows "rc \<in> {EINVAL, EADDRNOTAVAIL} \<and> sa' = sa \<and> (CHR '':'' \<notin> set s \<longrightarrow> rc = EINVAL)"
proof (intro conjI impI)
  show "rc \<in> {EINVAL, EADDRNOTAVAIL}" "sa' = sa"
    using assms by (auto simp: to_addr_port_def Let_def lookup_addr_def bind_r_def
        split: option.splits sum.splits if_splits)
  show "rc = EINVAL" if "CHR '':'' \<notin> set s"
    using assms memrchr_none [OF that] by (simp add: to_addr_port_def)
qed

section \<open>Witnesses\<close>

definition one_host :: "string \<Rightarrow> string \<Rightarrow> twdip \<Rightarrow> int + (string \<times> string)" where
  "one_host host port atype = (if host = ''fc00::1'' then Inr (host, port) else Inl (-2))"

theorem to_addr_port_split_witness:
  "to_addr_port one_host ('''', '''') ''[fc00::1]:2222'' TWDIP_v6 = Inr (0, (''fc00::1'', ''2222''))"
proof -
  have "NUL \<notin> set (''[fc00::1]'' @ ''2222'')" "CHR '':'' \<notin> set ''2222''" by code_simp+
  from to_addr_port_split [OF this, of one_host "('''', '''')" TWDIP_v6]
  show ?thesis by (simp add: lookup_addr_def one_host_def)
qed

theorem to_addr_port_errors_witness:
  "to_addr_port one_host (''old'', ''old'') ''fc00::2:2222'' TWDIP_v6 = Inr (EADDRNOTAVAIL, (''old'', ''old'')) \<and>
   EADDRNOTAVAIL \<in> {EINVAL, EADDRNOTAVAIL}"
proof -
  have run: "to_addr_port one_host (''old'', ''old'') ''fc00::2:2222'' TWDIP_v6 =
      Inr (EADDRNOTAVAIL, (''old'', ''old''))" by code_simp
  have "EADDRNOTAVAIL \<noteq> 0" by (simp add: EADDRNOTAVAIL_def)
  from to_addr_port_errors [OF run this] run show ?thesis by blast
qed

end
