(* ===== verification/Addr_Main.thy ===== *)
theory Addr_Main
  imports Parse_Addr
begin

text \<open>
  The test program at the end of \<open>parse_addr.c\<close>: it resolves the addresses of its command
  line and prints them.
\<close>

section \<open>Definitions\<close>

text \<open>
  The line for one argument, on standard output, and whether it is a success. \<open>strerror\<close> is
  the text of an error number; \<open>shown\<close> gives the family of an address, its text (\<open>inet_ntop\<close>)
  and its port; \<open>junk\<close> is what the uninitialised \<open>addr\<close> holds.
\<close>

definition addr_line ::
  "(string \<Rightarrow> string \<Rightarrow> twdip \<Rightarrow> int + 'a) \<Rightarrow> ('a \<Rightarrow> family \<times> string \<times> int) \<Rightarrow> (int \<Rightarrow> string) \<Rightarrow>
     'a \<Rightarrow> twdip \<Rightarrow> string \<Rightarrow> (string \<times> bool) result" where
  "addr_line gai shown strerror junk atype arg =
     bind_r (to_addr_port gai junk arg atype) (\<lambda>(rc, addr).
       Inr (if rc \<noteq> 0 then (''NONE '' @ arg @ '': '' @ strerror rc @ newline, False)
            else (case shown addr of
                    (AF_INET, ip, port) \<Rightarrow>
                      (''IPv4 '' @ arg @ '' '' @ ip @ '':'' @ print_int port @ newline, True)
                  | (AF_INET6, ip, port) \<Rightarrow>
                      (''IPv6: '' @ arg @ '' ['' @ ip @ '']:'' @ print_int port @ newline, True)
                  | (AF_OTHER, _, _) \<Rightarrow> ([], False))))"

fun addr_lines ::
  "(string \<Rightarrow> string \<Rightarrow> twdip \<Rightarrow> int + 'a) \<Rightarrow> ('a \<Rightarrow> family \<times> string \<times> int) \<Rightarrow> (int \<Rightarrow> string) \<Rightarrow>
     'a \<Rightarrow> twdip \<Rightarrow> string list \<Rightarrow> int \<Rightarrow> (string \<times> int) result" where
  "addr_lines gai shown strerror junk atype [] ret = Inr ([], ret)"
| "addr_lines gai shown strerror junk atype (arg # args) ret =
     bind_r (addr_line gai shown strerror junk atype arg) (\<lambda>(l, ok).
     bind_r (addr_lines gai shown strerror junk atype args (if ok then ret else 1)) (\<lambda>(ls, ret).
       Inr (l @ ls, ret)))"

definition addr_type :: "string \<Rightarrow> twdip option" where
  "addr_type s =
     (if s = [] then None
      else if hd s = CHR ''4'' then Some TWDIP_v4
      else if hd s = CHR ''6'' then Some TWDIP_v6
      else if hd s = CHR ''a'' then Some TWDIP_any
      else None)"

text \<open>\<open>main\<close>: standard output and the exit status; \<open>argv\<close> includes the name of the program.\<close>

definition addr_main ::
  "(string \<Rightarrow> string \<Rightarrow> twdip \<Rightarrow> int + 'a) \<Rightarrow> ('a \<Rightarrow> family \<times> string \<times> int) \<Rightarrow> (int \<Rightarrow> string) \<Rightarrow>
     'a \<Rightarrow> string list \<Rightarrow> (string \<times> int) result" where
  "addr_main gai shown strerror junk argv =
     (if length argv = 1 then Inr ([], 1)
      else case argv of
             _ # kind # args \<Rightarrow>
               (case addr_type kind of
                  None \<Rightarrow> Inr ([], 1)
                | Some atype \<Rightarrow> addr_lines gai shown strerror junk atype args 0)
           | _ \<Rightarrow> Inl Segfault)"

section \<open>Lemmas\<close>

text \<open>The address that an argument resolves to, of a family that can be printed.\<close>

definition resolved ::
  "(string \<Rightarrow> string \<Rightarrow> twdip \<Rightarrow> int + 'a) \<Rightarrow> ('a \<Rightarrow> family \<times> string \<times> int) \<Rightarrow> 'a \<Rightarrow> twdip \<Rightarrow> string \<Rightarrow> bool" where
  "resolved gai shown junk atype arg =
     (case to_addr_port gai junk arg atype of
        Inr (rc, addr) \<Rightarrow> rc = 0 \<and> fst (shown addr) \<noteq> AF_OTHER
      | Inl _ \<Rightarrow> False)"

lemma addr_line_resolved:
  "\<exists>l. addr_line gai shown strerror junk atype arg = Inr (l, resolved gai shown junk atype arg)"
proof -
  obtain rc addr where "to_addr_port gai junk arg atype = Inr (rc, addr)"
    using to_addr_port_no_fault [of gai junk arg atype] by auto
  then show ?thesis
    by (cases "shown addr"; cases "fst (shown addr)") (auto simp: addr_line_def resolved_def)
qed

lemma addr_lines_status:
  "\<exists>out. addr_lines gai shown strerror junk atype args ret =
    Inr (out, if list_all (resolved gai shown junk atype) args then ret else 1)"
proof (induction args arbitrary: ret)
  case (Cons arg args)
  obtain l where l: "addr_line gai shown strerror junk atype arg = Inr (l, resolved gai shown junk atype arg)"
    using addr_line_resolved [of gai shown strerror junk atype arg] by blast
  obtain ls where "addr_lines gai shown strerror junk atype args
      (if resolved gai shown junk atype arg then ret else 1) =
      Inr (ls, if list_all (resolved gai shown junk atype) args
               then (if resolved gai shown junk atype arg then ret else 1) else 1)"
    using Cons.IH by blast
  then show ?case using l by auto
qed simp

section \<open>Property\<close>

text \<open>
  The test program never faults, whatever it is given, and exits with status 0 exactly when
  its first argument names a kind of address and all others resolve to one that can be
  printed.
\<close>

theorem addr_main_status:
  "\<exists>out. addr_main gai shown strerror junk (name # args) =
    Inr (out, case args of
                kind # hosts \<Rightarrow>
                  (case addr_type kind of
                     Some atype \<Rightarrow> if list_all (resolved gai shown junk atype) hosts then 0 else 1
                   | None \<Rightarrow> 1)
              | [] \<Rightarrow> 1)"
  using addr_lines_status [of gai shown strerror junk _ _ 0]
  by (auto simp: addr_main_def split: list.splits option.splits)

end
