(* ===== verification/Options.thy ===== *)
theory Options
  imports Dscp
begin

text \<open>
  The options of the program (\<open>twd.h\<close>, \<open>twd.c\<close>): the option record, its defaults,
  the interpretation of the command line and the report of the enabled options.

  \<open>getopt_long\<close> belongs to the C library; its answers are the input here: a list of
  \<open>(opt, optarg)\<close> pairs, \<open>optarg\<close> being \<open>None\<close> for an option without an argument.
  \<open>answers_for\<close> states which answers the two tables of the source allow.
\<close>

section \<open>Data\<close>

record twd_options =
  o_verbose :: bool
  o_up :: bool
  o_dn :: bool
  o_bidir :: bool
  o_dontfork :: bool
  o_help :: bool
  o_randomize_data :: bool
  o_randomize_size :: bool
  o_passfail :: bool
  o_ecn :: bool
  o_ipv4 :: bool
  o_ipv6 :: bool
  o_server :: bool
  o_multicast :: bool
  o_test_owd :: bool
  o_test_ecn :: bool
  o_test_diffserv :: bool
  o_test_tos :: bool
  o_test_all :: bool
  o_test_self :: bool
  o_test_fq :: bool
  o_test_bw :: bool
  o_inetd :: bool
  o_debug :: u32
  o_packet_size :: u32
  o_tests :: u32
  o_length :: u64
  o_interval :: u64
  o_diffserv :: u32
  o_format :: u32
  o_logdir :: "string option"
  o_filename :: "string option"

definition TWD_DEFAULT_INTERVAL :: u64 where "TWD_DEFAULT_INTERVAL = 1000 * 100 * 25"
definition TWD_DEFAULT_DURATION :: u64 where "TWD_DEFAULT_DURATION = 1000 * 1000 * 1000 * 30"
definition TWD_DEFAULT_PACKET_SIZE :: u32 where "TWD_DEFAULT_PACKET_SIZE = 48"

text \<open>\<open>memset(&options,0,sizeof(options))\<close> at the start of \<open>main\<close>.\<close>

definition zero_options :: twd_options where
  "zero_options =
     \<lparr>o_verbose = False, o_up = False, o_dn = False, o_bidir = False, o_dontfork = False,
      o_help = False, o_randomize_data = False, o_randomize_size = False, o_passfail = False,
      o_ecn = False, o_ipv4 = False, o_ipv6 = False, o_server = False, o_multicast = False,
      o_test_owd = False, o_test_ecn = False, o_test_diffserv = False, o_test_tos = False,
      o_test_all = False, o_test_self = False, o_test_fq = False, o_test_bw = False,
      o_inetd = False, o_debug = 0, o_packet_size = 0, o_tests = 0, o_length = 0,
      o_interval = 0, o_diffserv = 0, o_format = 0, o_logdir = None, o_filename = None\<rparr>"

definition default_options :: "twd_options \<Rightarrow> twd_options" where
  "default_options q =
     q\<lparr>o_interval := TWD_DEFAULT_INTERVAL, o_length := TWD_DEFAULT_DURATION,
       o_packet_size := TWD_DEFAULT_PACKET_SIZE\<rparr>"

text \<open>The array of output formats: three entries and no end mark.\<close>

definition output_type :: "(string option \<times> u32) list" where
  "output_type = [(Some ''plain'', 0), (Some ''csv'', 1), (Some ''json'', 2)]"

datatype has_arg = no_argument | required_argument

definition long_options :: "(string \<times> has_arg \<times> char) list" where
  "long_options =
     [(''debug'', required_argument, CHR ''D''), (''help'', no_argument, CHR ''h''),
      (''interval'', required_argument, CHR ''i''), (''output'', required_argument, CHR ''o''),
      (''write'', required_argument, CHR ''w''), (''random-data'', no_argument, CHR ''r''),
      (''size'', required_argument, CHR ''s''), (''passfail'', no_argument, CHR ''P''),
      (''verbose'', no_argument, CHR ''v''), (''length'', required_argument, CHR ''l''),
      (''logdir'', required_argument, CHR ''L''), (''server'', required_argument, CHR ''S''),
      (''dontfork'', no_argument, CHR ''F''), (''up'', no_argument, CHR ''1''),
      (''down'', no_argument, CHR ''2''), (''bidir'', no_argument, CHR ''3''),
      (''ipv4'', no_argument, CHR ''4''), (''ipv6'', no_argument, CHR ''6''),
      (''ecn'', no_argument, CHR ''e''), (''diffserv'', required_argument, CHR ''d''),
      (''test'', no_argument, CHR ''t''), (''test-ecn'', no_argument, CHR ''E''),
      (''test-diffserv'', no_argument, CHR ''C''), (''test-self'', no_argument, CHR ''@''),
      (''test-fq'', no_argument, CHR ''Q''), (''test-bw'', no_argument, CHR ''B''),
      (''test-all'', no_argument, CHR ''T'')]"

definition QSTRING :: string where
  "QSTRING = ''Si:D:s:l:L:o:m:w:sh?Pv12346FeCTt''"

section \<open>What getopt\_long can answer\<close>

text \<open>
  The short options of an option string: a letter followed by a colon takes an argument.
  \<open>getopt_long\<close> looks for the first occurrence of a letter.
\<close>

fun short_options :: "string \<Rightarrow> (char \<times> has_arg) list" where
  "short_options (c # d # s) =
     (if d = CHR '':'' then (c, required_argument) # short_options s
      else (c, no_argument) # short_options (d # s))"
| "short_options [c] = [(c, no_argument)]"
| "short_options [] = []"

type_synonym answer = "char \<times> string option"

text \<open>
  An answer of \<open>getopt_long\<close> for these tables: \<open>?\<close> for anything it rejects, otherwise an
  option of one of the tables, with an argument exactly when the entry asks for one.
\<close>

definition answers_for :: "string \<Rightarrow> (string \<times> has_arg \<times> char) list \<Rightarrow> answer \<Rightarrow> bool" where
  "answers_for shorts longs a \<longleftrightarrow>
     fst a = CHR ''?'' \<or>
     (\<exists>h. (map_of (short_options shorts) (fst a) = Some h \<or> (fst a, h) \<in> (\<lambda>(_, h, c). (c, h)) ` set longs) \<and>
        (snd a \<noteq> None \<longleftrightarrow> h = required_argument))"

section \<open>process\_options\<close>

text \<open>
  \<open>usage\<close> prints and exits with status -1.
\<close>

definition usage :: "'a result" where
  "usage = Inl (Exit (-1))"

text \<open>
  The loop over \<open>output_type\<close> in the case \<open>o\<close>. It runs to an entry whose \<open>desc\<close> is NULL;
  an index beyond the array is a fault.
\<close>

fun scan_output :: "string \<Rightarrow> (string option \<times> u32) list \<Rightarrow> u32 \<Rightarrow> u32 result" where
  "scan_output arg ((desc, oid) # ts) fmt =
     (case desc of
        None \<Rightarrow> Inr fmt
      | Some d \<Rightarrow> scan_output arg ts (if d = arg then oid else fmt))"
| "scan_output arg [] fmt = Inl OutOfBounds"

text \<open>A call that reads the characters of \<open>optarg\<close>.\<close>

definition with_arg :: "string option \<Rightarrow> (string \<Rightarrow> 'a result) \<Rightarrow> 'a result" where
  "with_arg optarg f = (case optarg of None \<Rightarrow> Inl Segfault | Some s \<Rightarrow> f s)"

definition process_option :: "twd_options \<Rightarrow> answer \<Rightarrow> twd_options result" where
  "process_option opts a =
     (let (opt, optarg) = a in
      if opt = CHR ''S'' then Inr (opts\<lparr>o_server := True\<rparr>)
      else if opt = CHR ''D'' then with_arg optarg (\<lambda>s. Inr (opts\<lparr>o_debug := ucast (strtoul s 10)\<rparr>))
      else if opt = CHR ''F'' then Inr (opts\<lparr>o_dontfork := True\<rparr>)
      else if opt = CHR ''h'' \<or> opt = CHR ''?'' then usage
      else if opt = CHR ''i'' then with_arg optarg (\<lambda>s. Inr (opts\<lparr>o_interval := strtoul s 10\<rparr>))
      else if opt = CHR ''s'' then with_arg optarg (\<lambda>s. Inr (opts\<lparr>o_packet_size := ucast (strtoul s 10)\<rparr>))
      else if opt = CHR ''l'' then with_arg optarg (\<lambda>s. Inr (opts\<lparr>o_length := strtoul s 10\<rparr>))
      else if opt = CHR ''L'' then Inr (opts\<lparr>o_logdir := optarg\<rparr>)
      else if opt = CHR ''o'' then
        with_arg optarg (\<lambda>s. bind_r (scan_output s output_type (o_format opts)) (\<lambda>f.
          Inr (opts\<lparr>o_format := f\<rparr>)))
      else if opt = CHR ''P'' then Inr (opts\<lparr>o_passfail := True\<rparr>)
      else if opt = CHR ''v'' then Inr (opts\<lparr>o_verbose := True\<rparr>)
      else if opt = CHR ''1'' then Inr (opts\<lparr>o_up := True\<rparr>)
      else if opt = CHR ''2'' then Inr (opts\<lparr>o_dn := True\<rparr>)
      else if opt = CHR ''3'' then Inr (opts\<lparr>o_up := True, o_dn := True\<rparr>)
      else if opt = CHR ''4'' then Inr (opts\<lparr>o_ipv4 := True\<rparr>)
      else if opt = CHR ''6'' then Inr (opts\<lparr>o_ipv6 := True\<rparr>)
      else if opt = CHR ''w'' then Inr (opts\<lparr>o_filename := optarg\<rparr>)
      else if opt = CHR ''@'' then Inr (opts\<lparr>o_test_self := True\<rparr>)
      else if opt = CHR ''t'' then Inr (opts\<lparr>o_test_owd := True\<rparr>)
      else if opt = CHR ''E'' then Inr (opts\<lparr>o_test_ecn := True\<rparr>)
      else if opt = CHR ''C'' then Inr (opts\<lparr>o_test_diffserv := True\<rparr>)
      else if opt = CHR ''T'' then Inr (opts\<lparr>o_test_all := True\<rparr>)
      else if opt = CHR ''Q'' then Inr (opts\<lparr>o_test_fq := True\<rparr>)
      else if opt = CHR ''B'' then Inr (opts\<lparr>o_test_bw := True\<rparr>)
      else if opt = CHR ''e'' then Inr (opts\<lparr>o_ecn := True\<rparr>)
      else if opt = CHR ''d'' then Inr (opts\<lparr>o_diffserv := word_of_int (parse_ipqos optarg)\<rparr>)
      else usage)"

fun process_options :: "twd_options \<Rightarrow> answer list \<Rightarrow> twd_options result" where
  "process_options opts [] = Inr opts"
| "process_options opts (a # as) = bind_r (process_option opts a) (\<lambda>opts'. process_options opts' as)"

section \<open>print\_enabled\_options\<close>

definition penabled :: "bool \<Rightarrow> string \<Rightarrow> string" where
  "penabled b name = (if b then name @ '' '' else [])"

definition penabledl :: "u64 \<Rightarrow> string \<Rightarrow> string" where
  "penabledl v name = name @ '':'' @ print_base 10 (uint v) @ '' ''"

text \<open>\<open>%d\<close> shows a 32-bit field as a signed number.\<close>

definition penabledd :: "u32 \<Rightarrow> string \<Rightarrow> string" where
  "penabledd v name = name @ '':'' @ print_int (sint v) @ '' ''"

definition penableds :: "string option \<Rightarrow> string \<Rightarrow> string" where
  "penableds v name = (case v of None \<Rightarrow> [] | Some s \<Rightarrow> name @ '':'' @ s @ '' '')"

definition print_enabled_options :: "twd_options \<Rightarrow> string" where
  "print_enabled_options opts =
     ''Options: ''
     @ penabled (o_debug opts \<noteq> 0) ''debug'' @ penabled (o_server opts) ''server''
     @ penabled (o_test_owd opts) ''test_owd'' @ penabled (o_test_self opts) ''test_self''
     @ penabled (o_test_all opts) ''test_all'' @ penabled (o_test_fq opts) ''test_fq''
     @ penabled (o_test_bw opts) ''test_bw'' @ penabled (o_test_ecn opts) ''test_ecn''
     @ penabled (o_test_diffserv opts) ''test_diffserv'' @ penabled (o_ecn opts) ''ecn''
     @ penabled (o_up opts) ''up'' @ penabled (o_dn opts) ''dn''
     @ penabled (o_randomize_data opts) ''randomize_data'' @ penabled (o_passfail opts) ''passfail''
     @ penabled (o_dontfork opts) ''dontfork'' @ penabled (o_ipv4 opts) ''ipv4''
     @ penabled (o_ipv6 opts) ''ipv6'' @ penabled (o_inetd opts) ''inetd''
     @ newline @ ''Args:    ''
     @ ''dscp:'' @ iptos2str (sint (o_diffserv opts)) @ '' ''
     @ penabledd (o_packet_size opts) ''packet_size'' @ penabledl (o_interval opts) ''interval''
     @ penabledl (o_length opts) ''length'' @ penabledd (o_format opts) ''format''
     @ penableds (o_filename opts) ''filename'' @ penableds (o_logdir opts) ''logdir''
     @ newline"

section \<open>Lemmas\<close>

text \<open>The answers that end the program, and those that only set a flag.\<close>

definition stops :: "answer \<Rightarrow> bool" where
  "stops a \<longleftrightarrow> fst a \<in> set ''h?mro''"

definition flag :: "answer \<Rightarrow> bool" where
  "flag a \<longleftrightarrow> fst a \<in> set ''SFPv12346@tECTQBe''"

lemma short_cases:
  "map_of (short_options QSTRING) c = Some h \<Longrightarrow>
     c \<in> set ''ShPv12346FeCTt?'' \<and> h = no_argument \<or> c \<in> set ''iDslLomw'' \<and> h = required_argument"
  by (simp add: QSTRING_def split: if_splits)

lemma long_cases:
  "(c, h) \<in> (\<lambda>(_, h, c). (c, h)) ` set long_options \<Longrightarrow>
     c \<in> set ''hrPvF12346etEC@QBT'' \<and> h = no_argument \<or> c \<in> set ''DiowslLSd'' \<and> h = required_argument"
  by (auto simp: long_options_def)

lemma answer_cases:
  assumes "answers_for QSTRING long_options a"
  shows "stops a \<and> (fst a = CHR ''o'' \<longrightarrow> snd a \<noteq> None) \<or>
    flag a \<or> fst a \<in> set ''Lwd'' \<or> fst a \<in> set ''iDsl'' \<and> snd a \<noteq> None"
proof (cases "fst a = CHR ''?''")
  case False
  with assms obtain h where "map_of (short_options QSTRING) (fst a) = Some h \<or>
      (fst a, h) \<in> (\<lambda>(_, h, c). (c, h)) ` set long_options"
    and a: "snd a \<noteq> None \<longleftrightarrow> h = required_argument"
    unfolding answers_for_def by blast
  then have "fst a \<in> set ''ShPv12346FeCTt?rE@QB'' \<and> h = no_argument \<or>
      fst a \<in> set ''iDslLomwSd'' \<and> h = required_argument"
    using short_cases [of "fst a" h] long_cases [of "fst a" h] by (elim disjE) auto
  with a have "fst a \<in> set ''ShPv12346FeCTt?rE@QB'' \<or> fst a \<in> set ''iDslLomwSd'' \<and> snd a \<noteq> None"
    by auto
  moreover have "c \<in> set ''ShPv12346FeCTt?rE@QB'' \<Longrightarrow> c \<in> set ''h?mro'' - {CHR ''o''} \<or> c \<in> set ''SFPv12346@tECTQBe''"
    "c \<in> set ''iDslLomwSd'' \<Longrightarrow> c \<in> set ''h?mro'' \<or> c \<in> set ''SFPv12346@tECTQBe'' \<or> c \<in> set ''Lwd'' \<or> c \<in> set ''iDsl''"
    for c
    by (simp_all, (elim disjE; simp)+)
  ultimately show ?thesis unfolding stops_def flag_def by blast
qed (simp add: stops_def)

lemma stop_result:
  assumes "stops a" "fst a = CHR ''o'' \<longrightarrow> snd a \<noteq> None"
  shows "process_option opts a = Inl (if fst a = CHR ''o'' then OutOfBounds else Exit (-1))"
proof (cases a)
  case (Pair c arg)
  have "c = CHR ''h'' \<or> c = CHR ''?'' \<or> c = CHR ''m'' \<or> c = CHR ''r'' \<or> c = CHR ''o''"
    using assms(1) Pair by (simp add: stops_def)
  then show ?thesis
    using assms(2) unfolding Pair
    by (elim disjE) (auto simp: process_option_def usage_def with_arg_def output_type_def)
qed

text \<open>What a set of flags makes of the options.\<close>

definition with_flags :: "twd_options \<Rightarrow> char set \<Rightarrow> twd_options" where
  "with_flags opts F =
     opts\<lparr>o_server := (o_server opts \<or> CHR ''S'' \<in> F), o_dontfork := (o_dontfork opts \<or> CHR ''F'' \<in> F),
       o_passfail := (o_passfail opts \<or> CHR ''P'' \<in> F), o_verbose := (o_verbose opts \<or> CHR ''v'' \<in> F),
       o_up := (o_up opts \<or> CHR ''1'' \<in> F \<or> CHR ''3'' \<in> F),
       o_dn := (o_dn opts \<or> CHR ''2'' \<in> F \<or> CHR ''3'' \<in> F),
       o_ipv4 := (o_ipv4 opts \<or> CHR ''4'' \<in> F), o_ipv6 := (o_ipv6 opts \<or> CHR ''6'' \<in> F),
       o_test_self := (o_test_self opts \<or> CHR ''@'' \<in> F), o_test_owd := (o_test_owd opts \<or> CHR ''t'' \<in> F),
       o_test_ecn := (o_test_ecn opts \<or> CHR ''E'' \<in> F),
       o_test_diffserv := (o_test_diffserv opts \<or> CHR ''C'' \<in> F),
       o_test_all := (o_test_all opts \<or> CHR ''T'' \<in> F), o_test_fq := (o_test_fq opts \<or> CHR ''Q'' \<in> F),
       o_test_bw := (o_test_bw opts \<or> CHR ''B'' \<in> F), o_ecn := (o_ecn opts \<or> CHR ''e'' \<in> F)\<rparr>"

lemma with_flags_empty: "with_flags opts {} = opts"
  by (simp add: with_flags_def)

lemma with_flags_insert: "with_flags (with_flags opts {c}) F = with_flags opts (insert c F)"
  by (simp add: with_flags_def disj_ac)

lemma flag_result: "flag a \<Longrightarrow> process_option opts a = Inr (with_flags opts {fst a})"
proof (cases a)
  case (Pair c arg)
  assume "flag a"
  then show ?thesis
    unfolding flag_def Pair
    by (simp, elim disjE) (simp_all add: process_option_def with_flags_def)
qed

lemma valued_result:
  "fst a \<in> set ''Lwd'' \<or> fst a \<in> set ''iDsl'' \<and> snd a \<noteq> None \<Longrightarrow> \<exists>opts'. process_option opts a = Inr opts'"
proof (cases a)
  case (Pair c arg)
  assume "fst a \<in> set ''Lwd'' \<or> fst a \<in> set ''iDsl'' \<and> snd a \<noteq> None"
  then show ?thesis
    unfolding Pair
    by (simp, elim disjE conjE exE) (simp_all add: process_option_def with_arg_def)
qed

section \<open>Properties\<close>

text \<open>
  C11: how \<open>process_options\<close> ends, for every sequence of answers the tables allow: it
  returns when no answer is one of \<open>h ? m r o\<close>; the first of these decides otherwise,
  \<open>o\<close> (\<open>--output\<close>) by reading beyond the array of formats, which has no end mark,
  whatever its argument, and the others, among them the documented
  \<open>--random-data\<close>, by leaving with the usage message. A NULL \<open>optarg\<close> is never read.
\<close>

theorem process_options_outcome:
  assumes "\<forall>a \<in> set as. answers_for QSTRING long_options a"
  shows "case dropWhile (\<lambda>a. \<not> stops a) as of
      [] \<Rightarrow> (\<exists>opts'. process_options opts as = Inr opts')
    | a # _ \<Rightarrow> process_options opts as = Inl (if fst a = CHR ''o'' then OutOfBounds else Exit (-1))"
  using assms
proof (induction as arbitrary: opts)
  case (Cons a as)
  note cases = answer_cases [of a]
  show ?case
  proof (cases "stops a")
    case True
    then have "fst a \<notin> set ''Lwd'' \<and> fst a \<notin> set ''iDsl'' \<and> \<not> flag a"
      by (auto simp: stops_def flag_def)
    with cases Cons.prems have "fst a = CHR ''o'' \<longrightarrow> snd a \<noteq> None" by auto
    with True show ?thesis using stop_result by simp
  next
    case False
    with cases Cons.prems obtain opts' where "process_option opts a = Inr opts'"
      using flag_result valued_result by (metis list.set_intros(1))
    then have "process_options opts (a # as) = process_options opts' as" by simp
    with False Cons.IH [of opts'] Cons.prems show ?thesis by (simp only: dropWhile.simps simp_thms if_True) simp
  qed
qed simp

text \<open>
  neither the order nor the repetition of flags matters: options that only set
  flags have the effect of the set of their letters, and \<open>-3\<close> that of \<open>-1\<close> with \<open>-2\<close>.
\<close>

theorem process_options_flags:
  assumes "\<forall>a \<in> set as. flag a"
  shows "process_options opts as = Inr (with_flags opts (set (map fst as)))"
  using assms
proof (induction as arbitrary: opts)
  case Nil
  then show ?case by (simp add: with_flags_empty)
next
  case (Cons a as)
  then show ?case by (simp add: flag_result with_flags_insert)
qed

lemma ucast_scast_id: "ucast (scast w :: u64) = (w :: u32)"
proof (rule bit_word_eqI)
  fix n
  assume "n < LENGTH(32)"
  then have "n = 31 \<or> n < 31" by auto
  then show "bit (ucast (scast w :: u64) :: u32) n = bit w n"
    by (auto simp: bit_unsigned_iff bit_signed_iff min_def)
qed

lemma strtoul_signed: "ucast (strtoul (print_int (sint w)) 10) = (w :: u32)"
proof (cases "sint w < 0")
  case True
  let ?s = "print_base 10 (- sint w)"
  note p = print_base_digits [of 10 "- sint w", simplified]
  have m: "\<not> isspace CHR ''-''" by code_simp
  have "strtol_sign (dropWhile isspace (print_int (sint w))) = (True, ?s)"
    using True m by (simp add: print_int_def)
  moreover have "strtol_base 10 ?s = (10, ?s)" by (simp add: strtol_base_def)
  moreover have "digits_value 10 (takeWhile (is_digit_of 10) ?s) = - sint w"
    using p True by (simp add: takeWhile_all)
  moreover have "- sint w \<le> 18446744073709551615" using sint_greater_eq [of w] by simp
  ultimately have "strtoul (print_int (sint w)) 10 = - word_of_int (- sint w)"
    by (simp add: strtoul_def Let_def)
  then have "strtoul (print_int (sint w)) 10 = word_of_int (sint w)" by simp
  then show ?thesis by (simp add: ucast_scast_id)
next
  case False
  have small: "uint (word_of_int k :: u64) = k" if "0 \<le> k" "k < 2147483648" for k
    using that by (simp add: uint_word_of_int)
  have "sint w < 2147483648" using sint_less [of w] by simp
  with False small [of "sint w"] have "sint w = uint (word_of_int (sint w) :: u64)"
    by (simp only: not_less) 
  then have "strtoul (print_int (sint w)) 10 = word_of_int (sint w)"
    using False strtoul_print_base [of "word_of_int (sint w)"] by (simp add: print_int_def)
  then show ?thesis by (simp add: ucast_scast_id)
qed

text \<open>
  the report of the options can be given back: the numbers that
  \<open>print_enabled_options\<close> shows for interval, length and packet size (the last one as a
  signed number) restore the same fields when they are passed to \<open>-i\<close>, \<open>-l\<close> and \<open>-s\<close>.
\<close>

theorem options_report_roundtrip:
  "process_options opts
     [(CHR ''i'', Some (print_base 10 (uint (o_interval opts')))),
      (CHR ''l'', Some (print_base 10 (uint (o_length opts')))),
      (CHR ''s'', Some (print_int (sint (o_packet_size opts'))))] =
   Inr (opts\<lparr>o_interval := o_interval opts', o_length := o_length opts',
             o_packet_size := o_packet_size opts'\<rparr>)"
  by (simp add: process_option_def with_arg_def strtoul_print_base strtoul_signed)

text \<open>
  a DiffServ value that \<open>parse_ipqos\<close> rejects is not rejected by \<open>-d\<close>: the error value
  -1 is stored in the options as a number of 32 bits, and the report shows \<open>cs0\<close>.
\<close>

theorem diffserv_error_stored:
  assumes "parse_ipqos (Some s) = -1"
  shows "\<exists>opts'. process_options opts [(CHR ''d'', Some s)] = Inr opts' \<and>
    o_diffserv opts' = - 1 \<and> iptos2str (sint (o_diffserv opts')) = ''cs0''"
  using assms iptos2str_clamped [of "-1"]
  by (simp add: process_option_def)

section \<open>Witnesses\<close>

theorem process_options_outcome_witness:
  "process_options zero_options [(CHR ''v'', None), (CHR ''o'', Some ''json'')] = Inl OutOfBounds \<and>
   process_options zero_options [(CHR ''v'', None), (CHR ''r'', None)] = Inl (Exit (-1))"
proof -
  have "\<forall>a \<in> set [(CHR ''v'', None), (CHR ''o'', Some ''json'')]. answers_for QSTRING long_options a"
    "\<forall>a \<in> set [(CHR ''v'', None), (CHR ''r'', None)]. answers_for QSTRING long_options a"
    by (auto simp: answers_for_def QSTRING_def long_options_def)
  from process_options_outcome [OF this(1)] process_options_outcome [OF this(2)]
  show ?thesis by (simp add: stops_def)
qed

theorem process_options_flags_witness:
  "process_options zero_options [(CHR ''v'', None), (CHR ''3'', None), (CHR ''v'', None)] =
   Inr (with_flags zero_options {CHR ''3'', CHR ''v''})"
proof -
  have "\<forall>a \<in> set [(CHR ''v'', None), (CHR ''3'', None), (CHR ''v'', None)]. flag a"
    by (simp add: flag_def)
  from process_options_flags [OF this] show ?thesis by (simp add: insert_commute)
qed

theorem diffserv_error_stored_witness:
  "\<exists>opts'. process_options zero_options [(CHR ''d'', Some ''af99'')] = Inr opts' \<and> o_diffserv opts' = - 1"
proof -
  have "parse_ipqos (Some ''af99'') = -1" by code_simp
  from diffserv_error_stored [OF this, of zero_options] show ?thesis by blast
qed

end
