(* ===== verification/Usage.thy ===== *)
theory Usage
  imports Options
begin

text \<open>
  The usage text of \<open>twd.c\<close>, and what it documents compared with what \<open>getopt_long\<close> and
  \<open>process_options\<close> accept and with the defaults.
\<close>

section \<open>Definitions\<close>

text \<open>The lines that \<open>usage\<close> prints on standard output.\<close>

definition usage_text :: "string list" where
  "usage_text =
     [''twd [options] addr [addr:port...]'',
      ''twd [options] -S [addr:port...]'',
      ''    -D --debug     X   debug output level'',
      ''    -v --verbose       provide more verbose insight'',
      ''    -h --help          this message'',
      ''    -F --dontfork      remain in foreground'',
      ''    -1 --up            test up direction only'',
      ''    -2 --down          test down direction only'',
      ''    -3 --bidir         test bidirectionally'',
      ''    -4 --ipv4          test ipv4'',
      ''    -6 --ipv6          test ipv6'',
      ''    -r --random-data   use a random data size'',
      ''    -i --interval      interval [default 10ms]'',
      ''    -L --logdir        log directory [default .]'',
      ''    -l --length        length of test [default 300ms]'',
      ''    -s --size          packet size [default 240 + headers] '',
      ''    -S --server        run in server mode'',
      ''    -P --passfail      report pass/fail only'',
      ''    -e --ecn           enable ecn on all tests'',
      ''    -d --diffserv      [value] '',
      ''    -T --test-all      run all tests'',
      ''    -t --test-all      run bw test'',
      ''       --test-ecn      test for ecn'',
      ''       --test-diffserv test diffserv'',
      ''       --test-tos      test all tos bits'',
      ''       --test-self     test various bits of self'',
      ''    -Q --test-fq       test for presence of fair queuing'',
      ''    -B --test-bw       test bandwidth'',
      ''    -C --test-call     test call'',
      ''    -o --output        [type]'',
      ''    -w --write         [filename]'']"

text \<open>(standard error, standard output, how it ends).\<close>

definition usage_run :: "string option \<Rightarrow> string list \<times> string list \<times> 'a result" where
  "usage_run err = ((case err of None \<Rightarrow> [] | Some e \<Rightarrow> [e]), usage_text, usage)"

text \<open>The short option and the long option that a line documents.\<close>

fun documented_short :: "string \<Rightarrow> char option" where
  "documented_short (a # b # c # d # e # f # rest) =
     (if [a, b, c, d, e] = ''    -'' then Some f else None)"
| "documented_short _ = None"

definition word_of :: "string \<Rightarrow> string" where
  "word_of s = takeWhile (\<lambda>c. c \<noteq> CHR '' '') s"

definition documented_long :: "string \<Rightarrow> string option" where
  "documented_long l = (if take 9 l = ''    -'' @ [l ! 5] @ '' --'' \<or> take 9 l = ''       --''
                        then Some (word_of (drop 9 l)) else None)"

text \<open>An option letter that the switch of \<open>process_options\<close> has a case for.\<close>

definition handled :: "char \<Rightarrow> bool" where
  "handled c = (case process_option zero_options (c, Some ''0'') of Inl (Exit _) \<Rightarrow> False | _ \<Rightarrow> True)"

section \<open>Property\<close>

text \<open>
  The usage text documents short options that \<open>getopt_long\<close> rejects and long options that do
  not exist; and besides those that ask for this text, two options that the tables accept end
  the program: \<open>-m\<close> and \<open>--random-data\<close>.
\<close>

theorem usage_text_accuracy:
  "filter (\<lambda>c. c \<notin> fst ` set (short_options QSTRING)) (List.map_filter documented_short usage_text) = ''rdQB'' \<and>
   filter (\<lambda>n. n \<notin> fst ` set long_options) (List.map_filter documented_long usage_text) =
     [''test-tos'', ''test-call''] \<and>
   filter (\<lambda>c. \<not> handled c) (map fst (short_options QSTRING)) = ''mh?'' \<and>
   filter (\<lambda>(n, h, c). \<not> handled c) long_options =
     [(''help'', no_argument, CHR ''h''), (''random-data'', no_argument, CHR ''r'')]"
  by code_simp

end
