(* ===== verification/Twd_Main.thy ===== *)
theory Twd_Main
  imports Options Parse_Addr
begin

text \<open>
  The start of the program: \<open>finish_setup\<close> and \<open>main\<close> of \<open>twd.c\<close>. The globals
  \<open>g_hosts\<close> and \<open>g_numhosts\<close> are a record; \<open>g_hosts\<close> is an array of the size that
  \<open>calloc\<close> was asked for, and a store beyond it is a fault. \<open>calloc\<close>,
  \<open>getsockname\<close> and \<open>getaddrinfo\<close> are the fields of \<open>setup_os\<close>.
\<close>

section \<open>Definitions\<close>

record 'a setup_os =
  so_calloc :: "nat \<Rightarrow> bool"
  so_getsockname :: "int + 'a"
  so_gai :: "string \<Rightarrow> string \<Rightarrow> twdip \<Rightarrow> int + 'a"
  so_zero :: 'a

record 'a globals =
  g_hosts :: "'a list option"
  g_numhosts :: nat

definition ENOMEM :: int where "ENOMEM = 12"

text \<open>
  The loop over the addresses of the command line: (returned value, the array).
\<close>

fun resolve_hosts :: "'a setup_os \<Rightarrow> 'a list \<Rightarrow> nat \<Rightarrow> string list \<Rightarrow> (int \<times> 'a list) result" where
  "resolve_hosts os hosts i [] = Inr (0, hosts)"
| "resolve_hosts os hosts i (arg # args) =
     bind_r (to_addr_port (so_gai os) (if i < length hosts then hosts ! i else so_zero os) arg TWDIP_any)
       (\<lambda>(rc, sa).
          if rc \<noteq> 0 then Inr (rc, hosts)
          else if i < length hosts then resolve_hosts os (hosts[i := sa]) (i + 1) args
          else Inl OutOfBounds)"

text \<open>
  \<open>argv\<close> includes the program's name, so \<open>argc\<close> is its length. (returned value,
  options, globals, what is printed on \<open>stderr\<close> by the report of the options.)
\<close>

definition report_if_debug :: "twd_options \<Rightarrow> string" where
  "report_if_debug opts = (if o_debug opts > 0 then print_enabled_options opts else [])"

definition finish_setup ::
  "'a setup_os \<Rightarrow> 'a globals \<Rightarrow> twd_options \<Rightarrow> nat \<Rightarrow> string list \<Rightarrow>
     (int \<times> twd_options \<times> 'a globals \<times> string) result" where
  "finish_setup os g opts idx argv =
     (let argc = length argv in
      assert_c (idx > 0) (assert_c (idx \<le> argc)
       (let g1 = g\<lparr>g_numhosts := argc - idx\<rparr> in
        if g_numhosts g1 = 0 then
          if \<not> o_server opts then Inr (EINVAL, opts, g1, [])
          else if \<not> so_calloc os 1 then Inr (ENOMEM, opts, g1\<lparr>g_hosts := None\<rparr>, [])
          else let g2 = g1\<lparr>g_hosts := Some [so_zero os], g_numhosts := 1\<rparr>
               in (case so_getsockname os of
                     Inl err \<Rightarrow> Inr (err, opts, g2, [])
                   | Inr sa \<Rightarrow>
                       let opts1 = opts\<lparr>o_inetd := True\<rparr>
                       in Inr (0, opts1, g2\<lparr>g_hosts := Some [sa]\<rparr>, report_if_debug opts1))
        else if \<not> so_calloc os idx then Inr (ENOMEM, opts, g1\<lparr>g_hosts := None\<rparr>, [])
        else bind_r (resolve_hosts os (replicate idx (so_zero os)) 0 (drop idx argv)) (\<lambda>(rc, hosts).
               let g2 = g1\<lparr>g_hosts := Some hosts\<rparr>
               in if rc \<noteq> 0 then Inr (rc, opts, g2, [])
                  else Inr (0, opts, g2, report_if_debug opts)))))"

text \<open>
  What \<open>main\<close> prints for a host: \<open>shown\<close> gives the family of an address, its text
  (\<open>inet_ntop\<close>) and its port.
\<close>

definition pad3 :: "int \<Rightarrow> string" where
  "pad3 n = (let s = print_int n in replicate (3 - length s) CHR '' '' @ s)"

definition host_line :: "('a \<Rightarrow> family \<times> string \<times> int) \<Rightarrow> nat \<Rightarrow> 'a \<Rightarrow> string result" where
  "host_line shown i sa =
     (case shown sa of
        (AF_INET, ip, port) \<Rightarrow> Inr (pad3 (int i) @ '': IPv4 '' @ ip @ '':'' @ print_int port @ newline)
      | (AF_INET6, ip, port) \<Rightarrow>
          Inr (pad3 (int i) @ '': IPv6 ['' @ ip @ '']:'' @ print_int port @ newline)
      | (AF_OTHER, _, _) \<Rightarrow> Inl AssertFail)"

fun print_hosts :: "('a \<Rightarrow> family \<times> string \<times> int) \<Rightarrow> 'a list \<Rightarrow> nat \<Rightarrow> nat \<Rightarrow> string result" where
  "print_hosts shown hosts i 0 = Inr []"
| "print_hosts shown hosts i (Suc n) =
     (if i < length hosts
      then bind_r (host_line shown i (hosts ! i)) (\<lambda>l.
           bind_r (print_hosts shown hosts (i + 1) n) (\<lambda>ls. Inr (l @ ls)))
      else Inl OutOfBounds)"

text \<open>
  \<open>main\<close>: (exit status, standard output). \<open>answers\<close> and \<open>idx\<close> are what
  \<open>getopt_long\<close> makes of \<open>argv\<close>: its answers and the final \<open>optind\<close>.
\<close>

definition twd_main ::
  "'a setup_os \<Rightarrow> ('a \<Rightarrow> family \<times> string \<times> int) \<Rightarrow> answer list \<Rightarrow> nat \<Rightarrow> string list \<Rightarrow>
     (int \<times> string) result" where
  "twd_main os shown answers idx argv =
     (let options = default_options zero_options in
      bind_r (process_options options answers) (\<lambda>options.
      bind_r (finish_setup os \<lparr>g_hosts = None, g_numhosts = 0\<rparr> options idx argv)
        (\<lambda>(rc, options, g, report).
           if rc \<noteq> 0 then Inr (1, [])
           else (case g_hosts g of
                   None \<Rightarrow> Inl Segfault
                 | Some hosts \<Rightarrow>
                     bind_r (print_hosts shown hosts 0 (g_numhosts g)) (\<lambda>out. Inr (0, out))))))"

section \<open>Lemmas\<close>

text \<open>The address that a text resolves to.\<close>

definition resolves :: "'a setup_os \<Rightarrow> string \<Rightarrow> 'a \<Rightarrow> bool" where
  "resolves os arg sa \<longleftrightarrow> (\<forall>old. to_addr_port (so_gai os) old arg TWDIP_any = Inr (0, sa))"

lemma resolve_hosts_all:
  assumes "list_all2 (resolves os) args sas"
  shows "resolve_hosts os hosts i args =
    (if args = [] \<or> i + length args \<le> length hosts
     then Inr (0, take i hosts @ sas @ drop (i + length args) hosts) else Inl OutOfBounds)"
  using assms
proof (induction args sas arbitrary: hosts i rule: list_all2_induct)
  case Nil
  then show ?case by simp
next
  case (Cons arg args sa sas)
  have step: "resolve_hosts os hosts i (arg # args) =
      (if i < length hosts then resolve_hosts os (hosts[i := sa]) (i + 1) args else Inl OutOfBounds)"
    using Cons.hyps(1) by (simp add: resolves_def)
  show ?case
  proof (cases "i < length hosts")
    case True
    then show ?thesis
      unfolding step Cons.IH by (auto simp: take_Suc_conv_app_nth list_update_append drop_update_cancel)
  next
    case False
    then show ?thesis unfolding step by simp
  qed
qed

section \<open>Properties\<close>

text \<open>
  C8: \<open>finish_setup\<close> with addresses on the command line, all of which resolve. The array
  of hosts is allocated with \<open>idx\<close> entries, the number of words before the first
  address, and not with one entry per address: as long as there are no more addresses than
  that, all of them are stored in order; one more is written beyond the array.
\<close>

theorem finish_setup_hosts:
  assumes "0 < idx" "idx < length argv" "so_calloc os idx"
    and "list_all2 (resolves os) (drop idx argv) sas"
  shows "finish_setup os g opts idx argv =
    (if length sas \<le> idx
     then Inr (0, opts, \<lparr>g_hosts = Some (sas @ replicate (idx - length sas) (so_zero os)),
                          g_numhosts = length sas\<rparr>, report_if_debug opts)
     else Inl OutOfBounds)"
proof -
  have len: "length sas = length argv - idx" using list_all2_lengthD [OF assms(4)] by simp
  have "resolve_hosts os (replicate idx (so_zero os)) 0 (drop idx argv) =
      (if length sas \<le> idx then Inr (0, sas @ replicate (idx - length sas) (so_zero os)) else Inl OutOfBounds)"
    using resolve_hosts_all [OF assms(4), of "replicate idx (so_zero os)" 0] assms(2) len by simp
  then show ?thesis
    using assms(1-3) len by (cases g) (simp add: finish_setup_def Let_def)
qed

text \<open>
  C35: for one address or none the program is safe: whatever the operating system
  answers (an error of \<open>getsockname\<close> having an error number other than 0), \<open>finish_setup\<close> returns; it reports success only with as many hosts
  stored as \<open>g_numhosts\<close> says, and without an address only for a server whose standard
  input is a socket.
\<close>

theorem finish_setup_safe:
  assumes "0 < idx" "idx \<le> length argv" "length argv \<le> idx + 1" "so_getsockname os \<noteq> Inl 0"
  shows "\<exists>rc opts' g' out. finish_setup os g opts idx argv = Inr (rc, opts', g', out) \<and>
    (rc = 0 \<longrightarrow> (\<exists>hosts. g_hosts g' = Some hosts \<and> g_numhosts g' = 1 \<and> 1 \<le> length hosts \<and>
       (idx = length argv \<longrightarrow> o_server opts \<and> o_inetd opts' \<and> Inr (hosts ! 0) = so_getsockname os)))"
proof (cases "idx = length argv")
  case True
  then show ?thesis
    using assms(1,4) by (cases "so_getsockname os") (auto simp: finish_setup_def Let_def EINVAL_def ENOMEM_def)
next
  case False
  then obtain arg where arg: "drop idx argv = [arg]"
    using assms by (metis Suc_eq_plus1 Suc_leI drop_eq_Nil2 id_take_nth_drop le_antisym
        le_neq_implies_less Cons_nth_drop_Suc)
  have n: "length argv - idx = 1" using False assms by simp
  obtain rc sa where r: "to_addr_port (so_gai os) (so_zero os) arg TWDIP_any = Inr (rc, sa)"
    using to_addr_port_no_fault [of "so_gai os" "so_zero os" arg TWDIP_any] by auto
  have "replicate idx (so_zero os) ! 0 = so_zero os" using assms(1) by simp
  then have "resolve_hosts os (replicate idx (so_zero os)) 0 (drop idx argv) =
      (if rc \<noteq> 0 then Inr (rc, replicate idx (so_zero os)) else Inr (0, (replicate idx (so_zero os))[0 := sa]))"
    using r assms(1) by (simp add: arg)
  then show ?thesis
    using assms False n by (auto simp: finish_setup_def Let_def ENOMEM_def)
qed

text \<open>
  C36: a whole run of the program with flags and one address that resolves prints that
  address, numbered 0, and ends with status 0; with two addresses and no option the
  same program writes beyond the array of hosts.
\<close>

theorem twd_main_runs:
  assumes "\<forall>a \<in> set answers. flag a" "so_calloc os idx" "0 < idx" "length argv = idx + n"
    and "list_all2 (resolves os) (drop idx argv) sas"
    and "\<forall>sa \<in> set sas. fst (shown sa) = AF_INET"
  shows "(n = 1 \<longrightarrow> (\<exists>ip port. shown (hd sas) = (AF_INET, ip, port) \<and>
      twd_main os shown answers idx argv =
        Inr (0, ''  0: IPv4 '' @ ip @ '':'' @ print_int port @ newline))) \<and>
    (n = 2 \<and> idx = 1 \<longrightarrow> twd_main os shown answers idx argv = Inl OutOfBounds)"
proof -
  have opts: "process_options opts answers = Inr (with_flags opts (set (map fst answers)))" for opts
    using assms(1)
  proof (induction answers arbitrary: opts)
    case Nil
    then show ?case by (simp add: with_flags_empty)
  next
    case (Cons a as)
    then show ?case by (simp add: flag_result with_flags_insert)
  qed
  have len: "length sas = n" using list_all2_lengthD [OF assms(5)] assms(4) by simp
  have hosts: "resolve_hosts os (replicate idx (so_zero os)) 0 (drop idx argv) =
      (if n \<le> idx then Inr (0, sas @ replicate (idx - n) (so_zero os)) else Inl OutOfBounds)" if "n \<noteq> 0"
    using resolve_hosts_all [OF assms(5), of "replicate idx (so_zero os)" 0] that assms(4) len by simp
  have pad: "pad3 0 = ''  0''" by code_simp
  show ?thesis
  proof (intro conjI impI)
    assume n: "n = 1"
    then obtain sa where sa: "sas = [sa]" using len by (auto simp: length_Suc_conv)
    obtain ip port where s: "shown sa = (AF_INET, ip, port)"
      using assms(6) sa by (cases "shown sa") auto
    have "twd_main os shown answers idx argv =
        Inr (0, ''  0: IPv4 '' @ ip @ '':'' @ print_int port @ newline)"
      using hosts n sa s assms(2-4) pad
      by (simp add: twd_main_def opts finish_setup_def host_line_def)
    with sa s show "\<exists>ip port. shown (hd sas) = (AF_INET, ip, port) \<and>
      twd_main os shown answers idx argv =
        Inr (0, ''  0: IPv4 '' @ ip @ '':'' @ print_int port @ newline)" by simp
  next
    assume "n = 2 \<and> idx = 1"
    then show "twd_main os shown answers idx argv = Inl OutOfBounds"
      using hosts assms(2-4) by (simp add: twd_main_def opts finish_setup_def)
  qed
qed

section \<open>Witnesses\<close>

text \<open>An operating system that resolves every name to itself.\<close>

definition echo_os :: "(string \<times> string) setup_os" where
  "echo_os = \<lparr>so_calloc = \<lambda>_. True, so_getsockname = Inr (''0.0.0.0'', ''7''),
     so_gai = \<lambda>host port _. Inr (host, port), so_zero = ([], [])\<rparr>"

definition echo_shown :: "string \<times> string \<Rightarrow> family \<times> string \<times> int" where
  "echo_shown sa = (AF_INET, fst sa, fst (strtol (snd sa) 10))"

lemma echo_resolves:
  "resolves echo_os ''10.0.0.1:7'' (''10.0.0.1'', ''7'')"
  "resolves echo_os ''10.0.0.2:8'' (''10.0.0.2'', ''8'')"
proof -
  have "NUL \<notin> set (''10.0.0.1'' @ ''7'')" "CHR '':'' \<notin> set ''7''"
    "NUL \<notin> set (''10.0.0.2'' @ ''8'')" "CHR '':'' \<notin> set ''8''"
    by code_simp+
  note to_addr_port_value [OF this(1,2), of "so_gai echo_os" _ TWDIP_any]
    to_addr_port_value [OF this(3,4), of "so_gai echo_os" _ TWDIP_any]
  then show "resolves echo_os ''10.0.0.1:7'' (''10.0.0.1'', ''7'')"
    "resolves echo_os ''10.0.0.2:8'' (''10.0.0.2'', ''8'')"
    by (simp_all add: resolves_def lookup_addr_def echo_os_def)
qed

theorem finish_setup_hosts_witness:
  "finish_setup echo_os \<lparr>g_hosts = None, g_numhosts = 0\<rparr> zero_options 1
     [''twd'', ''10.0.0.1:7'', ''10.0.0.2:8''] = Inl OutOfBounds"
  using finish_setup_hosts [of 1 "[''twd'', ''10.0.0.1:7'', ''10.0.0.2:8'']" echo_os
      "[(''10.0.0.1'', ''7''), (''10.0.0.2'', ''8'')]" "\<lparr>g_hosts = None, g_numhosts = 0\<rparr>" zero_options]
    echo_resolves by (simp add: echo_os_def)

theorem finish_setup_safe_witness:
  "\<exists>rc opts' g' out. finish_setup echo_os \<lparr>g_hosts = None, g_numhosts = 0\<rparr> zero_options 1
     [''twd'', ''10.0.0.1:7''] = Inr (rc, opts', g', out)"
  using finish_setup_safe [of 1 "[''twd'', ''10.0.0.1:7'']" echo_os "\<lparr>g_hosts = None, g_numhosts = 0\<rparr>" zero_options]
  by (auto simp: echo_os_def)

theorem twd_main_runs_witness:
  "twd_main echo_os echo_shown [(CHR ''v'', None)] 2 [''twd'', ''-v'', ''10.0.0.1:7''] =
     Inr (0, ''  0: IPv4 10.0.0.1:7'' @ newline)"
proof -
  have "\<forall>a \<in> set [(CHR ''v'', None)]. flag a" by (simp add: flag_def)
  moreover have "fst (strtol ''7'' 10) = 7" "print_int 7 = ''7''" by code_simp+
  ultimately show ?thesis
    using twd_main_runs [of "[(CHR ''v'', None)]" echo_os 2 "[''twd'', ''-v'', ''10.0.0.1:7'']" 1
        "[(''10.0.0.1'', ''7'')]" echo_shown] echo_resolves(1)
    by (auto simp: echo_os_def echo_shown_def)
qed

end
