(* ===== verification/Logging.thy ===== *)
theory Logging
  imports Cstring
begin

text \<open>
  The loggers of \<open>log.c\<close> and \<open>log.h\<close>: a table of functions with a pointer \<open>priv\<close> to a
  control block on the heap, once for the console and once for syslog. A function
  of the table reads its logger only through \<open>self->priv\<close>, so this pointer stands
  for \<open>self\<close>; a function that changes it returns it.

  The heap is a partial map from addresses to control blocks; \<open>calloc\<close> takes the next
  address, so that a pointer to a freed block stays recognisable and its use is the
  fault \<open>UseAfterFree\<close>. The two structs of control blocks have the same fields.
\<close>

section \<open>State\<close>

record log_control =
  lc_facility :: int
  lc_level :: int
  lc_warn :: int
  lc_error :: int
  lc_info :: int
  lc_debug :: int
  lc_debug_level :: int

datatype priority = LOG_WARNING | LOG_ERR | LOG_NOTICE | LOG_INFO | LOG_DEBUG

datatype message =
    Stderr string
  | Stdout string
  | To_syslog priority string
  | Openlog string
  | Closelog

record log_sys =
  heap :: "nat \<Rightarrow> log_control option"
  next_free :: nat
  memory_left :: bool
  out :: "message list"

type_synonym ptr = "nat option"

definition calloc_control :: "log_sys \<Rightarrow> log_sys \<times> ptr" where
  "calloc_control w =
     (if memory_left w
      then (w\<lparr>heap := (heap w)(next_free w \<mapsto>
               \<lparr>lc_facility = 0, lc_level = 0, lc_warn = 0, lc_error = 0, lc_info = 0, lc_debug = 0,
                lc_debug_level = 0\<rparr>), next_free := next_free w + 1\<rparr>, Some (next_free w))
      else (w, None))"

definition emit :: "message \<Rightarrow> log_sys \<Rightarrow> log_sys" where
  "emit m w = w\<lparr>out := out w @ [m]\<rparr>"

definition load_control :: "log_sys \<Rightarrow> nat \<Rightarrow> log_control result" where
  "load_control w p = (case heap w p of None \<Rightarrow> Inl UseAfterFree | Some c \<Rightarrow> Inr c)"

definition store_control :: "log_sys \<Rightarrow> nat \<Rightarrow> log_control \<Rightarrow> log_sys" where
  "store_control w p c = w\<lparr>heap := (heap w)(p \<mapsto> c)\<rparr>"

definition free_control :: "log_sys \<Rightarrow> nat \<Rightarrow> log_sys result" where
  "free_control w p =
     (case heap w p of None \<Rightarrow> Inl UseAfterFree | Some _ \<Rightarrow> Inr (w\<lparr>heap := (heap w)(p := None)\<rparr>))"

text \<open>\<open>logger_not_avail\<close> ends the program; \<open>PRIV_CHECK\<close> calls it for a NULL \<open>priv\<close>.\<close>

definition logger_not_avail :: "int \<Rightarrow> 'a result" where
  "logger_not_avail err = Inl (Exit err)"

definition PRIV_CHECK :: "ptr \<Rightarrow> nat result" where
  "PRIV_CHECK priv = (case priv of None \<Rightarrow> logger_not_avail (-1) | Some p \<Rightarrow> Inr p)"

text \<open>The increment of a counter of the control block.\<close>

definition with_priv :: "ptr \<Rightarrow> (log_control \<Rightarrow> log_control result) \<Rightarrow> log_sys \<Rightarrow> log_sys result" where
  "with_priv priv f w =
     bind_r (PRIV_CHECK priv) (\<lambda>p. bind_r (load_control w p) (\<lambda>c. bind_r (f c) (\<lambda>c'.
       Inr (store_control w p c'))))"

definition inc_warn :: "log_control \<Rightarrow> log_control result" where
  "inc_warn c = bind_r (int_c (lc_warn c + 1)) (\<lambda>n. Inr (c\<lparr>lc_warn := n\<rparr>))"

definition inc_error :: "log_control \<Rightarrow> log_control result" where
  "inc_error c = bind_r (int_c (lc_error c + 1)) (\<lambda>n. Inr (c\<lparr>lc_error := n\<rparr>))"

definition inc_info :: "log_control \<Rightarrow> log_control result" where
  "inc_info c = bind_r (int_c (lc_info c + 1)) (\<lambda>n. Inr (c\<lparr>lc_info := n\<rparr>))"

definition inc_debug :: "log_control \<Rightarrow> log_control result" where
  "inc_debug c = bind_r (int_c (lc_debug c + 1)) (\<lambda>n. Inr (c\<lparr>lc_debug := n\<rparr>))"

section \<open>The console logger\<close>

definition log_warn :: "ptr \<Rightarrow> int \<Rightarrow> string \<Rightarrow> log_sys \<Rightarrow> log_sys result" where
  "log_warn priv err message w =
     bind_r (with_priv priv inc_warn w) (\<lambda>w.
       Inr (emit (Stderr (''WARN: '' @ print_int err @ '': '' @ message @ newline)) w))"

definition log_error :: "ptr \<Rightarrow> int \<Rightarrow> string \<Rightarrow> log_sys \<Rightarrow> log_sys result" where
  "log_error priv err message w =
     bind_r (with_priv priv inc_error w) (\<lambda>w.
       Inr (emit (Stderr (''ERROR: '' @ print_int err @ '': '' @ message @ newline)) w))"

definition log_info :: "ptr \<Rightarrow> int \<Rightarrow> string \<Rightarrow> log_sys \<Rightarrow> log_sys result" where
  "log_info priv err message w =
     bind_r (with_priv priv inc_info w) (\<lambda>w.
       Inr (emit (Stderr (''INFO: '' @ print_int err @ '': '' @ message @ newline)) w))"

text \<open>\<open>debug_level\<close> is read again after the counter is stored.\<close>

definition debug_level_of :: "ptr \<Rightarrow> log_sys \<Rightarrow> int result" where
  "debug_level_of priv w =
     bind_r (PRIV_CHECK priv) (\<lambda>p. bind_r (load_control w p) (\<lambda>c. Inr (lc_debug_level c)))"

definition log_debug :: "ptr \<Rightarrow> int \<Rightarrow> int \<Rightarrow> string \<Rightarrow> log_sys \<Rightarrow> log_sys result" where
  "log_debug priv level err message w =
     bind_r (with_priv priv inc_debug w) (\<lambda>w.
     bind_r (debug_level_of priv w) (\<lambda>debug_level.
       Inr (if debug_level < level
            then emit (Stderr (''DEBUG: '' @ print_int err @ '' '' @ message @ newline)) w else w)))"

definition log_init :: "ptr \<Rightarrow> string \<Rightarrow> log_sys \<Rightarrow> (log_sys \<times> ptr) result" where
  "log_init priv name w =
     (if priv = None
      then let (w, priv) = calloc_control w in bind_r (PRIV_CHECK priv) (\<lambda>_. Inr (w, priv))
      else Inr (w, priv))"

text \<open>\<open>reset\<close>, \<open>change\<close> and \<open>dump\<close> of the console have empty bodies.\<close>

definition log_reset :: "ptr \<Rightarrow> log_sys \<Rightarrow> log_sys result" where "log_reset priv w = Inr w"
definition log_change :: "ptr \<Rightarrow> log_sys \<Rightarrow> log_sys result" where "log_change priv w = Inr w"
definition log_dump :: "ptr \<Rightarrow> log_sys \<Rightarrow> log_sys result" where "log_dump priv w = Inr w"

definition log_destroy :: "ptr \<Rightarrow> log_sys \<Rightarrow> log_sys result" where
  "log_destroy priv w = bind_r (PRIV_CHECK priv) (\<lambda>p. free_control w p)"

definition stats_text :: "log_control \<Rightarrow> string" where
  "stats_text c =
     ''info: '' @ print_int (lc_info c) @ '' warn: '' @ print_int (lc_warn c) @ '' error: '' @
     print_int (lc_error c) @ '' debug '' @ print_int (lc_debug c) @ '' messages sent''"

definition log_dump_stats :: "ptr \<Rightarrow> log_sys \<Rightarrow> log_sys result" where
  "log_dump_stats priv w =
     bind_r (PRIV_CHECK priv) (\<lambda>p. bind_r (load_control w p) (\<lambda>c.
       Inr (emit (Stderr (stats_text c @ newline)) w)))"

section \<open>The syslog logger\<close>

definition LOG_CONS :: int where "LOG_CONS = 2"
definition LOG_NDELAY :: int where "LOG_NDELAY = 8"
definition LOG_LOCAL6 :: int where "LOG_LOCAL6 = 176"

definition syslog_warn :: "ptr \<Rightarrow> int \<Rightarrow> string \<Rightarrow> log_sys \<Rightarrow> log_sys result" where
  "syslog_warn priv err message w =
     bind_r (with_priv priv inc_warn w) (\<lambda>w. Inr (emit (To_syslog LOG_WARNING (message @ newline)) w))"

definition syslog_error :: "ptr \<Rightarrow> int \<Rightarrow> string \<Rightarrow> log_sys \<Rightarrow> log_sys result" where
  "syslog_error priv err message w =
     bind_r (with_priv priv inc_error w) (\<lambda>w. Inr (emit (To_syslog LOG_ERR (message @ newline)) w))"

definition syslog_info :: "ptr \<Rightarrow> int \<Rightarrow> string \<Rightarrow> log_sys \<Rightarrow> log_sys result" where
  "syslog_info priv err message w =
     bind_r (with_priv priv inc_info w) (\<lambda>w. Inr (emit (To_syslog LOG_NOTICE (message @ newline)) w))"

definition syslog_debug :: "ptr \<Rightarrow> int \<Rightarrow> int \<Rightarrow> string \<Rightarrow> log_sys \<Rightarrow> log_sys result" where
  "syslog_debug priv level err message w =
     bind_r (with_priv priv inc_debug w) (\<lambda>w.
     bind_r (debug_level_of priv w) (\<lambda>debug_level.
       Inr (if debug_level < level then emit (To_syslog LOG_DEBUG (message @ newline)) w else w)))"

definition syslog_init :: "ptr \<Rightarrow> string \<Rightarrow> log_sys \<Rightarrow> (log_sys \<times> ptr) result" where
  "syslog_init priv name w =
     (let w = emit (Openlog name) (emit (Stdout ''enabling syslogging'') w) in
      if priv = None
      then let (w, priv) = calloc_control w
           in bind_r (with_priv priv (\<lambda>c. Inr (c\<lparr>lc_facility := LOG_CONS OR LOG_NDELAY,
                                                lc_level := LOG_LOCAL6\<rparr>)) w) (\<lambda>w. Inr (w, priv))
      else Inr (w, priv))"

definition syslog_reset :: "ptr \<Rightarrow> log_sys \<Rightarrow> log_sys result" where
  "syslog_reset priv w = bind_r (PRIV_CHECK priv) (\<lambda>p. Inr w)"

definition syslog_destroy :: "ptr \<Rightarrow> log_sys \<Rightarrow> log_sys result" where
  "syslog_destroy priv w =
     bind_r (PRIV_CHECK priv) (\<lambda>p. bind_r (free_control w p) (\<lambda>w. Inr (emit Closelog w)))"

definition syslog_change :: "ptr \<Rightarrow> log_sys \<Rightarrow> log_sys result" where "syslog_change priv w = Inr w"
definition syslog_dump :: "ptr \<Rightarrow> log_sys \<Rightarrow> log_sys result" where "syslog_dump priv w = Inr w"

definition syslog_dump_stats :: "ptr \<Rightarrow> log_sys \<Rightarrow> log_sys result" where
  "syslog_dump_stats priv w =
     bind_r (PRIV_CHECK priv) (\<lambda>p. bind_r (load_control w p) (\<lambda>c.
       Inr (emit (To_syslog LOG_INFO (stats_text c)) w)))"

section \<open>The function tables\<close>

record log_cb =
  cb_id :: string
  cb_warn :: "ptr \<Rightarrow> int \<Rightarrow> string \<Rightarrow> log_sys \<Rightarrow> log_sys result"
  cb_info :: "ptr \<Rightarrow> int \<Rightarrow> string \<Rightarrow> log_sys \<Rightarrow> log_sys result"
  cb_error :: "ptr \<Rightarrow> int \<Rightarrow> string \<Rightarrow> log_sys \<Rightarrow> log_sys result"
  cb_debug :: "ptr \<Rightarrow> int \<Rightarrow> int \<Rightarrow> string \<Rightarrow> log_sys \<Rightarrow> log_sys result"
  cb_init :: "ptr \<Rightarrow> string \<Rightarrow> log_sys \<Rightarrow> (log_sys \<times> ptr) result"
  cb_reset :: "ptr \<Rightarrow> log_sys \<Rightarrow> log_sys result"
  cb_destroy :: "ptr \<Rightarrow> log_sys \<Rightarrow> log_sys result"
  cb_change :: "ptr \<Rightarrow> log_sys \<Rightarrow> log_sys result"
  cb_dump :: "ptr \<Rightarrow> log_sys \<Rightarrow> log_sys result"
  cb_dump_stats :: "ptr \<Rightarrow> log_sys \<Rightarrow> log_sys result"
  cb_priv :: ptr

definition console_logger :: log_cb where
  "console_logger =
     \<lparr>cb_id = ''std'', cb_warn = log_warn, cb_info = log_info, cb_error = log_error,
      cb_debug = log_debug, cb_init = log_init, cb_reset = log_reset, cb_destroy = log_destroy,
      cb_change = log_change, cb_dump = log_dump, cb_dump_stats = log_dump_stats, cb_priv = None\<rparr>"

definition sys_logger :: log_cb where
  "sys_logger =
     \<lparr>cb_id = ''syslog'', cb_warn = syslog_warn, cb_info = syslog_info, cb_error = syslog_error,
      cb_debug = syslog_debug, cb_init = syslog_init, cb_reset = syslog_reset,
      cb_destroy = syslog_destroy, cb_change = syslog_change, cb_dump = syslog_dump,
      cb_dump_stats = syslog_dump_stats, cb_priv = None\<rparr>"

text \<open>The calls a program makes through the macros of \<open>log.h\<close> and through the table.\<close>

datatype log_call =
    WARN int string
  | INFO int string
  | ERR int string
  | DEBUG int int string
  | Init string
  | Destroy
  | Dump_stats

fun log_step :: "log_call \<Rightarrow> log_cb \<times> log_sys \<Rightarrow> (log_cb \<times> log_sys) result" where
  "log_step (WARN err m) (l, w) = bind_r (cb_warn l (cb_priv l) err m w) (\<lambda>w. Inr (l, w))"
| "log_step (INFO err m) (l, w) = bind_r (cb_info l (cb_priv l) err m w) (\<lambda>w. Inr (l, w))"
| "log_step (ERR err m) (l, w) = bind_r (cb_error l (cb_priv l) err m w) (\<lambda>w. Inr (l, w))"
| "log_step (DEBUG level err m) (l, w) =
     bind_r (cb_debug l (cb_priv l) level err m w) (\<lambda>w. Inr (l, w))"
| "log_step (Init name) (l, w) =
     bind_r (cb_init l (cb_priv l) name w) (\<lambda>(w, priv). Inr (l\<lparr>cb_priv := priv\<rparr>, w))"
| "log_step Destroy (l, w) = bind_r (cb_destroy l (cb_priv l) w) (\<lambda>w. Inr (l, w))"
| "log_step Dump_stats (l, w) = bind_r (cb_dump_stats l (cb_priv l) w) (\<lambda>w. Inr (l, w))"

fun log_run :: "log_call list \<Rightarrow> log_cb \<times> log_sys \<Rightarrow> (log_cb \<times> log_sys) result" where
  "log_run [] s = Inr s"
| "log_run (c # cs) s = bind_r (log_step c s) (log_run cs)"

text \<open>The test program at the end of \<open>log.c\<close>; the assignment of \<open>sys_logger\<close> copies the struct.\<close>

definition log_main :: "log_sys \<Rightarrow> (log_cb \<times> log_sys) result" where
  "log_main w =
     bind_r (log_run [Init ''TEST'', WARN 3 ''testing warning'', INFO 3 ''testing info'',
         ERR 3 ''testing err'', DEBUG 3 3 ''testing debug'', Dump_stats,
         INFO 3 ''Switching to syslog, tail /var/log/syslog to see'', Destroy] (console_logger, w))
       (\<lambda>(_, w).
     log_run [Init ''TEST'', WARN 3 ''testing warning'', INFO 3 ''testing info'',
         ERR 3 ''testing err'', DEBUG 3 3 ''testing debug'', INFO 3 ''Done testing syslog'', Destroy,
         Dump_stats] (sys_logger, w))"

section \<open>Debugging output of util.c\<close>

text \<open>
  \<open>do_debugf\<close> and the macros \<open>debugf\<close> and \<open>kdebugf\<close> (as they are without \<open>NO_DEBUG\<close>); \<open>debug\<close>
  is the global level, \<open>message\<close> the formatted text.
\<close>

definition do_debugf :: "int \<Rightarrow> int \<Rightarrow> string \<Rightarrow> log_sys \<Rightarrow> log_sys" where
  "do_debugf debug level message w = (if debug \<ge> level then emit (Stderr message) w else w)"

definition debugf :: "int \<Rightarrow> string \<Rightarrow> log_sys \<Rightarrow> log_sys" where
  "debugf debug message w = (if debug \<ge> 2 then do_debugf debug 2 message w else w)"

definition kdebugf :: "int \<Rightarrow> string \<Rightarrow> log_sys \<Rightarrow> log_sys" where
  "kdebugf debug message w = (if debug \<ge> 3 then do_debugf debug 3 message w else w)"

section \<open>What a logger promises\<close>

text \<open>The counters of a live control block: (info, warn, error, debug).\<close>

type_synonym counts = "int \<times> int \<times> int \<times> int"

definition counts_of :: "log_control \<Rightarrow> counts" where
  "counts_of c = (lc_info c, lc_warn c, lc_error c, lc_debug c)"

definition stats :: "log_sys \<Rightarrow> ptr \<Rightarrow> counts option" where
  "stats w priv = (case priv of None \<Rightarrow> None | Some p \<Rightarrow> map_option counts_of (heap w p))"

fun add_call :: "log_call \<Rightarrow> counts \<Rightarrow> counts" where
  "add_call (INFO _ _) (i, wa, e, d) = (i + 1, wa, e, d)"
| "add_call (WARN _ _) (i, wa, e, d) = (i, wa + 1, e, d)"
| "add_call (ERR _ _) (i, wa, e, d) = (i, wa, e + 1, d)"
| "add_call (DEBUG _ _ _) (i, wa, e, d) = (i, wa, e, d + 1)"
| "add_call _ n = n"

fun is_message :: "log_call \<Rightarrow> bool" where
  "is_message (INFO _ _) = True"
| "is_message (WARN _ _) = True"
| "is_message (ERR _ _) = True"
| "is_message (DEBUG _ _ _) = True"
| "is_message _ = False"

definition fits :: "counts \<Rightarrow> bool" where
  "fits n = (case n of (i, wa, e, d) \<Rightarrow>
     0 \<le> i \<and> i \<le> INT_MAX \<and> 0 \<le> wa \<and> wa \<le> INT_MAX \<and> 0 \<le> e \<and> e \<le> INT_MAX \<and> 0 \<le> d \<and> d \<le> INT_MAX)"

text \<open>
  The contract of a table \<open>l\<close>: it starts live with zero counters, a message call counts
  itself, \<open>dump_stats\<close> reports the counters, \<open>destroy\<close> ends the life of the block, and
  every function but \<open>init\<close> fails on a block that is not live. \<open>init\<close> leaves a pointer that is
  not NULL alone, live or not.
\<close>

locale counting_logger =
  fixes l :: log_cb and report :: "counts \<Rightarrow> message"
  assumes init_live: "memory_left w \<Longrightarrow>
      \<exists>w' p. log_step (Init name) (l\<lparr>cb_priv := None\<rparr>, w) = Inr (l\<lparr>cb_priv := p\<rparr>, w') \<and>
             stats w' p = Some (0, 0, 0, 0)"
    and init_again: "\<exists>w'. log_step (Init name) (l\<lparr>cb_priv := Some q\<rparr>, w) = Inr (l\<lparr>cb_priv := Some q\<rparr>, w') \<and>
             heap w' = heap w"
    and call_counts: "is_message c \<Longrightarrow> stats w p = Some n \<Longrightarrow> fits (add_call c n) \<Longrightarrow> fits n \<Longrightarrow>
      \<exists>w'. log_step c (l\<lparr>cb_priv := p\<rparr>, w) = Inr (l\<lparr>cb_priv := p\<rparr>, w') \<and> stats w' p = Some (add_call c n)"
    and dump_reports: "stats w p = Some n \<Longrightarrow>
      log_step Dump_stats (l\<lparr>cb_priv := p\<rparr>, w) = Inr (l\<lparr>cb_priv := p\<rparr>, emit (report n) w)"
    and destroy_kills: "stats w (Some q) = Some n \<Longrightarrow>
      \<exists>w'. log_step Destroy (l\<lparr>cb_priv := Some q\<rparr>, w) = Inr (l\<lparr>cb_priv := Some q\<rparr>, w') \<and> heap w' q = None"
    and dead_fails: "heap w q = None \<Longrightarrow> \<forall>name. c \<noteq> Init name \<Longrightarrow>
      log_step c (l\<lparr>cb_priv := Some q\<rparr>, w) = Inl UseAfterFree"
begin

lemma fits_add_call: "fits n \<Longrightarrow> fits (fold add_call cs n) \<Longrightarrow> fits (fold add_call (take k cs) n)"
proof -
  have mono: "fst n \<le> fst (fold add_call cs n) \<and> fst (snd n) \<le> fst (snd (fold add_call cs n)) \<and>
    fst (snd (snd n)) \<le> fst (snd (snd (fold add_call cs n))) \<and>
    snd (snd (snd n)) \<le> snd (snd (snd (fold add_call cs n)))" for cs n
  proof (induction cs arbitrary: n)
    case (Cons c cs)
    obtain i wa e d where n: "n = (i, wa, e, d)" by (cases n) auto
    show ?case using Cons.IH [of "add_call c n"] unfolding n by (cases c) auto
  qed simp
  assume f: "fits n" "fits (fold add_call cs n)"
  have "fold add_call cs n = fold add_call (drop k cs) (fold add_call (take k cs) n)"
    by (metis append_take_drop_id comp_apply fold_append)
  with mono [of n "take k cs"] mono [of "fold add_call (take k cs) n" "drop k cs"] f
  show ?thesis by (auto simp: fits_def split: prod.splits)
qed

lemma calls_counted:
  assumes "list_all is_message cs" "stats w p = Some n" "fits n" "fits (fold add_call cs n)"
  shows "\<exists>w'. log_run cs (l\<lparr>cb_priv := p\<rparr>, w) = Inr (l\<lparr>cb_priv := p\<rparr>, w') \<and>
    stats w' p = Some (fold add_call cs n)"
  using assms
proof (induction cs arbitrary: w n)
  case (Cons c cs)
  have "fits (add_call c n)" using fits_add_call [OF Cons.prems(3,4), of 1] by simp
  with Cons.prems call_counts obtain w' where
    "log_step c (l\<lparr>cb_priv := p\<rparr>, w) = Inr (l\<lparr>cb_priv := p\<rparr>, w')" "stats w' p = Some (add_call c n)"
    by fastforce
  with Cons.IH [of w' "add_call c n"] Cons.prems \<open>fits (add_call c n)\<close> show ?case by simp
qed simp

lemma session_report:
  assumes "memory_left w" "cb_priv l = None" "list_all is_message cs"
    and "fits (fold add_call cs (0, 0, 0, 0))"
  shows "\<exists>l' w'. log_run (Init name # cs @ [Dump_stats]) (l, w) =
    Inr (l', emit (report (fold add_call cs (0, 0, 0, 0))) w')"
proof -
  have run_append: "log_run (as @ bs) s = bind_r (log_run as s) (log_run bs)" for as bs s
    by (induction as arbitrary: s) (auto simp: bind_r_def split: sum.split)
  have l: "l\<lparr>cb_priv := None\<rparr> = l" using assms(2) by simp
  obtain w1 p where 1: "log_step (Init name) (l, w) = Inr (l\<lparr>cb_priv := p\<rparr>, w1)"
    "stats w1 p = Some (0, 0, 0, 0)"
    using init_live [OF assms(1), of name] unfolding l by blast
  have "fits (0, 0, 0, 0)" by (simp add: fits_def INT_MAX_def)
  from calls_counted [OF assms(3) 1(2) this assms(4)] 1 dump_reports show ?thesis
    by (fastforce simp: run_append)
qed

lemma after_destroy:
  assumes "heap w p = None" "c \<in> set cs" "\<forall>name. c \<noteq> Init name"
  shows "log_run cs (l\<lparr>cb_priv := Some p\<rparr>, w) = Inl UseAfterFree"
  using assms(1,2)
proof (induction cs arbitrary: w)
  case (Cons a cs)
  show ?case
  proof (cases "\<exists>name. a = Init name")
    case True
    then obtain name where a: "a = Init name" by blast
    with assms(3) Cons.prems have "c \<in> set cs" by auto
    moreover obtain w' where "log_step a (l\<lparr>cb_priv := Some p\<rparr>, w) = Inr (l\<lparr>cb_priv := Some p\<rparr>, w')"
      "heap w' = heap w"
      using init_again a by blast
    ultimately show ?thesis using Cons by simp
  next
    case False
    then show ?thesis using dead_fails [OF Cons.prems(1), of a] by simp
  qed
qed simp

lemma destroyed_session:
  assumes "stats w (Some p) = Some n" "c \<in> set cs" "\<forall>name. c \<noteq> Init name"
  shows "log_run (Destroy # cs) (l\<lparr>cb_priv := Some p\<rparr>, w) = Inl UseAfterFree"
proof -
  obtain w' where "log_step Destroy (l\<lparr>cb_priv := Some p\<rparr>, w) = Inr (l\<lparr>cb_priv := Some p\<rparr>, w')"
    "heap w' p = None"
    using destroy_kills [OF assms(1)] by blast
  with after_destroy [OF _ assms(2,3)] show ?thesis by simp
qed

end

section \<open>Both loggers keep the contract\<close>

fun report_counts :: "counts \<Rightarrow> string" where
  "report_counts (i, wa, e, d) =
     ''info: '' @ print_int i @ '' warn: '' @ print_int wa @ '' error: '' @
     print_int e @ '' debug '' @ print_int d @ '' messages sent''"

lemma stats_text_counts: "stats_text c = report_counts (counts_of c)"
  by (simp add: stats_text_def counts_of_def)

lemma int_c_count: "0 \<le> v \<Longrightarrow> v \<le> INT_MAX \<Longrightarrow> int_c v = Inr v"
  by (simp add: int_c_def INT_MIN_def)

lemmas log_ops =
  calloc_control_def emit_def load_control_def store_control_def free_control_def
  logger_not_avail_def PRIV_CHECK_def with_priv_def inc_warn_def inc_error_def inc_info_def
  inc_debug_def debug_level_of_def log_warn_def log_error_def log_info_def log_debug_def log_init_def
  log_destroy_def log_dump_stats_def syslog_warn_def syslog_error_def syslog_info_def
  syslog_debug_def syslog_init_def syslog_destroy_def syslog_dump_stats_def

lemma stats_Some: "stats w p = Some n \<longleftrightarrow> (\<exists>a c. p = Some a \<and> heap w a = Some c \<and> counts_of c = n)"
  by (auto simp: stats_def split: option.splits)

lemma add_call_fits:
  assumes "is_message c" "fits (add_call c (counts_of b))" "fits (counts_of b)"
  shows "(\<exists>err m. c = INFO err m) \<and> int_c (lc_info b + 1) = Inr (lc_info b + 1) \<or>
    (\<exists>err m. c = WARN err m) \<and> int_c (lc_warn b + 1) = Inr (lc_warn b + 1) \<or>
    (\<exists>err m. c = ERR err m) \<and> int_c (lc_error b + 1) = Inr (lc_error b + 1) \<or>
    (\<exists>lv err m. c = DEBUG lv err m) \<and> int_c (lc_debug b + 1) = Inr (lc_debug b + 1)"
  using assms by (cases c) (auto simp: fits_def counts_of_def int_c_count)

interpretation console: counting_logger console_logger "\<lambda>n. Stderr (report_counts n @ newline)"
proof unfold_locales
  fix c w p n
  assume a: "is_message c" "stats w p = Some n" "fits (add_call c n)" "fits n"
  then obtain q b where b: "p = Some q" "heap w q = Some b" "n = counts_of b"
    by (auto simp: stats_Some)
  from add_call_fits [OF a(1) a(3,4) [unfolded b(3)]] b(3)
  show "\<exists>w'. log_step c (console_logger\<lparr>cb_priv := p\<rparr>, w) = Inr (console_logger\<lparr>cb_priv := p\<rparr>, w') \<and>
      stats w' p = Some (add_call c n)"
    using b(1,2) by (elim disjE conjE exE) (auto simp: console_logger_def log_ops stats_def counts_of_def)
next
  fix w :: log_sys and p c
  assume a: "heap w p = None" "\<forall>name. c \<noteq> Init name"
  then show "log_step c (console_logger\<lparr>cb_priv := Some p\<rparr>, w) = Inl UseAfterFree"
    by (cases c) (auto simp: console_logger_def log_ops)
qed (auto simp: console_logger_def log_ops stats_Some stats_text_counts counts_of_def)

interpretation syslog: counting_logger sys_logger "\<lambda>n. To_syslog LOG_INFO (report_counts n)"
proof unfold_locales
  fix c w p n
  assume a: "is_message c" "stats w p = Some n" "fits (add_call c n)" "fits n"
  then obtain q b where b: "p = Some q" "heap w q = Some b" "n = counts_of b"
    by (auto simp: stats_Some)
  from add_call_fits [OF a(1) a(3,4) [unfolded b(3)]] b(3)
  show "\<exists>w'. log_step c (sys_logger\<lparr>cb_priv := p\<rparr>, w) = Inr (sys_logger\<lparr>cb_priv := p\<rparr>, w') \<and>
      stats w' p = Some (add_call c n)"
    using b(1,2) by (elim disjE conjE exE) (auto simp: sys_logger_def log_ops stats_def counts_of_def)
next
  fix w :: log_sys and p c
  assume a: "heap w p = None" "\<forall>name. c \<noteq> Init name"
  then show "log_step c (sys_logger\<lparr>cb_priv := Some p\<rparr>, w) = Inl UseAfterFree"
    by (cases c) (auto simp: sys_logger_def log_ops)
qed (auto simp: sys_logger_def log_ops stats_Some stats_text_counts counts_of_def)

section \<open>Properties\<close>

text \<open>
  C18: a session of either logger reports what happened in it: after \<open>init\<close> and any
  sequence of warnings, notes, errors and debug messages, \<open>dump_stats\<close> prints the number of
  calls of each kind, as long as each fits an \<open>int\<close>; no call faults.
\<close>

theorem logger_session_counts:
  assumes "t \<in> {console_logger, sys_logger}" "memory_left w" "list_all is_message cs"
    and "fits (fold add_call cs (0, 0, 0, 0))"
  shows "\<exists>t' w'. log_run (Init name # cs @ [Dump_stats]) (t, w) = Inr (t',
    emit (if cb_id t = ''std'' then Stderr (report_counts (fold add_call cs (0, 0, 0, 0)) @ newline)
          else To_syslog LOG_INFO (report_counts (fold add_call cs (0, 0, 0, 0)))) w')"
  using assms(1)
proof (elim insertE emptyE)
  assume "t = console_logger"
  with console.session_report [OF assms(2) _ assms(3,4)] show ?thesis
    by (simp add: console_logger_def)
next
  assume "t = sys_logger"
  with syslog.session_report [OF assms(2) _ assms(3,4)] show ?thesis
    by (simp add: sys_logger_def)
qed

text \<open>
  \<open>destroy\<close> frees the control block of either logger and leaves the pointer to it in
  the logger, so the NULL check guards nothing afterwards: any later call except \<open>init\<close>
  uses freed memory, and \<open>init\<close> in between does not help, since it allocates only for a
  NULL pointer.
\<close>

theorem logger_use_after_destroy:
  assumes "t \<in> {console_logger, sys_logger}" "stats w (Some p) = Some n"
    and "c \<in> set cs" "\<forall>name. c \<noteq> Init name"
  shows "log_run (Destroy # cs) (t\<lparr>cb_priv := Some p\<rparr>, w) = Inl UseAfterFree"
  using assms(1) console.destroyed_session [OF assms(2-4)] syslog.destroyed_session [OF assms(2-4)]
  by auto

text \<open>
  the test program of \<open>log.c\<close> does that: it asks for the statistics after it has
  destroyed the syslog logger. Without memory for a control block it ends with status -1.
\<close>

theorem log_main_outcome:
  "log_main w = Inl (if memory_left w then UseAfterFree else Exit (-1))"
proof (cases "memory_left w")
  case True
  have counts: "int_c 1 = Inr 1" "int_c 2 = Inr 2" by (simp_all add: int_c_def INT_MIN_def INT_MAX_def)
  show ?thesis
    using True by (simp add: log_main_def console_logger_def sys_logger_def log_ops counts)
next
  case False
  then show ?thesis by (simp add: log_main_def console_logger_def log_ops)
qed

text \<open>
  a debug message is counted whatever its level, and written exactly when the level of
  the logger is below the level of the message: raising \<open>debug_level\<close> silences messages.
  \<open>do_debugf\<close> of \<open>util.c\<close> is the other way round.
\<close>

theorem log_debug_filter:
  assumes "heap w p = Some b" "0 \<le> lc_debug b" "lc_debug b < INT_MAX"
  shows "\<exists>w'. log_debug (Some p) level err m w = Inr w' \<and>
    heap w' p = Some (b\<lparr>lc_debug := lc_debug b + 1\<rparr>) \<and>
    (out w' \<noteq> out w \<longleftrightarrow> lc_debug_level b < level) \<and>
    (out (do_debugf debug level m w) \<noteq> out w \<longleftrightarrow> level \<le> debug)"
proof -
  have "int_c (lc_debug b + 1) = Inr (lc_debug b + 1)" using assms(2,3) by (intro int_c_count) simp_all
  then show ?thesis using assms(1) by (simp add: log_ops do_debugf_def)
qed

section \<open>Witnesses\<close>

definition fresh_sys :: log_sys where
  "fresh_sys = \<lparr>heap = Map.empty, next_free = 0, memory_left = True, out = []\<rparr>"

theorem logger_session_counts_witness:
  "\<exists>t' w'. log_run [Init ''x'', WARN 1 ''a'', DEBUG 2 1 ''b'', WARN 1 ''c'', Dump_stats] (sys_logger, fresh_sys) =
    Inr (t', emit (To_syslog LOG_INFO (report_counts (0, 2, 0, 1))) w')"
  using logger_session_counts [of sys_logger fresh_sys "[WARN 1 ''a'', DEBUG 2 1 ''b'', WARN 1 ''c'']" "''x''"]
  by (simp add: fits_def INT_MAX_def fresh_sys_def sys_logger_def)

definition one_block :: log_sys where
  "one_block = snd (case log_run [Init ''x''] (console_logger, fresh_sys) of Inr s \<Rightarrow> s | Inl _ \<Rightarrow> (console_logger, fresh_sys))"

lemma one_block_live: "stats one_block (Some 0) = Some (0, 0, 0, 0)" "\<exists>b. heap one_block 0 = Some b \<and> lc_debug b = 0"
  by (simp_all add: one_block_def fresh_sys_def console_logger_def log_ops stats_def counts_of_def)

theorem logger_use_after_destroy_witness:
  "log_run [Destroy, Init ''y'', WARN 1 ''a''] (console_logger\<lparr>cb_priv := Some 0\<rparr>, one_block) = Inl UseAfterFree"
  using logger_use_after_destroy [of console_logger one_block 0 "(0, 0, 0, 0)" "WARN 1 ''a''"
      "[Init ''y'', WARN 1 ''a'']"] one_block_live by simp

theorem log_debug_filter_witness:
  "\<exists>w'. log_debug (Some 0) 3 1 ''a'' one_block = Inr w'"
proof -
  obtain b where "heap one_block 0 = Some b" "lc_debug b = 0" using one_block_live(2) by blast
  with log_debug_filter [of one_block 0 b 3 1 "''a''"] show ?thesis by (auto simp: INT_MAX_def)
qed

end
