(* ===== verification/Fdset.thy ===== *)
theory Fdset
  imports Timeval
begin

text \<open>
  Descriptor sets and the two functions of \<open>util.c\<close> that are thin layers over system
  calls: \<open>wait_for_fd\<close> and \<open>daemonise\<close>. The answers of the system are parameters.
\<close>

section \<open>Descriptor sets\<close>

text \<open>
  An \<open>fd_set\<close> is an array of \<open>FD_SETSIZE\<close> bits; \<open>FD_SET\<close> does not check its argument,
  so a descriptor outside it is a store out of bounds.
\<close>

definition FD_SETSIZE :: int where "FD_SETSIZE = 1024"

definition FD_SET :: "int \<Rightarrow> int set \<Rightarrow> int set result" where
  "FD_SET fd s = (if 0 \<le> fd \<and> fd < FD_SETSIZE then Inr (insert fd s) else Inl OutOfBounds)"

text \<open>
  What \<open>select\<close> and \<open>pselect\<close> may report: descriptors of the given set that are below \<open>nfds\<close>.
\<close>

definition select_reports :: "int \<Rightarrow> int set \<Rightarrow> int set \<Rightarrow> bool" where
  "select_reports nfds watched ready \<longleftrightarrow> ready \<subseteq> {fd \<in> watched. fd < nfds}"

section \<open>wait\_for\_fd\<close>

record select_call =
  sel_nfds :: int
  sel_read :: "int set"
  sel_write :: "int set"
  sel_timeout :: timeval

definition wait_for_fd :: "(select_call \<Rightarrow> int) \<Rightarrow> int \<Rightarrow> int \<Rightarrow> int \<Rightarrow> int result" where
  "wait_for_fd select direction fd msecs =
     (let tv = \<lparr>tv_sec = msecs sdiv 1000, tv_usec = (msecs smod 1000) * 1000\<rparr>
      in bind_r (FD_SET fd {}) (\<lambda>fds.
           Inr (if direction \<noteq> 0
                then select \<lparr>sel_nfds = fd + 1, sel_read = {}, sel_write = fds, sel_timeout = tv\<rparr>
                else select \<lparr>sel_nfds = fd + 1, sel_read = fds, sel_write = {}, sel_timeout = tv\<rparr>)))"

section \<open>daemonise\<close>

text \<open>
  \<open>fork_rc\<close> and \<open>setsid_rc\<close> are what the two calls return; the parent of a successful
  \<open>fork\<close> leaves with status 0.
\<close>

definition daemonise :: "int \<Rightarrow> int \<Rightarrow> int result" where
  "daemonise fork_rc setsid_rc =
     (if fork_rc < 0 then Inr (-1)
      else if fork_rc > 0 then Inl (Exit 0)
      else if setsid_rc < 0 then Inr (-1)
      else Inr 1)"

section \<open>Properties\<close>

text \<open>
  \<open>wait_for_fd\<close> asks \<open>select\<close> for exactly the given descriptor, in the set the direction
  says, below a bound that includes it, and for exactly the given time, in a form \<open>select\<close>
  accepts; a descriptor no \<open>fd_set\<close> can hold is a store out of bounds.
\<close>

theorem wait_for_fd_call:
  assumes "0 \<le> msecs"
  shows "if 0 \<le> fd \<and> fd < FD_SETSIZE
    then \<exists>call. wait_for_fd select direction fd msecs = Inr (select call) \<and>
      sel_read call \<union> sel_write call = {fd} \<and> (fd \<in> sel_write call \<longleftrightarrow> direction \<noteq> 0) \<and>
      sel_nfds call = fd + 1 \<and> normal (sel_timeout call) \<and> usecs (sel_timeout call) = 1000 * msecs
    else wait_for_fd select direction fd msecs = Inl OutOfBounds"
proof -
  let ?tv = "\<lparr>tv_sec = msecs sdiv 1000, tv_usec = (msecs smod 1000) * 1000\<rparr>"
  have "normal ?tv"
    using smod_bounds_1000 [of msecs] smod_nonneg_1000 [OF assms] by (simp add: normal_def)
  moreover have "usecs ?tv = 1000 * msecs"
    using sdiv_smod_1000 [of msecs] by (simp add: usecs_def algebra_simps)
  moreover define call where "call = (if direction = 0
    then \<lparr>sel_nfds = fd + 1, sel_read = {fd}, sel_write = {}, sel_timeout = ?tv\<rparr>
    else \<lparr>sel_nfds = fd + 1, sel_read = {}, sel_write = {fd}, sel_timeout = ?tv\<rparr>)"
  ultimately have
    "sel_read call \<union> sel_write call = {fd} \<and> (fd \<in> sel_write call \<longleftrightarrow> direction \<noteq> 0) \<and>
     sel_nfds call = fd + 1 \<and> normal (sel_timeout call) \<and> usecs (sel_timeout call) = 1000 * msecs"
    by simp
  moreover have "wait_for_fd select direction fd msecs =
      (if 0 \<le> fd \<and> fd < FD_SETSIZE then Inr (select call) else Inl OutOfBounds)"
    by (simp add: wait_for_fd_def FD_SET_def Let_def call_def)
  ultimately show ?thesis by auto
qed

theorem wait_for_fd_call_witness:
  "\<exists>call :: select_call. wait_for_fd (\<lambda>c. sel_nfds c) 1 5 2500 = Inr (sel_nfds call) \<and>
     5 \<in> sel_write call \<and> usecs (sel_timeout call) = 2500000"
  using wait_for_fd_call [of 2500 5 "\<lambda>c. sel_nfds c" 1] by (auto simp: FD_SETSIZE_def)

end
