(* ===== verification/Timer.thy ===== *)
theory Timer
  imports Fdset Cstring
begin

text \<open>
  \<open>thread_timer\<close> of \<open>thread_timer.c\<close>: three timer descriptors are watched with \<open>pselect\<close> for at
  most 10000 rounds. The answers of the system are a record: the descriptors that
  \<open>timerfd_create\<close> returned, whether \<open>clock_gettime\<close> and the \<open>timerfd_settime\<close> calls succeeded,
  and for the k-th \<open>pselect\<close> its return value and the descriptors left in the set.
  \<open>read_overrun\<close>, which \<open>thread_timer.c\<close> does not define (\<open>test_simple.c\<close> has one, see
  \<open>Simple_Test\<close>), is a parameter: what it returns in the k-th round for a descriptor.
\<close>

record timer_os =
  fd_ms1 :: int
  fd_ms10 :: int
  fd_ms100 :: int
  gettime_rc :: int
  settime_ms1_rc :: int
  settime_ms10_rc :: int
  settime_ms100_rc :: int
  pselect_rc :: "nat \<Rightarrow> int"
  pselect_fired :: "nat \<Rightarrow> int set"

text \<open>The bound that is passed to \<open>pselect\<close>.\<close>

definition timer_highfd :: "int \<Rightarrow> int \<Rightarrow> int \<Rightarrow> int" where
  "timer_highfd ms1 ms10 ms100 =
     (let highfd = ms1;
          highfd = (if ms10 > ms1 then ms10 else highfd);
          highfd = (if ms100 > ms10 then ms100 else highfd)
      in highfd + 1)"

text \<open>\<open>READ_OVER\<close> for one timer: what it prints.\<close>

definition READ_OVER :: "(int \<Rightarrow> int) \<Rightarrow> string \<Rightarrow> int \<Rightarrow> int set \<Rightarrow> string list" where
  "READ_OVER read_overrun name f currfds =
     (if f \<in> currfds
      then [name @ '' timer fired '' @ print_int (read_overrun f) @ '' times'' @ newline]
      else [])"

definition timer_round :: "(int \<Rightarrow> int) \<Rightarrow> timer_os \<Rightarrow> int set \<Rightarrow> string list" where
  "timer_round read_overrun os currfds =
     READ_OVER read_overrun ''ms100'' (fd_ms100 os) currfds
     @ READ_OVER read_overrun ''ms10'' (fd_ms10 os) currfds
     @ READ_OVER read_overrun ''ms1'' (fd_ms1 os) currfds"

text \<open>
  The loop from the value \<open>test\<close> of its counter, \<open>rc\<close> being the last return value: what is
  printed, the final counter and the final \<open>rc\<close>. The body resets \<open>rc\<close> to 0, so its
  \<open>rc == -1\<close> branch is never taken.
\<close>

function timer_loop :: "(nat \<Rightarrow> int \<Rightarrow> int) \<Rightarrow> timer_os \<Rightarrow> nat \<Rightarrow> int \<Rightarrow> string list \<times> nat \<times> int" where
  "timer_loop read_overrun os test rc =
     (if test < 10000 then
        let rc = pselect_rc os test in
        if rc > 0 then
          let (out, test', rc') = timer_loop read_overrun os (test + 1) 0
          in (timer_round (read_overrun test) os (pselect_fired os test) @ out, test', rc')
        else ([], test + 1, rc)
      else ([], test + 1, rc))"
  by pat_completeness auto

termination
  by (relation "measure (\<lambda>(_, _, test, _). 10000 - test)") auto

declare timer_loop.simps [simp del]

definition wtf :: "int \<Rightarrow> string list" where
  "wtf rc = (if rc \<noteq> 0 then [''WTF'' @ newline] else [])"

text \<open>
  The whole function: what it prints. It has no \<open>return\<close> statement. \<open>test\<close> and \<open>rc\<close> after the
  loop decide the last messages; \<open>currfds\<close> at the end is the full set.
\<close>

definition thread_timer :: "(nat \<Rightarrow> int \<Rightarrow> int) \<Rightarrow> timer_os \<Rightarrow> string list result" where
  "thread_timer read_overrun os =
     (let ms1 = fd_ms1 os; ms10 = fd_ms10 os; ms100 = fd_ms100 os in
      assert_c (ms1 > 0 \<or> ms10 > 0 \<or> ms100 > 0)
        (if gettime_rc os = -1 then Inl (Exit 1)
         else bind_r (FD_SET ms1 {}) (\<lambda>s. bind_r (FD_SET ms10 s) (\<lambda>s. bind_r (FD_SET ms100 s) (\<lambda>origfds.
           let (out, test, rc) = timer_loop read_overrun os 0 (settime_ms100_rc os)
           in Inr (wtf (settime_ms1_rc os) @ wtf (settime_ms10_rc os) @ wtf (settime_ms100_rc os) @ out
                @ (if rc > 0 then timer_round (read_overrun test) os origfds else [])
                @ (if rc = 0 \<and> test < 1000 then [''Error, watchdog fired'' @ newline] else [])
                @ (if rc = -1 then [''Error in select'' @ newline] else [])))))))"

section \<open>Lemmas\<close>

lemma timer_loop_ends:
  assumes "test \<le> k" "k < 10000" "\<forall>j. test \<le> j \<and> j < k \<longrightarrow> pselect_rc os j > 0" "pselect_rc os k \<le> 0"
  shows "timer_loop ro os test rc =
    (concat (map (\<lambda>j. timer_round (ro j) os (pselect_fired os j)) [test..<k]), k + 1, pselect_rc os k)"
  using assms
proof (induction "k - test" arbitrary: test rc)
  case 0
  then show ?case by (subst timer_loop.simps) simp
next
  case (Suc d)
  then have t: "test < k" by simp
  then have "pselect_rc os test > 0" using Suc.prems(3) by simp
  moreover have "timer_loop ro os (test + 1) 0 =
      (concat (map (\<lambda>j. timer_round (ro j) os (pselect_fired os j)) [test + 1..<k]), k + 1, pselect_rc os k)"
    using Suc t by (intro Suc.hyps(1)) simp_all
  ultimately show ?case
    using t Suc.prems(2) by (subst timer_loop.simps) (simp add: upt_conv_Cons)
qed

lemma timer_loop_full:
  assumes "test \<le> 10000" "\<forall>j. test \<le> j \<and> j < 10000 \<longrightarrow> pselect_rc os j > 0"
  shows "timer_loop ro os test rc =
    (concat (map (\<lambda>j. timer_round (ro j) os (pselect_fired os j)) [test..<10000]), 10001,
     if test < 10000 then 0 else rc)"
  using assms
proof (induction "10000 - test" arbitrary: test rc)
  case 0
  then show ?case by (subst timer_loop.simps) simp
next
  case (Suc d)
  then have t: "test < 10000" by simp
  then have "pselect_rc os test > 0" using Suc.prems(2) by simp
  moreover have "timer_loop ro os (test + 1) 0 =
      (concat (map (\<lambda>j. timer_round (ro j) os (pselect_fired os j)) [test + 1..<10000]), 10001, 0)"
    using Suc.hyps(1) [of "test + 1" 0] Suc t by auto
  ultimately show ?case
    using t by (subst timer_loop.simps) (simp add: upt_conv_Cons)
qed

definition timer_rounds :: "(nat \<Rightarrow> int \<Rightarrow> int) \<Rightarrow> timer_os \<Rightarrow> nat \<Rightarrow> string list" where
  "timer_rounds ro os k = concat (map (\<lambda>j. timer_round (ro j) os (pselect_fired os j)) [0..<k])"

section \<open>Properties\<close>

text \<open>
  C27: \<open>thread_timer\<close> always ends, after at most 10000 calls of \<open>pselect\<close>: with the reports of
  the rounds before the first answer that is not positive and a word on that answer, where a
  timeout is reported only within the first 999 calls; or with the reports of all 10000.
\<close>

theorem thread_timer_ends:
  assumes "\<forall>fd \<in> {fd_ms1 os, fd_ms10 os, fd_ms100 os}. 0 < fd \<and> fd < FD_SETSIZE" "gettime_rc os = 0"
    and "settime_ms1_rc os = 0" "settime_ms10_rc os = 0" "settime_ms100_rc os = 0"
  shows "(k < 10000 \<and> (\<forall>j < k. pselect_rc os j > 0) \<and> pselect_rc os k \<in> {0, -1} \<longrightarrow>
      thread_timer ro os = Inr (timer_rounds ro os k @
        (if pselect_rc os k = -1 then [''Error in select'' @ newline]
         else if k < 999 then [''Error, watchdog fired'' @ newline] else []))) \<and>
    ((\<forall>j < 10000. pselect_rc os j > 0) \<longrightarrow> thread_timer ro os = Inr (timer_rounds ro os 10000))"
proof -
  have start: "thread_timer ro os =
      (let (out, test, rc) = timer_loop ro os 0 0
       in Inr (out
            @ (if rc > 0 then timer_round (ro test) os {fd_ms100 os, fd_ms10 os, fd_ms1 os} else [])
            @ (if rc = 0 \<and> test < 1000 then [''Error, watchdog fired'' @ newline] else [])
            @ (if rc = -1 then [''Error in select'' @ newline] else [])))"
    using assms by (simp add: thread_timer_def FD_SET_def wtf_def Let_def)
  show ?thesis
  proof (intro conjI impI; (elim conjE)?)
    assume k: "k < 10000" "\<forall>j < k. pselect_rc os j > 0" "pselect_rc os k \<in> {0, -1}"
    then have "timer_loop ro os 0 0 = (timer_rounds ro os k, k + 1, pselect_rc os k)"
      by (subst timer_loop_ends [of 0 k]) (auto simp: timer_rounds_def)
    with k(3) show "thread_timer ro os = Inr (timer_rounds ro os k @
        (if pselect_rc os k = -1 then [''Error in select'' @ newline]
         else if k < 999 then [''Error, watchdog fired'' @ newline] else []))"
      unfolding start by auto
  next
    assume "\<forall>j < 10000. pselect_rc os j > 0"
    then have "timer_loop ro os 0 0 = (timer_rounds ro os 10000, 10001, 0)"
      by (subst timer_loop_full) (auto simp: timer_rounds_def)
    then show "thread_timer ro os = Inr (timer_rounds ro os 10000)"
      unfolding start by simp
  qed
qed

text \<open>
  the bound passed to \<open>pselect\<close> covers all three timers unless the first one has the
  largest descriptor and the third is above the second: then the 1 ms timer is not
  watched and never reported, whatever \<open>pselect\<close> answers.
\<close>

theorem timer_bound_misses:
  assumes "distinct [ms1, ms10, ms100]"
  shows "((\<forall>fd \<in> {ms1, ms10, ms100}. fd < timer_highfd ms1 ms10 ms100) \<longleftrightarrow>
      \<not> (ms10 < ms100 \<and> ms100 < ms1)) \<and>
    (ms10 < ms100 \<and> ms100 < ms1 \<and> select_reports (timer_highfd ms1 ms10 ms100) {ms1, ms10, ms100} ready \<longrightarrow>
      ms1 \<notin> ready)"
  using assms by (auto simp: timer_highfd_def select_reports_def)

section \<open>Witnesses\<close>

definition two_rounds :: timer_os where
  "two_rounds = \<lparr>fd_ms1 = 3, fd_ms10 = 4, fd_ms100 = 5, gettime_rc = 0, settime_ms1_rc = 0,
     settime_ms10_rc = 0, settime_ms100_rc = 0, pselect_rc = (\<lambda>k. if k < 2 then 1 else 0),
     pselect_fired = (\<lambda>k. {3})\<rparr>"

theorem thread_timer_ends_witness:
  "thread_timer (\<lambda>_ _. 7) two_rounds =
     Inr (timer_rounds (\<lambda>_ _. 7) two_rounds 2 @ [''Error, watchdog fired'' @ newline])"
  using thread_timer_ends [of two_rounds 2 "\<lambda>_ _. 7"] by (simp add: two_rounds_def FD_SETSIZE_def)

theorem timer_bound_misses_witness:
  "select_reports (timer_highfd 5 3 4) {5, 3, 4} {3} \<and> 5 \<notin> ({3} :: int set)"
  using timer_bound_misses [of 5 3 4 "{3}"] by (simp add: select_reports_def timer_highfd_def)

end
