(* ===== verification/Simple_Test.thy ===== *)
theory Simple_Test
  imports Fdset Timeval Cstring Ringbuffer_Init
begin

text \<open>
  The part of \<open>test_simple.c\<close> that \<open>main\<close> reaches: it makes a ring, runs
  \<open>create_timerfds\<close> and exits. With it go \<open>read_overrun\<close> and \<open>settos\<close>. The rest of the file
  is unfinished (it does not compile) and is not here.
\<close>

section \<open>read\_overrun\<close>

definition EAGAIN :: int where "EAGAIN = 11"
definition EINTR :: int where "EINTR = 4"

text \<open>The argument: what \<open>read\<close> returns, the eight bytes it stores and its \<open>errno\<close>.\<close>

definition read_overrun :: "int \<times> u64 \<times> int \<Rightarrow> u64" where
  "read_overrun = (\<lambda>(rc, stored, errno).
     let err = (if rc < 1 then 0 else stored)
     in if rc < 1 then (if errno = EAGAIN then 0 else err) else err)"

section \<open>create\_timerfds: data\<close>

record itimerspec =
  it_value_sec :: int
  it_value_nsec :: int
  it_interval_sec :: int
  it_interval_nsec :: int

text \<open>
  The answers of the system: the three descriptors; whether \<open>clock_gettime\<close> succeeds; what the
  k-th \<open>timerfd_settime\<close> returns; what the k-th \<open>pselect\<close> returns and leaves in the set, for the
  bound, the set and the timeout it is given, and its \<open>errno\<close>; and what the \<open>read\<close> of a
  descriptor answers when the counter of the loop was \<open>k\<close>. \<open>stack\<close> is what the three
  structures for the timers hold before anything is assigned to them.
\<close>

record simple_os =
  created :: "int \<times> int \<times> int"
  gettime_fails :: bool
  settime :: "nat \<Rightarrow> int"
  pselect :: "nat \<Rightarrow> int \<Rightarrow> int set \<Rightarrow> timespec \<Rightarrow> int \<times> int set"
  pselect_errno :: "nat \<Rightarrow> int"
  reads :: "nat \<Rightarrow> int \<Rightarrow> int \<times> u64 \<times> int"
  stack :: "itimerspec \<times> itimerspec \<times> itimerspec"

text \<open>What the function does that can be seen from outside, in its order.\<close>

datatype timer_event =
    Printed string
  | Settime int itimerspec
  | Pselect int "int set" timespec

section \<open>create\_timerfds: steps\<close>

text \<open>The four assignments to the fields of a timer.\<close>

definition assign_timer :: "int \<Rightarrow> int \<Rightarrow> int \<Rightarrow> int \<Rightarrow> itimerspec \<Rightarrow> itimerspec" where
  "assign_timer s ns isec insec v =
     v\<lparr>it_value_sec := s, it_value_nsec := ns, it_interval_sec := isec, it_interval_nsec := insec\<rparr>"

text \<open>A call of \<open>timerfd_settime\<close>, the k-th one, with the message for its failure.\<close>

definition set_timer :: "simple_os \<Rightarrow> nat \<Rightarrow> int \<Rightarrow> itimerspec \<Rightarrow> string \<Rightarrow> int \<times> timer_event list" where
  "set_timer os k fd v msg =
     (let rc = settime os k
      in (rc, [Settime fd v] @ (if rc \<noteq> 0 then [Printed (msg @ newline)] else [])))"

text \<open>The macro \<open>READ_OVER\<close>, and its three uses.\<close>

definition read_over :: "simple_os \<Rightarrow> nat \<Rightarrow> int set \<Rightarrow> string \<Rightarrow> int \<Rightarrow> timer_event list" where
  "read_over os test currfds name f =
     (if f \<in> currfds
      then [Printed (name @ '' timer fired '' @ print_int (sint (read_overrun (reads os test f))) @
              '' times'' @ newline)]
      else [])"

definition read_all :: "simple_os \<Rightarrow> nat \<Rightarrow> int set \<Rightarrow> timer_event list" where
  "read_all os test currfds =
     (let (ms1, ms10, ms100) = created os
      in read_over os test currfds ''ms100'' ms100 @ read_over os test currfds ''ms10'' ms10 @
         read_over os test currfds ''ms1'' ms1)"

text \<open>
  The loop, entered with these values of \<open>test\<close>, \<open>rc\<close> and \<open>currfds\<close>: its events and the values
  afterwards. \<open>test\<close> is incremented by the test of the loop, also by the one that fails.
\<close>

function select_loop ::
  "simple_os \<Rightarrow> int \<Rightarrow> int set \<Rightarrow> timespec \<Rightarrow> nat \<Rightarrow> int \<Rightarrow> int set \<Rightarrow> timer_event list \<times> nat \<times> int \<times> int set" where
  "select_loop os highfd origfds watchdog test rc currfds =
     (if test < 10000 then
        let called = Pselect highfd currfds watchdog;
            errno = pselect_errno os test;
            (rc, currfds) = pselect os test highfd currfds watchdog;
            test = test + 1
        in if rc > 0 then
             let (rc, fired) = (if rc > 0 then (0, read_all os test currfds) else (rc, []));
                 odd = (if rc = -1 \<and> errno \<noteq> EINTR then [Printed (''Got an EINTR'' @ newline)] else []);
                 currfds = origfds;
                 (later, final) = select_loop os highfd origfds watchdog test rc currfds
             in ([called] @ fired @ odd @ later, final)
           else ([called], test, rc, currfds)
      else ([], test + 1, rc, currfds))"
  by pat_completeness auto

termination
  by (relation "measure (\<lambda>(_, _, _, _, test, _, _). 10000 - test)") auto

declare select_loop.simps [simp del]

section \<open>create\_timerfds\<close>

definition create_timerfds :: "simple_os \<Rightarrow> timer_event list result" where
  "create_timerfds os =
     (let (new_value, ms10_interval, ms100_interval) = stack os;
          (ms1, ms10, ms100) = created os in
      assert_c (ms1 > 0 \<or> ms10 > 0 \<or> ms100 > 0)
        (if gettime_fails os then Inl (Exit 1)
         else
      let watchdog = \<lparr>ts_sec = 5, ts_nsec = 0\<rparr>;
          new_value = assign_timer 0 1000 0 (1000 * 1000) new_value;
          (rc, arm1) = set_timer os 0 ms1 new_value ''WTF'';
          ms10_interval = assign_timer 0 1000 0 (10 * 1000 * 1000) ms10_interval;
          (rc, arm10) = set_timer os 1 ms10 ms10_interval ''WTF'';
          ms100_interval = assign_timer 0 1000 0 (100 * 1000 * 1000) ms100_interval;
          (rc, arm100) = set_timer os 2 ms100 ms100_interval ''WTF''
      in bind_r (FD_SET ms1 {}) (\<lambda>origfds.
         bind_r (FD_SET ms10 origfds) (\<lambda>origfds.
         bind_r (FD_SET ms100 origfds) (\<lambda>origfds.
      let highfd = ms1;
          highfd = (if ms10 > ms1 then ms10 else highfd);
          highfd = (if ms100 > ms10 then ms100 else highfd);
          highfd = highfd + 1;
          (looped, test, rc, currfds) = select_loop os highfd origfds watchdog 0 rc origfds;
          last = (if rc > 0 then read_all os test currfds else []);
          fired = (if rc = 0 \<and> test < 1000 then [Printed (''Error, watchdog fired'' @ newline)] else []);
          failed = (if rc = -1 then [Printed (''Error in select'' @ newline)] else []);
          new_value = new_value\<lparr>it_value_sec := 0, it_value_nsec := 0\<rparr>;
          (rc, disarm1) = set_timer os 3 ms1 new_value ''Can't disarm timer'';
          (rc, disarm10) = set_timer os 4 ms10 new_value ''Can't disarm timer'';
          (rc, disarm100) = set_timer os 5 ms100 new_value ''Can't disarm timer''
      in Inr (arm1 @ arm10 @ arm100 @ [Printed (''Starting test'' @ newline)] @ looped @ last @ fired @
           failed @ disarm1 @ disarm10 @ disarm100))))))"

section \<open>settos\<close>

text \<open>
  The two cases of the \<open>switch\<close> lack the word \<open>case\<close>, so they are labels: every type takes
  the \<open>default\<close>, which runs into the first of them. 0 is \<open>IPPROTO_IP\<close>, 1 is \<open>IP_TOS\<close>.
\<close>

definition settos ::
  "(int \<Rightarrow> int \<Rightarrow> int \<Rightarrow> int \<Rightarrow> int) \<Rightarrow> int \<Rightarrow> int \<Rightarrow> int \<Rightarrow> int \<Rightarrow> int" where
  "settos setsockopt p type tos ecn = (let dscp = tos OR ecn in setsockopt p 0 1 dscp)"

section \<open>main\<close>

text \<open>
  The status and the text. \<open>Inl\<close> ends the program otherwise; status 1 when there is no ring,
  status 0 by \<open>exit\<close> after the timers.
\<close>

definition printed_lines :: "timer_event list \<Rightarrow> string list" where
  "printed_lines es = concat (map (\<lambda>e. case e of Printed l \<Rightarrow> [l] | _ \<Rightarrow> []) es)"

definition simple_main :: "ring_os \<Rightarrow> simple_os \<Rightarrow> ringbuffer_s \<Rightarrow> (int \<times> string list) result" where
  "simple_main ros os rbuf =
     bind_r (ringbuffer_init ros rbuf 4096) (\<lambda>(rc, rbuf, _).
       if rc \<noteq> 0 then Inr (1, [])
       else bind_r (create_timerfds os) (\<lambda>events. Inr (0, printed_lines events)))"

section \<open>Lemmas\<close>

text \<open>One round of the loop: the call, and the report of the timers that fired.\<close>

definition one_round :: "simple_os \<Rightarrow> int \<Rightarrow> int set \<Rightarrow> timespec \<Rightarrow> nat \<Rightarrow> timer_event list" where
  "one_round os highfd all watchdog j =
     Pselect highfd all watchdog # read_all os (j + 1) (snd (pselect os j highfd all watchdog))"

definition rounds :: "simple_os \<Rightarrow> int \<Rightarrow> int set \<Rightarrow> timespec \<Rightarrow> nat \<Rightarrow> timer_event list" where
  "rounds os highfd all watchdog k = concat (map (one_round os highfd all watchdog) [0..<k])"

lemma select_loop_step:
  assumes "test < 10000" "fst (pselect os test highfd all watchdog) > 0"
  shows "select_loop os highfd all watchdog test rc all =
    (one_round os highfd all watchdog test @ fst (select_loop os highfd all watchdog (test + 1) 0 all),
     snd (select_loop os highfd all watchdog (test + 1) 0 all))"
  using assms
  by (subst select_loop.simps, cases "pselect os test highfd all watchdog")
    (simp add: one_round_def Let_def case_prod_beta)

lemma select_loop_stop:
  assumes "test < 10000" "fst (pselect os test highfd all watchdog) \<le> 0"
  shows "select_loop os highfd all watchdog test rc all =
    ([Pselect highfd all watchdog], test + 1, pselect os test highfd all watchdog)"
  using assms
  by (subst select_loop.simps, cases "pselect os test highfd all watchdog") (simp add: Let_def)

lemma select_loop_stops:
  assumes "test \<le> k" "k < 10000" "\<forall>j. test \<le> j \<and> j < k \<longrightarrow> fst (pselect os j highfd all watchdog) > 0"
    and "fst (pselect os k highfd all watchdog) \<le> 0"
  shows "select_loop os highfd all watchdog test rc all =
    (concat (map (one_round os highfd all watchdog) [test..<k]) @ [Pselect highfd all watchdog],
     k + 1, pselect os k highfd all watchdog)"
  using assms
proof (induction "k - test" arbitrary: test rc)
  case 0
  then show ?case by (simp add: select_loop_stop)
next
  case (Suc d)
  then have t: "test < k" by simp
  then have "fst (pselect os test highfd all watchdog) > 0" using Suc.prems(3) by simp
  moreover have "select_loop os highfd all watchdog (test + 1) 0 all =
      (concat (map (one_round os highfd all watchdog) [test + 1..<k]) @ [Pselect highfd all watchdog],
       k + 1, pselect os k highfd all watchdog)"
    using Suc t by (intro Suc.hyps(1)) simp_all
  ultimately show ?case
    using t Suc.prems(2) by (simp add: select_loop_step upt_conv_Cons)
qed

lemma select_loop_full:
  assumes "test \<le> 10000" "\<forall>j. test \<le> j \<and> j < 10000 \<longrightarrow> fst (pselect os j highfd all watchdog) > 0"
  shows "select_loop os highfd all watchdog test rc all =
    (concat (map (one_round os highfd all watchdog) [test..<10000]), 10001, if test < 10000 then 0 else rc, all)"
  using assms
proof (induction "10000 - test" arbitrary: test rc)
  case 0
  then show ?case by (subst select_loop.simps) simp
next
  case (Suc d)
  then have t: "test < 10000" by simp
  then have "fst (pselect os test highfd all watchdog) > 0" using Suc.prems(2) by simp
  moreover have "select_loop os highfd all watchdog (test + 1) 0 all =
      (concat (map (one_round os highfd all watchdog) [test + 1..<10000]), 10001, 0, all)"
    using Suc.hyps(1) [of "test + 1" 0] Suc t by auto
  ultimately show ?case
    using t by (simp add: select_loop_step upt_conv_Cons)
qed

section \<open>Properties\<close>

text \<open>The calls that set timers, each followed by its message when it fails.\<close>

definition settings :: "simple_os \<Rightarrow> string \<Rightarrow> (nat \<times> int \<times> itimerspec) list \<Rightarrow> timer_event list" where
  "settings os msg ts = concat (map (\<lambda>(k, fd, v).
     Settime fd v # (if settime os k \<noteq> 0 then [Printed (msg @ newline)] else [])) ts)"

definition every :: "int \<Rightarrow> itimerspec" where
  "every nsec = \<lparr>it_value_sec = 0, it_value_nsec = 1000, it_interval_sec = 0, it_interval_nsec = nsec\<rparr>"

definition disarmed :: itimerspec where
  "disarmed = \<lparr>it_value_sec = 0, it_value_nsec = 0, it_interval_sec = 0, it_interval_nsec = 1000000\<rparr>"

lemma set_timer_settings: "set_timer os k fd v msg = (settime os k, settings os msg [(k, fd, v)])"
  by (simp add: set_timer_def settings_def)

lemma settings_Cons: "settings os msg (t # ts) = settings os msg [t] @ settings os msg ts"
  by (simp add: settings_def)

text \<open>The function around its loop, for descriptors that fit the set.\<close>

lemma create_timerfds_run:
  assumes "created os = (ms1, ms10, ms100)" "\<not> gettime_fails os"
    and "list_all (\<lambda>fd. 0 < fd \<and> fd < FD_SETSIZE) [ms1, ms10, ms100]"
    and "highfd = (if ms100 > ms10 then ms100 else max ms1 ms10) + 1"
    and "select_loop os highfd {ms1, ms10, ms100} \<lparr>ts_sec = 5, ts_nsec = 0\<rparr> 0 (settime os 2) {ms1, ms10, ms100} =
      (looped, test, rc, currfds)"
  shows "create_timerfds os = Inr (
    settings os ''WTF'' [(0, ms1, every 1000000), (1, ms10, every 10000000), (2, ms100, every 100000000)] @
    [Printed (''Starting test'' @ newline)] @ looped @
    (if rc > 0 then read_all os test currfds else []) @
    (if rc = 0 \<and> test < 1000 then [Printed (''Error, watchdog fired'' @ newline)] else []) @
    (if rc = -1 then [Printed (''Error in select'' @ newline)] else []) @
    settings os ''Can't disarm timer'' [(3, ms1, disarmed), (4, ms10, disarmed), (5, ms100, disarmed)])"
proof -
  obtain v1 v10 v100 where stk: "stack os = (v1, v10, v100)" by (metis prod_cases3)
  have fds: "FD_SET ms1 {} = Inr {ms1}" "FD_SET ms10 {ms1} = Inr {ms10, ms1}"
    "FD_SET ms100 {ms10, ms1} = Inr {ms1, ms10, ms100}" "0 < ms1"
    using assms(3) by (auto simp: FD_SET_def)
  have hi: "(if ms100 > ms10 then ms100 else if ms10 > ms1 then ms10 else ms1) + 1 = highfd"
    by (simp add: assms(4) max_def)
  have timers: "assign_timer 0 1000 0 (1000 * 1000) v1 = every 1000000"
    "assign_timer 0 1000 0 (10 * 1000 * 1000) v10 = every 10000000"
    "assign_timer 0 1000 0 (100 * 1000 * 1000) v100 = every 100000000"
    "every 1000000\<lparr>it_value_sec := 0, it_value_nsec := 0\<rparr> = disarmed"
    by (simp_all only: assign_timer_def every_def disarmed_def) simp_all
  have many: "settings os msg [a, b, c] = settings os msg [a] @ settings os msg [b] @ settings os msg [c]"
    for msg a b c
    by (simp add: settings_def)
  show ?thesis
    unfolding create_timerfds_def stk assms(1) prod.case Let_def set_timer_settings timers fds bind_r_simps hi
      assms(5) many
    by (simp add: fds(4) assms(2))
qed

text \<open>
  C37: \<open>create_timerfds\<close> arms three timers with periods of 1, 10 and 100 ms, whatever its
  structures held before, waits for them with all three in the set and five seconds of
  patience, up to and including the first answer that is not positive or 10000 times, reports
  every timer an answer names, says of a timeout only when it comes within the first 999 calls,
  and disarms the same three timers at the end.
\<close>

theorem create_timerfds_trace:
  assumes "created os = (ms1, ms10, ms100)" "list_all (\<lambda>fd. 0 < fd \<and> fd < FD_SETSIZE) [ms1, ms10, ms100]"
    and "\<not> gettime_fails os"
    and "all = {ms1, ms10, ms100}" "watchdog = \<lparr>ts_sec = 5, ts_nsec = 0\<rparr>"
    and "highfd = (if ms100 > ms10 then ms100 else max ms1 ms10) + 1"
    and "k \<le> 10000" "\<And>j. j < k \<Longrightarrow> fst (pselect os j highfd all watchdog) > 0"
    and "k < 10000 \<Longrightarrow> fst (pselect os k highfd all watchdog) \<in> {0, -1}"
  shows "create_timerfds os = Inr (
    settings os ''WTF'' [(0, ms1, every 1000000), (1, ms10, every 10000000), (2, ms100, every 100000000)] @
    [Printed (''Starting test'' @ newline)] @
    rounds os highfd all watchdog k @
    (if k = 10000 then []
     else Pselect highfd all watchdog #
       (if fst (pselect os k highfd all watchdog) = -1 then [Printed (''Error in select'' @ newline)]
        else if k < 999 then [Printed (''Error, watchdog fired'' @ newline)] else [])) @
    settings os ''Can't disarm timer'' [(3, ms1, disarmed), (4, ms10, disarmed), (5, ms100, disarmed)])"
proof (cases "k = 10000")
  case True
  have "select_loop os highfd all watchdog 0 (settime os 2) all = (rounds os highfd all watchdog k, 10001, 0, all)"
    using assms(8) True by (subst select_loop_full) (auto simp: rounds_def)
  from create_timerfds_run [OF assms(1,3,2,6) this [unfolded assms(4,5)]] show ?thesis
    using True by (simp add: assms(4,5))
next
  case False
  obtain rc c where r: "pselect os k highfd all watchdog = (rc, c)" by fastforce
  have "select_loop os highfd all watchdog 0 (settime os 2) all =
      (rounds os highfd all watchdog k @ [Pselect highfd all watchdog], k + 1, rc, c)"
    using assms(7-9) False r by (subst select_loop_stops [of 0 k]) (auto simp: rounds_def)
  from create_timerfds_run [OF assms(1,3,2,6) this [unfolded assms(4,5)]] show ?thesis
    using False assms(7,9) r [unfolded assms(4,5)] by (auto simp: assms(4,5))
qed

definition two_answers :: simple_os where
  "two_answers = \<lparr>created = (3, 4, 5), gettime_fails = False, settime = (\<lambda>_. 0),
     pselect = (\<lambda>k hi fds w. if k < 2 then (1, {3}) else (0, {})), pselect_errno = (\<lambda>_. 0),
     reads = (\<lambda>_ _. (8, 7, 0)), stack = (every 1, every 2, every 3)\<rparr>"

theorem create_timerfds_trace_witness:
  "create_timerfds two_answers = Inr (
    settings two_answers ''WTF'' [(0, 3, every 1000000), (1, 4, every 10000000), (2, 5, every 100000000)] @
    [Printed (''Starting test'' @ newline)] @
    rounds two_answers 6 {3, 4, 5} \<lparr>ts_sec = 5, ts_nsec = 0\<rparr> 2 @
    [Pselect 6 {3, 4, 5} \<lparr>ts_sec = 5, ts_nsec = 0\<rparr>, Printed (''Error, watchdog fired'' @ newline)] @
    settings two_answers ''Can't disarm timer'' [(3, 3, disarmed), (4, 4, disarmed), (5, 5, disarmed)])"
  using create_timerfds_trace [of two_answers 3 4 5 "{3, 4, 5}" "\<lparr>ts_sec = 5, ts_nsec = 0\<rparr>" 6 2]
  by (simp add: two_answers_def FD_SETSIZE_def)

end
