(* ===== verification/Clock_Test.thy ===== *)
theory Clock_Test
  imports Timeval Cstring
begin

text \<open>
  The program \<open>test_clock.c\<close>: which clock there is, its reported resolution and the
  distance between two readings. The answers of the system are parameters.
\<close>

datatype clock = CLOCK_MONOTONIC | CLOCK_REALTIME

text \<open>\<open>getres\<close>: the return value and what it stores; the two readings of the chosen clock.\<close>

record clock_os =
  getres :: "clock \<Rightarrow> int \<times> timespec"
  reading1 :: "clock \<Rightarrow> timespec"
  reading2 :: "clock \<Rightarrow> timespec"

text \<open>
  \<open>Inl\<close>: \<open>exit(-1)\<close> after \<open>perror\<close> with the text. \<open>rc\<close> and \<open>res\<close> are \<open>ok\<close> and \<open>res\<close> of the code.
\<close>

definition test_clock :: "clock_os \<Rightarrow> (int \<times> string) + string list" where
  "test_clock os =
     (let clock_id = CLOCK_MONOTONIC;
          (rc, res) = getres os clock_id;
          (clock_id, rc, res) =
            (if rc < 0 then (CLOCK_REALTIME, getres os CLOCK_REALTIME) else (clock_id, rc, res))
      in if rc < 0 then Inl (-1, ''No system clocks available'')
         else Inr [''Clock type: '' @
                     (if clock_id = CLOCK_MONOTONIC then ''CLOCK_MONOTONIC'' else ''CLOCK_REALTIME''),
                   ''Reported Clock Resolution: '' @ print_int (ts_nsec res) @ ''ns'',
                   ''Real clock resolution: '' @
                     print_int (ts_nsec (reading2 os clock_id) - ts_nsec (reading1 os clock_id)) @ ''ns''])"

text \<open>The time between two readings, in nanoseconds.\<close>

definition elapsed :: "timespec \<Rightarrow> timespec \<Rightarrow> int" where
  "elapsed t1 t2 = (ts_sec t2 - ts_sec t1) * 1000000000 + (ts_nsec t2 - ts_nsec t1)"

text \<open>
  the program fails only when neither clock has a resolution; otherwise its last
  line is the time between the readings less a second for each second that began
  between them, which is negative when the readings are less than a second apart and
  on two sides of a full second.
\<close>

theorem test_clock_distance:
  "(case test_clock os of
      Inl e \<Rightarrow> fst (getres os CLOCK_MONOTONIC) < 0 \<and> fst (getres os CLOCK_REALTIME) < 0
    | Inr lines \<Rightarrow>
        let clock = (if fst (getres os CLOCK_MONOTONIC) < 0 then CLOCK_REALTIME else CLOCK_MONOTONIC);
            t1 = reading1 os clock; t2 = reading2 os clock
        in \<exists>d. last lines = ''Real clock resolution: '' @ print_int d @ ''ns'' \<and>
          d = elapsed t1 t2 - (ts_sec t2 - ts_sec t1) * 1000000000 \<and>
          (if 0 \<le> elapsed t1 t2 \<and> elapsed t1 t2 < 1000000000 then d < 0 \<longleftrightarrow> ts_sec t1 < ts_sec t2 else True))"
  by (auto simp: test_clock_def elapsed_def Let_def split_beta split: prod.split)

end
