(* ===== verification/Server.thy ===== *)
theory Server
  imports Fdset Cstring
begin

text \<open>
  The example server (\<open>server_example.c\<close>): two datagram sockets are opened, and a loop without
  end prints what they receive. The answers of the system are parameters: a record for the
  calls of the set-up, and a \<open>turn\<close> for each pass of the loop. \<open>perror\<close> is recorded with
  its text only.
\<close>

section \<open>Definitions\<close>

datatype event = Print string | Perror string

definition max_servers :: nat where "max_servers = 2"
definition port_number :: int where "port_number = 9000"

text \<open>
  The i-th call of \<open>socket\<close>, and what \<open>setsockopt\<close> and \<open>bind\<close> answer for a descriptor (and
  the port in host order).
\<close>

record server_os =
  os_socket :: "nat \<Rightarrow> int"
  os_reuse :: "int \<Rightarrow> int"
  os_bind :: "int \<Rightarrow> int \<Rightarrow> int"

record server =
  server_handle :: "int list"
  max_server_handle :: int

text \<open>
  The loop of the set-up from \<open>i\<close> on, \<open>n\<close> passes: what is printed, and the state, or
  \<open>None\<close> where \<open>main\<close> returns -1.
\<close>

fun open_servers :: "server_os \<Rightarrow> nat \<Rightarrow> nat \<Rightarrow> server \<Rightarrow> event list \<times> server option" where
  "open_servers os i 0 sv = ([], Some sv)"
| "open_servers os i (Suc n) sv =
     (let start = Print (''Creating socket '' @ print_int (int i) @ '' on port: ''
                         @ print_int (port_number + int i) @ newline);
          h = os_socket os i
      in if h < 0 then ([start, Perror ''Unable to create socket.''], None)
         else if os_reuse os h < 0 then ([start, Perror ''fd1 SO_REUSEADDR failed''], None)
         else let sv' = \<lparr>server_handle = server_handle sv @ [h],
                         max_server_handle = (if h > max_server_handle sv then h else max_server_handle sv)\<rparr>
              in if os_bind os h (port_number + int i) < 0 then ([start, Perror ''Unable to bind.''], None)
                 else let (out, r) = open_servers os (i + 1) n sv'
                      in (start # Print (''Bind '' @ print_int (int i) @ '' successful.'' @ newline) # out, r))"

definition server_setup :: "server_os \<Rightarrow> event list \<times> server option" where
  "server_setup os =
     (let (out, r) = open_servers os 0 max_servers \<lparr>server_handle = [], max_server_handle = 0\<rparr>
      in (Print (''Hello, human.'' @ newline) # out, r))"

text \<open>
  One pass of the loop: what \<open>select\<close> returns, the descriptors left in the set, and for each
  socket what \<open>recvfrom\<close> finds: an error or a datagram.
\<close>

record turn =
  t_retval :: int
  t_ready :: "int set"
  t_recv :: "nat \<Rightarrow> string option"

definition buffer_size :: nat where "buffer_size = 1000"

text \<open>\<open>printf("%.*s",n,buffer)\<close> stops at a NUL; \<open>recvfrom\<close> cuts a datagram to the buffer.\<close>

definition shown_data :: "string \<Rightarrow> string" where
  "shown_data d = takeWhile (\<lambda>c. c \<noteq> char_of (0 :: int)) (take buffer_size d)"

definition received :: "nat \<Rightarrow> string \<Rightarrow> event list" where
  "received i d =
     [Print (newline @ ''Data received on socket '' @ print_int (int i) @ '':''),
      Print (newline @ ''--------------'' @ newline), Print (shown_data d)]"

fun serve_ready :: "turn \<Rightarrow> int list \<Rightarrow> nat \<Rightarrow> event list" where
  "serve_ready t [] i = []"
| "serve_ready t (h # hs) i =
     (if h \<in> t_ready t then
        (case t_recv t i of
           None \<Rightarrow> [Perror ''Error in recvfrom.'']
         | Some d \<Rightarrow> received i d @ serve_ready t hs (i + 1))
      else serve_ready t hs (i + 1))"

fun watch :: "int list \<Rightarrow> int set \<Rightarrow> int set result" where
  "watch [] s = Inr s"
| "watch (h # hs) s = bind_r (FD_SET h s) (watch hs)"

definition serve_turn :: "server \<Rightarrow> turn \<Rightarrow> event list result" where
  "serve_turn sv t =
     bind_r (watch (server_handle sv) {}) (\<lambda>read_handles.
       Inr (if t_retval t = -1 then [Print (''Select error'' @ newline)]
            else if t_retval t = 0 then [Print (''timeout'' @ newline)]
            else serve_ready t (server_handle sv) 0))"

text \<open>What the loop has printed after its first passes.\<close>

fun serve :: "server \<Rightarrow> turn list \<Rightarrow> event list result" where
  "serve sv [] = Inr []"
| "serve sv (t # ts) = bind_r (serve_turn sv t) (\<lambda>out. bind_r (serve sv ts) (\<lambda>outs. Inr (out @ outs)))"

text \<open>\<open>main\<close> after the given turns: what it has printed, and -1 if it has returned.\<close>

definition server_main :: "server_os \<Rightarrow> turn list \<Rightarrow> (event list \<times> int option) result" where
  "server_main os turns =
     (let (out, r) = server_setup os
      in case r of
           None \<Rightarrow> Inr (out, Some (-1))
         | Some sv \<Rightarrow> bind_r (serve sv turns) (\<lambda>outs. Inr (out @ outs, None)))"

section \<open>Lemmas\<close>

definition servable :: "int \<Rightarrow> bool" where
  "servable h \<longleftrightarrow> 0 \<le> h \<and> h < FD_SETSIZE"

lemma watch_ok: "\<forall>h \<in> set hs. servable h \<Longrightarrow> watch hs s = Inr (s \<union> set hs)"
  by (induction hs arbitrary: s) (auto simp: FD_SET_def servable_def)

lemma serve_append:
  "serve sv (ts @ us) = bind_r (serve sv ts) (\<lambda>a. bind_r (serve sv us) (\<lambda>b. Inr (a @ b)))"
proof (induction ts)
  case Nil
  then show ?case by (cases "serve sv us") simp_all
next
  case (Cons t ts)
  then show ?case
    by (cases "serve_turn sv t"; cases "serve sv ts"; cases "serve sv us") simp_all
qed

lemma serve_total:
  assumes "\<forall>h \<in> set (server_handle sv). servable h"
  shows "\<exists>out. serve sv ts = Inr out"
  by (induction ts) (auto simp: serve_turn_def watch_ok [OF assms])

lemma serve_turn_ready:
  assumes "\<forall>h \<in> set (server_handle sv). servable h" "t_retval t > 0"
  shows "serve_turn sv t = Inr (serve_ready t (server_handle sv) 0)"
  using assms(2) by (simp add: serve_turn_def watch_ok [OF assms(1)])

text \<open>The set-up in one formula.\<close>

definition opened :: "server_os \<Rightarrow> nat \<Rightarrow> bool" where
  "opened os i \<longleftrightarrow> 0 \<le> os_socket os i \<and> 0 \<le> os_reuse os (os_socket os i) \<and>
     0 \<le> os_bind os (os_socket os i) (port_number + int i)"

lemma open_servers_state:
  "snd (open_servers os i n sv) =
    (if \<forall>k < n. opened os (i + k)
     then Some \<lparr>server_handle = server_handle sv @ map (os_socket os) [i..<i + n],
                max_server_handle = foldl max (max_server_handle sv) (map (os_socket os) [i..<i + n])\<rparr>
     else None)"
proof (induction n arbitrary: i sv)
  case 0
  then show ?case by (cases sv) simp
next
  case (Suc n)
  have all: "(\<forall>k < Suc n. opened os (i + k)) \<longleftrightarrow> opened os i \<and> (\<forall>k < n. opened os (Suc i + k))"
    by (metis (no_types, lifting) Suc_less_eq add.right_neutral add_Suc add_Suc_right not0_implies_Suc zero_less_Suc)
  have max: "(if h > m then h else m) = max m h" for h m :: int by simp
  have range: "map (os_socket os) [i..<i + Suc n] = os_socket os i # map (os_socket os) [Suc i..<Suc i + n]"
    by (simp add: upt_conv_Cons del: upt_Suc)
  show ?case
    unfolding all range
    by (auto simp: Let_def opened_def case_prod_beta Suc.IH max simp del: upt_Suc)
qed

lemma server_setup_state:
  "snd (server_setup os) =
    (if opened os 0 \<and> opened os 1
     then Some \<lparr>server_handle = [os_socket os 0, os_socket os 1],
                max_server_handle = max (os_socket os 0) (os_socket os 1)\<rparr>
     else None)"
proof -
  have "snd (server_setup os) = snd (open_servers os 0 2 \<lparr>server_handle = [], max_server_handle = 0\<rparr>)"
    by (simp add: server_setup_def max_servers_def case_prod_beta)
  moreover have "(\<forall>k < 2. opened os (0 + k)) \<longleftrightarrow> opened os 0 \<and> opened os 1"
    by (auto simp: less_2_cases_iff)
  moreover have "[0..<0 + 2] = [0, 1 :: nat]" by (simp add: upt_conv_Cons)
  ultimately show ?thesis
    unfolding open_servers_state by (auto simp: opened_def)
qed

section \<open>Properties\<close>

text \<open>
  The set-up either fails, and \<open>main\<close> returns -1 at once, or both sockets are bound to their
  ports; then the bound \<open>max_server_handle + 1\<close> lets \<open>select\<close> report exactly the ready ones
  of the two.
\<close>

theorem server_setup_outcome:
  "(if opened os 0 \<and> opened os 1
    then \<exists>sv. snd (server_setup os) = Some sv \<and> server_handle sv = map (os_socket os) [0, 1] \<and>
      (\<forall>ready. select_reports (max_server_handle sv + 1) (set (server_handle sv)) ready \<longleftrightarrow>
         ready \<subseteq> set (server_handle sv))
    else server_main os turns = Inr (fst (server_setup os), Some (-1)))"
proof (cases "opened os 0 \<and> opened os 1")
  case True
  then have "snd (server_setup os) = Some \<lparr>server_handle = [os_socket os 0, os_socket os 1],
      max_server_handle = max (os_socket os 0) (os_socket os 1)\<rparr>"
    using server_setup_state by simp
  then show ?thesis using True by (auto simp: select_reports_def)
next
  case False
  then have "snd (server_setup os) = None"
    using server_setup_state [of os] by simp
  then show ?thesis using False by (simp add: server_main_def case_prod_beta)
qed

text \<open>
  C32: Every datagram that \<open>select\<close> reports is printed in the same pass of the loop, cut to the
  buffer and at its first NUL, and stays printed whatever the passes after it bring: unless
  \<open>recvfrom\<close> fails for an earlier socket, which ends the pass.
\<close>

theorem server_prints_datagrams:
  assumes "opened os 0" "opened os 1" "os_socket os 0 \<noteq> os_socket os 1"
    and "os_socket os 0 < FD_SETSIZE" "os_socket os 1 < FD_SETSIZE"
    and "k < length turns" "t_retval (turns ! k) > 0" "i < 2" "os_socket os i \<in> t_ready (turns ! k)"
    and "t_recv (turns ! k) i = Some d"
    and "\<forall>j < i. os_socket os j \<in> t_ready (turns ! k) \<longrightarrow> t_recv (turns ! k) j \<noteq> None"
  shows "\<exists>before after. server_main os turns =
    Inr (before @ received i d @ after, None)"
proof -
  define sv where "sv = \<lparr>server_handle = [os_socket os 0, os_socket os 1],
    max_server_handle = max (os_socket os 0) (os_socket os 1)\<rparr>"
  have sv_handles: "server_handle sv = [os_socket os 0, os_socket os 1]" by (simp add: sv_def)
  have started: "snd (server_setup os) = Some sv"
    using server_setup_state assms(1,2) by (simp add: sv_def)
  have ok: "\<forall>h \<in> set (server_handle sv). servable h"
    using assms(1,2,4,5) by (auto simp: sv_def servable_def opened_def)
  have pass: "\<exists>a b. serve_turn sv (turns ! k) = Inr (a @ received i d @ b)"
  proof (cases "i = 0")
    case True
    have "serve_turn sv (turns ! k) = Inr ([] @ received i d @ serve_ready (turns ! k) [os_socket os 1] 1)"
      using assms(7,9,10) True by (simp add: serve_turn_ready [OF ok] sv_handles)
    then show ?thesis by blast
  next
    case False
    then have i: "i = 1" using assms(8) by simp
    show ?thesis
    proof (cases "os_socket os 0 \<in> t_ready (turns ! k)")
      case True
      then obtain d0 where "t_recv (turns ! k) 0 = Some d0" using assms(11) i by auto
      then have "serve_turn sv (turns ! k) = Inr (received 0 d0 @ received i d @ [])"
        using assms(7,9,10) True i by (simp add: serve_turn_ready [OF ok] sv_handles)
      then show ?thesis by blast
    next
      case False
      then have "serve_turn sv (turns ! k) = Inr ([] @ received i d @ [])"
        using assms(7,9,10) i by (simp add: serve_turn_ready [OF ok] sv_handles)
      then show ?thesis by blast
    qed
  qed
  then obtain a b where ab: "serve_turn sv (turns ! k) = Inr (a @ received i d @ b)" by blast
  obtain p where p: "serve sv (take k turns) = Inr p" using serve_total [OF ok] by blast
  obtain q where q: "serve sv (drop (Suc k) turns) = Inr q" using serve_total [OF ok] by blast
  have "serve sv turns = serve sv (take k turns @ turns ! k # drop (Suc k) turns)"
    using assms(6) by (simp add: id_take_nth_drop [symmetric])
  also have "\<dots> = Inr (p @ (a @ received i d @ b) @ q)"
    unfolding serve_append by (simp add: p q ab)
  finally have "server_main os turns =
      Inr ((fst (server_setup os) @ p @ a) @ received i d @ (b @ q), None)"
    using started by (simp add: server_main_def case_prod_beta)
  then show ?thesis by blast
qed

section \<open>Witnesses\<close>

definition plain_os :: server_os where
  "plain_os = \<lparr>os_socket = (\<lambda>i. 3 + int i), os_reuse = (\<lambda>_. 0), os_bind = (\<lambda>_ _. 0)\<rparr>"

definition one_turn :: turn where
  "one_turn = \<lparr>t_retval = 1, t_ready = {4}, t_recv = (\<lambda>_. Some ''ping'')\<rparr>"

theorem server_prints_datagrams_witness:
  "\<exists>before after. server_main plain_os [one_turn] = Inr (before @ received 1 ''ping'' @ after, None)"
  using server_prints_datagrams [of plain_os 0 "[one_turn]" 1 "''ping''"]
  by (simp add: plain_os_def one_turn_def opened_def FD_SETSIZE_def)

end
