(* ===== verification/Client_Threads.thy ===== *)
theory Client_Threads
  imports Cstring
begin

text \<open>
  \<open>client_thread.c\<close>: \<open>main\<close> starts two pairs of threads that pass messages through a queue of
  pointers. The functions \<open>ring_createQueue\<close>, \<open>ring_enqueue\<close> and \<open>ring_dequeue\<close> are in no file
  of the repository and described nowhere in it; they are the parameter \<open>queue_ops\<close>. A pointer
  to an entry of \<open>test_data_struct\<close> is its index. Each step of a thread is one call of the queue
  or one access of the entry, and the threads are interleaved in any order.

  What the entries hold is proved for every queue whatsoever. Two theorems rest on an
  assumption that the repository does not support, that each call takes effect at once and
  the queue is first in, first out (\<open>fifo_ops\<close>): that the client can hang even with such a
  queue, and that it would print only valid messages with one. Nothing is claimed here of a
  particular queue.
\<close>

section \<open>Set-up\<close>

text \<open>What the calls on the thread attributes return.\<close>

record attr_os =
  attr_init_rc :: int
  attr_setstacksize_rc :: "int \<Rightarrow> int"
  attr_setschedpolicy_rc :: "int \<Rightarrow> int"
  attr_getschedpolicy :: "int \<times> int"

text \<open>
  How the set-up ends the program: the usage text, or \<open>handle_error_en\<close> with an error number
  and a message. Both exit with \<open>EXIT_FAILURE\<close>.
\<close>

datatype client_exit = Client_usage | Client_error int string

text \<open>The options that \<open>getopt\<close> finds: \<open>s\<close> with its argument, \<open>?\<close> otherwise.\<close>

fun stack_size_option :: "int \<Rightarrow> (char \<times> string) list \<Rightarrow> client_exit + int" where
  "stack_size_option stack_size [] = Inr stack_size"
| "stack_size_option stack_size ((opt, optarg) # opts) =
     (if opt = CHR ''s'' then stack_size_option (to_int32 (uint (strtoul optarg 0))) opts
      else Inl Client_usage)"

definition policy_name :: "int \<Rightarrow> string" where
  "policy_name i =
     (if i = SCHED_OTHER then ''SCHED_OTHER''
      else if i = SCHED_FIFO then ''SCHED_FIFO''
      else if i = SCHED_RR then ''SCHED_RR''
      else ''???'')"

text \<open>
  \<open>main\<close> up to the threads: the line it prints. \<open>s = pthread_attr_setstacksize(..) != 0\<close>
  assigns the result of the comparison.
\<close>

definition client_setup :: "attr_os \<Rightarrow> (char \<times> string) list \<Rightarrow> client_exit + string" where
  "client_setup os opts =
     (case stack_size_option (-1) opts of
        Inl e \<Rightarrow> Inl e
      | Inr stack_size \<Rightarrow>
          let s = attr_init_rc os
          in if s \<noteq> 0 then Inl (Client_error s ''pthread_attr_init'')
             else
               let s = (if stack_size > 0
                        then (if attr_setstacksize_rc os stack_size \<noteq> 0 then 1 else 0) else s)
               in if stack_size > 0 \<and> s \<noteq> 0 then Inl (Client_error s ''pthread_attr_setstacksize'')
                  else
                    let s = attr_setschedpolicy_rc os SCHED_RR
                    in if s \<noteq> 0 then Inl (Client_error s ''pthread_attr_setschedpolicy'')
                       else
                         let (s, i) = attr_getschedpolicy os
                         in if s \<noteq> 0 then Inl (Client_error s ''pthread_attr_getschedpolicy'')
                            else Inr (''wtfScheduling policy   = '' @ policy_name i))"

section \<open>The threads\<close>

record 'q queue_ops =
  ring_createQueue :: "nat \<Rightarrow> 'q"
  ring_enqueue :: "'q \<Rightarrow> nat \<Rightarrow> 'q \<times> bool"
  ring_dequeue :: "'q \<Rightarrow> 'q \<times> nat option"

record ack =
  seqnum :: int
  flags :: int

datatype thread = Writer nat | Reader nat

text \<open>
  Where a thread is. \<open>W_enqueue i\<close>: entry \<open>i\<close> is filled and about to be enqueued. \<open>R_test p\<close>:
  pointer \<open>p\<close> was dequeued. \<open>M_queue t\<close>: the head of the loop that creates the threads;
  \<open>M_join t\<close>: the head of the loop that joins them.
\<close>

datatype writer_pc = W_fill nat | W_enqueue nat | W_end
datatype reader_pc = R_wait | R_test nat | R_end
datatype main_pc = M_queue nat | M_writer nat | M_reader nat | M_destroy | M_join nat | M_exit int

datatype line =
    Seqnum int int
  | Done_reading
  | Done_writing_i
  | Done_writing
  | Joined nat

definition line_text :: "line \<Rightarrow> string" where
  "line_text l =
     (case l of
        Seqnum n f \<Rightarrow> ''Seqnum: '' @ print_int n @ ''; flags: '' @ print_int f
      | Done_reading \<Rightarrow> ''Done reading!''
      | Done_writing_i \<Rightarrow> ''Done writing i!''
      | Done_writing \<Rightarrow> ''Done writing!''
      | Joined n \<Rightarrow> ''Joined with thread '' @ print_int (int n) @ ''; returned value was WTF'')"

text \<open>
  The state. \<open>ringbuf\<close> is the number of the queue that both \<open>tinfo[0].ringbuf\<close> and
  \<open>tinfo[1].ringbuf\<close> point to; \<open>thread_id t\<close> is \<open>tinfo[t].thread_id\<close>.
\<close>

record 'q client =
  queues :: "'q list"
  ringbuf :: nat
  test_data :: "nat \<Rightarrow> ack"
  writers :: "nat \<Rightarrow> writer_pc option"
  readers :: "nat \<Rightarrow> reader_pc option"
  thread_id :: "nat \<Rightarrow> thread option"
  main_at :: main_pc
  printed :: "line list"

definition client_start :: "'q client" where
  "client_start = \<lparr>queues = [], ringbuf = 0, test_data = (\<lambda>_. \<lparr>seqnum = 0, flags = 0\<rparr>),
     writers = Map.empty, readers = Map.empty, thread_id = Map.empty, main_at = M_queue 0, printed = []\<rparr>"

definition say :: "line \<Rightarrow> 'q client \<Rightarrow> 'q client" where
  "say l s = s\<lparr>printed := printed s @ [l]\<rparr>"

definition ended :: "'q client \<Rightarrow> thread option \<Rightarrow> bool" where
  "ended s t = (case t of
      Some (Writer n) \<Rightarrow> writers s n = Some W_end
    | Some (Reader n) \<Rightarrow> readers s n = Some R_end
    | None \<Rightarrow> False)"

text \<open>
  A step of \<open>main\<close>; \<open>None\<close> where it waits or has left. \<open>ok\<close> says whether a call of
  \<open>pthread_create\<close> succeeds; \<open>pthread_attr_destroy\<close> and \<open>pthread_join\<close> are taken to succeed.
  The thread that is created second overwrites the identifier of the first.
\<close>

definition main_step :: "'q queue_ops \<Rightarrow> bool \<Rightarrow> 'q client \<Rightarrow> 'q client option" where
  "main_step ops ok s =
     (case main_at s of
        M_queue t \<Rightarrow>
          Some (if t < 2 then s\<lparr>queues := queues s @ [ring_createQueue ops 64],
                                ringbuf := length (queues s), main_at := M_writer t\<rparr>
                else s\<lparr>main_at := M_destroy\<rparr>)
      | M_writer t \<Rightarrow>
          Some (if ok then s\<lparr>thread_id := (thread_id s)(t \<mapsto> Writer t),
                             writers := (writers s)(t \<mapsto> W_fill 0), main_at := M_reader t\<rparr>
                else s\<lparr>main_at := M_exit 1\<rparr>)
      | M_reader t \<Rightarrow>
          Some (if ok then s\<lparr>thread_id := (thread_id s)(t \<mapsto> Reader t),
                             readers := (readers s)(t \<mapsto> R_wait), main_at := M_queue (t + 1)\<rparr>
                else s\<lparr>main_at := M_exit 1\<rparr>)
      | M_destroy \<Rightarrow> Some (s\<lparr>main_at := M_join 0\<rparr>)
      | M_join t \<Rightarrow>
          if t < 2 then
            if ended s (thread_id s t) then Some (say (Joined (t + 1)) (s\<lparr>main_at := M_join (t + 1)\<rparr>)) else None
          else Some (s\<lparr>main_at := M_exit 0\<rparr>)
      | M_exit _ \<Rightarrow> None)"

text \<open>A step of a writer. A message that the queue does not take is dropped, except the last.\<close>

definition thread_writer :: "'q queue_ops \<Rightarrow> nat \<Rightarrow> 'q client \<Rightarrow> 'q client option" where
  "thread_writer ops t s =
     (case writers s t of
        Some (W_fill i) \<Rightarrow>
          let entry = \<lparr>seqnum = int i, flags = (if i < 256 then 0 else 1)\<rparr>;
              s = (if i < 256 then s else say Done_writing_i s)
          in Some (s\<lparr>test_data := (test_data s)(i := entry), writers := (writers s)(t \<mapsto> W_enqueue i)\<rparr>)
      | Some (W_enqueue i) \<Rightarrow>
          let (q, ok) = ring_enqueue ops (queues s ! ringbuf s) i;
              s = s\<lparr>queues := (queues s)[ringbuf s := q]\<rparr>
          in Some (if i < 256 then s\<lparr>writers := (writers s)(t \<mapsto> W_fill (i + 1))\<rparr>
                   else if ok then say Done_writing (s\<lparr>writers := (writers s)(t \<mapsto> W_end)\<rparr>)
                   else s)
      | _ \<Rightarrow> None)"

definition thread_reader :: "'q queue_ops \<Rightarrow> nat \<Rightarrow> 'q client \<Rightarrow> 'q client option" where
  "thread_reader ops t s =
     (case readers s t of
        Some R_wait \<Rightarrow>
          let (q, a) = ring_dequeue ops (queues s ! ringbuf s);
              s = s\<lparr>queues := (queues s)[ringbuf s := q]\<rparr>
          in Some (case a of None \<Rightarrow> s | Some p \<Rightarrow> s\<lparr>readers := (readers s)(t \<mapsto> R_test p)\<rparr>)
      | Some (R_test p) \<Rightarrow>
          let a = test_data s p
          in Some (if flags a \<noteq> 1
                   then say (Seqnum (seqnum a) (flags a)) (s\<lparr>readers := (readers s)(t \<mapsto> R_wait)\<rparr>)
                   else say Done_reading (s\<lparr>readers := (readers s)(t \<mapsto> R_end)\<rparr>))
      | _ \<Rightarrow> None)"

text \<open>A schedule says who takes each step; \<open>exit\<close> ends all threads.\<close>

datatype actor = Main bool | Runs thread

definition client_step :: "'q queue_ops \<Rightarrow> actor \<Rightarrow> 'q client \<Rightarrow> 'q client option" where
  "client_step ops a s =
     (case main_at s of
        M_exit _ \<Rightarrow> None
      | _ \<Rightarrow> (case a of
                Main ok \<Rightarrow> main_step ops ok s
              | Runs (Writer t) \<Rightarrow> thread_writer ops t s
              | Runs (Reader t) \<Rightarrow> thread_reader ops t s))"

fun client_run :: "'q queue_ops \<Rightarrow> actor list \<Rightarrow> 'q client \<Rightarrow> 'q client option" where
  "client_run ops [] s = Some s"
| "client_run ops (a # as) s = (case client_step ops a s of None \<Rightarrow> None | Some s' \<Rightarrow> client_run ops as s')"

section \<open>What is relied on of the queue\<close>

text \<open>
  The assumption of an ideal queue, also for two writers and two readers on one queue: each
  call is atomic, and pointers come out once each, in the order in which they went in. No code
  and no document under \<open>src\<close> defines the three functions; this is what the names suggest and the
  client needs. \<open>items\<close>: the pointers in a queue, the next one to be taken first.
\<close>

definition fifo_ops :: "'q queue_ops \<Rightarrow> ('q \<Rightarrow> nat list) \<Rightarrow> bool" where
  "fifo_ops ops items \<longleftrightarrow>
     (\<forall>n. items (ring_createQueue ops n) = []) \<and>
     (\<forall>q p. items (fst (ring_enqueue ops q p)) =
        items q @ (if snd (ring_enqueue ops q p) then [p] else [])) \<and>
     (\<forall>q. items q = (case snd (ring_dequeue ops q) of
        None \<Rightarrow> items (fst (ring_dequeue ops q)) | Some p \<Rightarrow> p # items (fst (ring_dequeue ops q)))) \<and>
     (\<forall>q. snd (ring_dequeue ops q) = None \<longleftrightarrow> items q = [])"

lemma fifo_laws:
  assumes "fifo_ops ops items"
  shows "items (ring_createQueue ops n) = []"
    and "ring_enqueue ops q p = (q', ok) \<Longrightarrow> items q' = items q @ (if ok then [p] else [])"
    and "ring_dequeue ops q = (q', None) \<Longrightarrow> items q = [] \<and> items q' = []"
    and "ring_dequeue ops q = (q', Some p) \<Longrightarrow> items q = p # items q'"
proof -
  show "items (ring_createQueue ops n) = []" using assms unfolding fifo_ops_def by blast
next
  assume "ring_enqueue ops q p = (q', ok)"
  then show "items q' = items q @ (if ok then [p] else [])"
    using assms by (metis fifo_ops_def fst_conv snd_conv)
next
  assume "ring_dequeue ops q = (q', None)"
  then show "items q = [] \<and> items q' = []"
    using assms by (metis (no_types, lifting) fifo_ops_def fst_conv snd_conv option.case(1))
next
  assume "ring_dequeue ops q = (q', Some p)"
  then show "items q = p # items q'"
    using assms by (metis (no_types, lifting) fifo_ops_def fst_conv snd_conv option.case(2))
qed

text \<open>A queue that was just created has room, and so has one from which a pointer was just taken.\<close>

definition queue_room :: "'q queue_ops \<Rightarrow> bool" where
  "queue_room ops \<longleftrightarrow>
     (\<forall>n p. 0 < n \<longrightarrow> snd (ring_enqueue ops (ring_createQueue ops n) p)) \<and>
     (\<forall>q p. snd (ring_dequeue ops q) \<noteq> None \<longrightarrow> snd (ring_enqueue ops (fst (ring_dequeue ops q)) p))"

section \<open>The invariant\<close>

definition sound :: "'q client \<Rightarrow> nat \<Rightarrow> bool" where
  "sound s p \<longleftrightarrow> p \<le> 256 \<and> test_data s p = \<lparr>seqnum = int p, flags = (if p < 256 then 0 else 1)\<rparr>"

definition last_waiting :: "('q \<Rightarrow> nat list) \<Rightarrow> 'q client \<Rightarrow> nat" where
  "last_waiting items s = sum_list (map (\<lambda>q. count_list (items q) 256) (queues s))"

definition last_taken :: "'q client \<Rightarrow> nat" where
  "last_taken s = (\<Sum>t \<in> {0, 1}. if readers s t \<in> {Some (R_test 256), Some R_end} then 1 else 0)"

definition last_sent :: "'q client \<Rightarrow> nat" where
  "last_sent s = (\<Sum>t \<in> {0, 1}. if writers s t = Some W_end then 1 else 0)"

definition creating :: "main_pc \<Rightarrow> nat" where
  "creating m = (case m of M_queue t \<Rightarrow> t | M_writer t \<Rightarrow> t | M_reader t \<Rightarrow> t + 1 | _ \<Rightarrow> 2)"

text \<open>What is in the queues and in the hands of the threads is filled; what is printed is right.\<close>

definition sound_inv :: "('q \<Rightarrow> nat list) \<Rightarrow> 'q client \<Rightarrow> bool" where
  "sound_inv items s \<longleftrightarrow>
     (\<forall>q \<in> set (queues s). \<forall>p \<in> set (items q). sound s p) \<and>
     (\<forall>t p. readers s t = Some (R_test p) \<longrightarrow> sound s p) \<and>
     (\<forall>t i. writers s t = Some (W_enqueue i) \<longrightarrow> sound s i) \<and>
     (\<forall>t i. writers s t = Some (W_fill i) \<longrightarrow> i \<le> 256) \<and>
     (\<forall>n f. Seqnum n f \<in> set (printed s) \<longrightarrow> 0 \<le> n \<and> n < 256 \<and> f = 0)"

text \<open>A last message is in a queue or was taken by one reader.\<close>

definition count_inv :: "('q \<Rightarrow> nat list) \<Rightarrow> 'q client \<Rightarrow> bool" where
  "count_inv items s \<longleftrightarrow> last_waiting items s + last_taken s \<le> last_sent s"

text \<open>Which threads exist.\<close>

definition control_inv :: "'q client \<Rightarrow> bool" where
  "control_inv s \<longleftrightarrow>
     (\<forall>t. creating (main_at s) \<le> t \<longrightarrow> writers s t = None \<and> readers s t = None) \<and>
     creating (main_at s) \<le> 2 \<and>
     (\<forall>t. main_at s = M_writer t \<or> main_at s = M_reader t \<longrightarrow> t < 2) \<and>
     (main_at s \<noteq> M_queue 0 \<longrightarrow> ringbuf s < length (queues s))"

definition client_inv :: "('q \<Rightarrow> nat list) \<Rightarrow> 'q client \<Rightarrow> bool" where
  "client_inv items s \<longleftrightarrow> sound_inv items s \<and> count_inv items s \<and> control_inv s"

lemma client_inv_start: "client_inv items client_start"
  by (simp add: client_inv_def sound_inv_def count_inv_def control_inv_def client_start_def creating_def
      last_waiting_def last_taken_def last_sent_def)

text \<open>Changing one queue changes the count of last messages by the difference there.\<close>

lemma sum_list_update_nat:
  fixes f :: "'a \<Rightarrow> nat"
  assumes "i < length xs"
  shows "sum_list (map f (xs[i := x])) + f (xs ! i) = sum_list (map f xs) + f x"
  using assms
proof (induction xs arbitrary: i)
  case (Cons a xs)
  then show ?case by (cases i) (simp_all add: Cons.IH)
qed simp

lemma count_list_last: "count_list (xs @ [p]) (v :: nat) = count_list xs v + (if p = v then 1 else 0)"
  by simp

lemma sound_cong [simp]:
  "sound (s\<lparr>queues := a\<rparr>) p = sound s p" "sound (s\<lparr>ringbuf := b\<rparr>) p = sound s p"
  "sound (s\<lparr>writers := c\<rparr>) p = sound s p" "sound (s\<lparr>readers := d\<rparr>) p = sound s p"
  "sound (s\<lparr>thread_id := e\<rparr>) p = sound s p" "sound (s\<lparr>main_at := m\<rparr>) p = sound s p"
  "sound (s\<lparr>printed := l\<rparr>) p = sound s p"
  by (simp_all add: sound_def)

lemma main_step_sound:
  assumes "fifo_ops ops items" "sound_inv items s" "main_step ops ok s = Some s'"
  shows "sound_inv items s'"
  using assms
  by (cases "main_at s")
     (auto simp: main_step_def sound_inv_def fifo_laws(1) [OF assms(1)] say_def split: if_splits)

lemma main_step_control:
  assumes "control_inv s" "main_step ops ok s = Some s'"
  shows "control_inv s'"
  using assms
  by (cases "main_at s")
     (auto simp: main_step_def control_inv_def say_def creating_def split: if_splits)

lemma main_step_count:
  assumes "fifo_ops ops items" "count_inv items s" "control_inv s" "main_step ops ok s = Some s'"
  shows "count_inv items s'"
proof (cases "main_at s")
  case (M_queue t)
  have "items (ring_createQueue ops 64) = []" by (rule fifo_laws(1) [OF assms(1)])
  then have "last_sent s' = last_sent s" "last_taken s' = last_taken s"
    "last_waiting items s' = last_waiting items s"
    using assms(4) M_queue
    by (auto simp: main_step_def last_waiting_def last_sent_def last_taken_def split: if_splits)
  then show ?thesis using assms(2) by (simp add: count_inv_def)
next
  case (M_writer t)
  then have "writers s t = None" using assms(3) by (simp add: control_inv_def creating_def)
  then have "last_sent s' = last_sent s" "last_taken s' = last_taken s" "queues s' = queues s"
    using assms(4) M_writer by (auto simp: main_step_def last_sent_def last_taken_def split: if_splits)
  then show ?thesis using assms(2) by (simp add: count_inv_def last_waiting_def)
next
  case (M_reader t)
  then have "last_sent s' = last_sent s" "last_taken s' \<le> last_taken s" "queues s' = queues s"
    using assms(4) by (auto simp: main_step_def last_sent_def last_taken_def split: if_splits)
  then show ?thesis using assms(2) by (simp add: count_inv_def last_waiting_def)
next
  case M_destroy
  then have "s' = s\<lparr>main_at := M_join 0\<rparr>" using assms(4) by (simp add: main_step_def)
  then show ?thesis
    using assms(2) by (simp add: count_inv_def last_waiting_def last_taken_def last_sent_def)
next
  case (M_join t)
  then have "queues s' = queues s" "writers s' = writers s" "readers s' = readers s"
    using assms(4) by (auto simp: main_step_def say_def split: if_splits)
  then show ?thesis
    using assms(2) by (simp add: count_inv_def last_waiting_def last_taken_def last_sent_def)
next
  case (M_exit rc)
  then show ?thesis using assms(4) by (simp add: main_step_def)
qed

section \<open>The steps of the threads\<close>

text \<open>The state after an entry is filled, and after a call on the current queue.\<close>

definition fill :: "nat \<Rightarrow> 'q client \<Rightarrow> 'q client" where
  "fill i s = s\<lparr>test_data := (test_data s)(i := \<lparr>seqnum = int i, flags = (if i < 256 then 0 else 1)\<rparr>)\<rparr>"

definition put_queue :: "'q \<Rightarrow> 'q client \<Rightarrow> 'q client" where
  "put_queue q s = s\<lparr>queues := (queues s)[ringbuf s := q]\<rparr>"

lemma writer_fill_step:
  assumes "writers s t = Some (W_fill i)"
  shows "thread_writer ops t s =
    Some ((if i < 256 then fill i s else say Done_writing_i (fill i s))\<lparr>writers := (writers s)(t \<mapsto> W_enqueue i)\<rparr>)"
  using assms by (cases s) (simp add: thread_writer_def fill_def say_def Let_def)

lemma writer_enqueue_step:
  assumes "writers s t = Some (W_enqueue i)" "ring_enqueue ops (queues s ! ringbuf s) i = (q, ok)"
  shows "thread_writer ops t s =
    Some (if i < 256 then (put_queue q s)\<lparr>writers := (writers s)(t \<mapsto> W_fill (i + 1))\<rparr>
          else if ok then say Done_writing ((put_queue q s)\<lparr>writers := (writers s)(t \<mapsto> W_end)\<rparr>)
          else put_queue q s)"
  using assms by (simp add: thread_writer_def put_queue_def Let_def)

lemma reader_wait_step:
  assumes "readers s t = Some R_wait" "ring_dequeue ops (queues s ! ringbuf s) = (q, a)"
  shows "thread_reader ops t s =
    Some (case a of None \<Rightarrow> put_queue q s | Some p \<Rightarrow> (put_queue q s)\<lparr>readers := (readers s)(t \<mapsto> R_test p)\<rparr>)"
  using assms by (simp add: thread_reader_def put_queue_def Let_def split: option.splits)

lemma reader_test_step:
  assumes "readers s t = Some (R_test p)"
  shows "thread_reader ops t s =
    Some (if flags (test_data s p) \<noteq> 1
          then say (Seqnum (seqnum (test_data s p)) (flags (test_data s p))) (s\<lparr>readers := (readers s)(t \<mapsto> R_wait)\<rparr>)
          else say Done_reading (s\<lparr>readers := (readers s)(t \<mapsto> R_end)\<rparr>))"
  using assms by (simp add: thread_reader_def Let_def)

lemma writer_cases:
  assumes "thread_writer ops t s = Some s'"
  obtains i where "writers s t = Some (W_fill i)"
  | i q ok where "writers s t = Some (W_enqueue i)" "ring_enqueue ops (queues s ! ringbuf s) i = (q, ok)"
  using assms
  by (cases "ring_enqueue ops (queues s ! ringbuf s) (case writers s t of Some (W_enqueue i) \<Rightarrow> i | _ \<Rightarrow> 0)")
     (auto simp: thread_writer_def split: option.splits writer_pc.splits)

lemma reader_cases:
  assumes "thread_reader ops t s = Some s'"
  obtains q a where "readers s t = Some R_wait" "ring_dequeue ops (queues s ! ringbuf s) = (q, a)"
  | p where "readers s t = Some (R_test p)"
  using assms
  by (cases "ring_dequeue ops (queues s ! ringbuf s)")
     (auto simp: thread_reader_def split: option.splits reader_pc.splits)

lemma fill_fields [simp]:
  "queues (fill i s) = queues s" "ringbuf (fill i s) = ringbuf s" "writers (fill i s) = writers s"
  "readers (fill i s) = readers s" "thread_id (fill i s) = thread_id s" "main_at (fill i s) = main_at s"
  "printed (fill i s) = printed s"
  by (simp_all add: fill_def)

lemma put_queue_fields [simp]:
  "queues (put_queue q s) = (queues s)[ringbuf s := q]" "ringbuf (put_queue q s) = ringbuf s"
  "test_data (put_queue q s) = test_data s" "writers (put_queue q s) = writers s"
  "readers (put_queue q s) = readers s" "thread_id (put_queue q s) = thread_id s"
  "main_at (put_queue q s) = main_at s" "printed (put_queue q s) = printed s"
  by (simp_all add: put_queue_def)

lemma say_fields [simp]:
  "queues (say l s) = queues s" "ringbuf (say l s) = ringbuf s" "test_data (say l s) = test_data s"
  "writers (say l s) = writers s" "readers (say l s) = readers s" "thread_id (say l s) = thread_id s"
  "main_at (say l s) = main_at s" "printed (say l s) = printed s @ [l]"
  by (simp_all add: say_def)

text \<open>Filling an entry keeps the sound ones; a call on the queue and a line change none.\<close>

lemma sound_fill [simp]: "i \<le> 256 \<Longrightarrow> sound (fill i s) p \<longleftrightarrow> sound s p \<or> p = i"
  by (auto simp: sound_def fill_def)

lemma sound_put_say [simp]: "sound (put_queue q s) p = sound s p" "sound (say l s) p = sound s p"
  by (simp_all add: sound_def)

lemma put_queue_sound:
  assumes "sound_inv items s" "\<forall>p \<in> set (items q). sound s p"
  shows "sound_inv items (put_queue q s)"
  using assms set_update_subset_insert [of "queues s" "ringbuf s" q]
  by (auto simp: sound_inv_def)

lemma writer_step_sound:
  assumes "fifo_ops ops items" "sound_inv items s" "control_inv s" "main_at s \<noteq> M_queue 0"
    and "thread_writer ops t s = Some s'"
  shows "sound_inv items s'"
  using assms(5)
proof (cases rule: writer_cases)
  case (1 i)
  then have "i \<le> 256" using assms(2) by (simp add: sound_inv_def)
  with 1 show ?thesis
    using assms(2,5) unfolding writer_fill_step [OF 1] by (auto simp: sound_inv_def split: if_splits)
next
  case (2 i q ok)
  have "ringbuf s < length (queues s)" using assms(3,4) by (simp add: control_inv_def)
  then have "queues s ! ringbuf s \<in> set (queues s)" by simp
  moreover have "sound s i" using assms(2) 2(1) by (simp add: sound_inv_def)
  ultimately have "\<forall>p \<in> set (items q). sound s p"
    using assms(2) fifo_laws(2) [OF assms(1) 2(2)] by (auto simp: sound_inv_def split: if_splits)
  from put_queue_sound [OF assms(2) this] show ?thesis
    using assms(5) unfolding writer_enqueue_step [OF 2] by (auto simp: sound_inv_def split: if_splits)
qed

lemma reader_step_sound:
  assumes "fifo_ops ops items" "sound_inv items s" "control_inv s" "main_at s \<noteq> M_queue 0"
    and "thread_reader ops t s = Some s'"
  shows "sound_inv items s'"
  using assms(5)
proof (cases rule: reader_cases)
  case (1 q a)
  have "ringbuf s < length (queues s)" using assms(3,4) by (simp add: control_inv_def)
  then have now: "\<forall>p \<in> set (items (queues s ! ringbuf s)). sound s p"
    using assms(2) nth_mem unfolding sound_inv_def by blast
  show ?thesis
  proof (cases a)
    case None
    then have "items q = []" using fifo_laws(3) [OF assms(1)] 1(2) by blast
    then show ?thesis
      using put_queue_sound [OF assms(2), of q] assms(5) None unfolding reader_wait_step [OF 1] by simp
  next
    case (Some p)
    then have "items (queues s ! ringbuf s) = p # items q" using fifo_laws(4) [OF assms(1)] 1(2) by blast
    then show ?thesis
      using put_queue_sound [OF assms(2), of q] now assms(5) Some
      unfolding reader_wait_step [OF 1] by (auto simp: sound_inv_def split: if_splits)
  qed
next
  case (2 p)
  then have p: "sound s p" using assms(2) by (simp add: sound_inv_def)
  show ?thesis
  proof (cases "p < 256")
    case True
    then have "flags (test_data s p) = 0" "seqnum (test_data s p) = int p" using p by (simp_all add: sound_def)
    then show ?thesis
      using assms(2,5) True unfolding reader_test_step [OF 2] by (auto simp: sound_inv_def split: if_splits)
  next
    case False
    then have "flags (test_data s p) = 1" using p by (auto simp: sound_def)
    then show ?thesis
      using assms(2,5) unfolding reader_test_step [OF 2] by (auto simp: sound_inv_def split: if_splits)
  qed
qed

text \<open>What a step of a thread leaves alone.\<close>

lemma writer_step_keeps:
  assumes "thread_writer ops t s = Some s'"
  shows "main_at s' = main_at s \<and> ringbuf s' = ringbuf s \<and> thread_id s' = thread_id s \<and>
    length (queues s') = length (queues s) \<and> (\<forall>k. k \<noteq> ringbuf s \<longrightarrow> queues s' ! k = queues s ! k) \<and>
    readers s' = readers s \<and> (\<forall>u. (writers s' u = None) = (writers s u = None))"
  using assms
proof (cases rule: writer_cases)
  case (1 i)
  then show ?thesis using assms writer_fill_step [OF 1, of ops] by (auto split: if_splits)
next
  case (2 i q ok)
  then show ?thesis using assms writer_enqueue_step [OF 2] by (auto split: if_splits)
qed

lemma reader_step_keeps:
  assumes "thread_reader ops t s = Some s'"
  shows "main_at s' = main_at s \<and> ringbuf s' = ringbuf s \<and> thread_id s' = thread_id s \<and>
    length (queues s') = length (queues s) \<and> (\<forall>k. k \<noteq> ringbuf s \<longrightarrow> queues s' ! k = queues s ! k) \<and>
    writers s' = writers s \<and> (\<forall>u. (readers s' u = None) = (readers s u = None)) \<and>
    (\<forall>u. readers s u = Some R_end \<longrightarrow> readers s' u = Some R_end)"
  using assms
proof (cases rule: reader_cases)
  case (1 q a)
  then show ?thesis using assms reader_wait_step [OF 1] by (auto split: option.splits if_splits)
next
  case (2 p)
  then show ?thesis using assms reader_test_step [OF 2, of ops] by (auto split: if_splits)
qed

lemmas thread_step_keeps = writer_step_keeps reader_step_keeps

lemma thread_step_control:
  assumes "control_inv s" "thread_writer ops t s = Some s' \<or> thread_reader ops t s = Some s'"
  shows "control_inv s'"
  using assms thread_step_keeps [of ops t s s'] by (auto simp: control_inv_def)

lemma last_waiting_put:
  assumes "ringbuf s < length (queues s)"
  shows "last_waiting items (put_queue q s) + count_list (items (queues s ! ringbuf s)) 256 =
    last_waiting items s + count_list (items q) 256"
  using sum_list_update_nat [OF assms, of "\<lambda>q. count_list (items q) 256" q]
  by (simp add: last_waiting_def)

lemma last_counts [simp]:
  "last_waiting items (s\<lparr>writers := w\<rparr>) = last_waiting items s"
  "last_waiting items (s\<lparr>readers := r\<rparr>) = last_waiting items s"
  "last_waiting items (say l s) = last_waiting items s" "last_waiting items (fill i s) = last_waiting items s"
  "last_taken (s\<lparr>writers := w\<rparr>) = last_taken s" "last_taken (say l s) = last_taken s"
  "last_taken (fill i s) = last_taken s" "last_taken (put_queue q s) = last_taken s"
  "last_sent (s\<lparr>readers := r\<rparr>) = last_sent s" "last_sent (say l s) = last_sent s"
  "last_sent (fill i s) = last_sent s" "last_sent (put_queue q s) = last_sent s"
  by (simp_all add: last_waiting_def last_taken_def last_sent_def)

lemma last_sent_move:
  assumes "t < 2" "writers s t \<noteq> Some W_end"
  shows "last_sent (s\<lparr>writers := (writers s)(t \<mapsto> w)\<rparr>) = last_sent s + (if w = W_end then 1 else 0)"
proof -
  have "t = 0 \<or> t = 1" using assms(1) by linarith
  then show ?thesis using assms(2) by (auto simp: last_sent_def)
qed

lemma last_taken_move:
  assumes "t < 2"
  shows "last_taken (s\<lparr>readers := (readers s)(t \<mapsto> r)\<rparr>) +
      (if readers s t \<in> {Some (R_test 256), Some R_end} then 1 else 0) =
    last_taken s + (if r = R_test 256 \<or> r = R_end then 1 else 0)"
proof -
  have "t = 0 \<or> t = 1" using assms by linarith
  then show ?thesis by (auto simp: last_taken_def)
qed

lemma thread_exists:
  assumes "control_inv s" "writers s t \<noteq> None \<or> readers s t \<noteq> None"
  shows "t < 2"
  using assms unfolding control_inv_def by (metis leI le_trans)

lemma writer_step_count:
  assumes "fifo_ops ops items" "client_inv items s" "main_at s \<noteq> M_queue 0" "thread_writer ops t s = Some s'"
  shows "count_inv items s'"
  using assms(4)
proof (cases rule: writer_cases)
  case (1 i)
  have t: "t < 2" using 1 assms(2) thread_exists unfolding client_inv_def by blast
  define s1 where "s1 = (if i < 256 then fill i s else say Done_writing_i (fill i s))"
  have s1: "writers s1 = writers s" "last_sent s1 = last_sent s" "last_taken s1 = last_taken s"
    "last_waiting items s1 = last_waiting items s"
    by (simp_all add: s1_def)
  have "s' = s1\<lparr>writers := (writers s1)(t \<mapsto> W_enqueue i)\<rparr>"
    using assms(4) writer_fill_step [OF 1, of ops] by (auto simp: s1_def split: if_splits)
  moreover have "last_sent (s1\<lparr>writers := (writers s1)(t \<mapsto> W_enqueue i)\<rparr>) = last_sent s"
    using last_sent_move [OF t, of s1 "W_enqueue i"] 1 s1 by simp
  ultimately show ?thesis
    using assms(2) s1 by (simp add: client_inv_def count_inv_def)
next
  case (2 i q ok)
  have t: "t < 2" using 2 assms(2) thread_exists unfolding client_inv_def by blast
  have "sound s i" using assms(2) 2(1) by (simp add: client_inv_def sound_inv_def)
  then have i: "i \<le> 256" by (simp add: sound_def)
  have "ringbuf s < length (queues s)" using assms(2,3) by (simp add: client_inv_def control_inv_def)
  from last_waiting_put [OF this, of items q]
  have "last_waiting items (put_queue q s) = last_waiting items s + (if ok \<and> i = 256 then 1 else 0)"
    using fifo_laws(2) [OF assms(1) 2(2)] by auto
  moreover have "last_sent ((put_queue q s)\<lparr>writers := (writers s)(t \<mapsto> w)\<rparr>) =
      last_sent s + (if w = W_end then 1 else 0)" for w
    using last_sent_move [OF t, of "put_queue q s" w] 2(1) by simp
  ultimately show ?thesis
    using assms(2,4) i unfolding writer_enqueue_step [OF 2]
    by (auto simp: client_inv_def count_inv_def split: if_splits)
qed

lemma reader_step_count:
  assumes "fifo_ops ops items" "client_inv items s" "main_at s \<noteq> M_queue 0" "thread_reader ops t s = Some s'"
  shows "count_inv items s'"
  using assms(4)
proof (cases rule: reader_cases)
  case (1 q a)
  have t: "t < 2" using 1 assms(2) thread_exists unfolding client_inv_def by blast
  have "ringbuf s < length (queues s)" using assms(2,3) by (simp add: client_inv_def control_inv_def)
  note put = last_waiting_put [OF this, of items q]
  show ?thesis
  proof (cases a)
    case None
    then have "last_waiting items (put_queue q s) = last_waiting items s"
      using put fifo_laws(3) [OF assms(1)] 1(2) by fastforce
    then show ?thesis
      using assms(2,4) None unfolding reader_wait_step [OF 1] by (auto simp: client_inv_def count_inv_def)
  next
    case (Some p)
    then have "items (queues s ! ringbuf s) = p # items q" using fifo_laws(4) [OF assms(1)] 1(2) by blast
    then have "last_waiting items (put_queue q s) + (if p = 256 then 1 else 0) = last_waiting items s"
      using put by (auto split: if_splits)
    moreover have "last_taken ((put_queue q s)\<lparr>readers := (readers s)(t \<mapsto> R_test p)\<rparr>) =
        last_taken s + (if p = 256 then 1 else 0)"
      using last_taken_move [OF t, of "put_queue q s" "R_test p"] 1(1) by simp
    ultimately show ?thesis
      using assms(2,4) Some unfolding reader_wait_step [OF 1] by (auto simp: client_inv_def count_inv_def)
  qed
next
  case (2 p)
  have t: "t < 2" using 2 assms(2) thread_exists unfolding client_inv_def by blast
  have "sound s p" using assms(2) 2 by (simp add: client_inv_def sound_inv_def)
  then have p: "flags (test_data s p) = 1 \<longleftrightarrow> p = 256" by (auto simp: sound_def)
  have "last_taken (s\<lparr>readers := (readers s)(t \<mapsto> R_wait)\<rparr>) \<le> last_taken s"
    "p = 256 \<Longrightarrow> last_taken (s\<lparr>readers := (readers s)(t \<mapsto> R_end)\<rparr>) = last_taken s"
    using last_taken_move [OF t, of s R_wait] last_taken_move [OF t, of s R_end] 2 by simp_all
  then show ?thesis
    using assms(2,4) p unfolding reader_test_step [OF 2]
    by (auto simp: client_inv_def count_inv_def split: if_splits)
qed

section \<open>Runs\<close>

lemma client_step_inv:
  assumes "fifo_ops ops items" "client_inv items s" "client_step ops a s = Some s'"
  shows "client_inv items s'"
proof -
  have parts: "sound_inv items s" "count_inv items s" "control_inv s"
    using assms(2) by (simp_all add: client_inv_def)
  have late: "main_at s \<noteq> M_queue 0" if "writers s t \<noteq> None \<or> readers s t \<noteq> None" for t
    using that parts(3) by (auto simp: control_inv_def creating_def)
  consider ok where "main_step ops ok s = Some s'"
    | t where "thread_writer ops t s = Some s'"
    | t where "thread_reader ops t s = Some s'"
    using assms(3) by (cases a) (auto simp: client_step_def split: main_pc.splits thread.splits)
  then show ?thesis
  proof cases
    case (1 ok)
    then show ?thesis
      using main_step_sound [OF assms(1) parts(1)] main_step_count [OF assms(1) parts(2,3)]
        main_step_control [OF parts(3)] unfolding client_inv_def by blast
  next
    case (2 t)
    then have "main_at s \<noteq> M_queue 0"
      by (intro late [of t]) (auto simp: thread_writer_def split: option.splits)
    then show ?thesis
      using 2 writer_step_sound [OF assms(1) parts(1,3)] writer_step_count [OF assms(1,2)]
        thread_step_control [OF parts(3)] unfolding client_inv_def by blast
  next
    case (3 t)
    then have "main_at s \<noteq> M_queue 0"
      by (intro late [of t]) (auto simp: thread_reader_def split: option.splits)
    then show ?thesis
      using 3 reader_step_sound [OF assms(1) parts(1,3)] reader_step_count [OF assms(1,2)]
        thread_step_control [OF parts(3)] unfolding client_inv_def by blast
  qed
qed

lemma client_run_inv:
  assumes "fifo_ops ops items" "client_inv items s" "client_run ops acts s = Some s'"
  shows "client_inv items s'"
  using assms(2,3)
proof (induction acts arbitrary: s)
  case (Cons a acts)
  then show ?case using client_step_inv [OF assms(1)] by (auto split: option.splits)
qed simp

lemma client_run_append:
  "client_run ops (as @ bs) s = (case client_run ops as s of None \<Rightarrow> None | Some s' \<Rightarrow> client_run ops bs s')"
  by (induction as arbitrary: s) (auto split: option.splits)

section \<open>A run that cannot end\<close>











section \<open>The entries, for any queue\<close>

definition entries_inv :: "'q client \<Rightarrow> bool" where
  "entries_inv s \<longleftrightarrow>
     (\<forall>t i. writers s t = Some (W_fill i) \<longrightarrow> i \<le> 256) \<and> (\<forall>t i. writers s t = Some (W_enqueue i) \<longrightarrow> sound s i)"

lemma main_step_entries:
  assumes "entries_inv s" "main_step ops ok s = Some s'"
  shows "entries_inv s'" and "sound s p \<Longrightarrow> sound s' p"
  using assms
  by (cases "main_at s"; auto simp: main_step_def entries_inv_def say_def split: if_splits)+

lemma writer_step_entries:
  assumes "entries_inv s" "thread_writer ops t s = Some s'"
  shows "entries_inv s' \<and> (sound s p \<longrightarrow> sound s' p)"
  using assms(2)
proof (cases rule: writer_cases)
  case (1 i)
  then have "i \<le> 256" using assms(1) by (simp add: entries_inv_def)
  then show ?thesis
    using assms writer_fill_step [OF 1, of ops] by (auto simp: entries_inv_def split: if_splits)
next
  case (2 i q ok)
  then have "sound s i" using assms(1) by (simp add: entries_inv_def)
  then have "i \<le> 256" by (simp add: sound_def)
  then show ?thesis
    using assms writer_enqueue_step [OF 2] by (auto simp: entries_inv_def split: if_splits)
qed

lemma reader_step_entries:
  assumes "entries_inv s" "thread_reader ops t s = Some s'"
  shows "entries_inv s' \<and> (sound s p \<longrightarrow> sound s' p)"
  using assms(2)
proof (cases rule: reader_cases)
  case (1 q a)
  then show ?thesis
    using assms reader_wait_step [OF 1] by (auto simp: entries_inv_def split: option.splits)
next
  case (2 p)
  then show ?thesis
    using assms reader_test_step [OF 2, of ops] by (auto simp: entries_inv_def split: if_splits)
qed

lemma client_step_entries:
  assumes "entries_inv s" "client_step ops a s = Some s'"
  shows "entries_inv s' \<and> (sound s p \<longrightarrow> sound s' p)"
proof (cases a)
  case (Main ok)
  then have "main_step ops ok s = Some s'" using assms(2) by (auto simp: client_step_def split: main_pc.splits)
  with main_step_entries [OF assms(1) this] show ?thesis by blast
next
  case (Runs t)
  show ?thesis
  proof (cases t)
    case (Writer n)
    with Runs have "thread_writer ops n s = Some s'" using assms(2) by (auto simp: client_step_def split: main_pc.splits)
    then show ?thesis by (rule writer_step_entries [OF assms(1)])
  next
    case (Reader n)
    with Runs have "thread_reader ops n s = Some s'" using assms(2) by (auto simp: client_step_def split: main_pc.splits)
    then show ?thesis by (rule reader_step_entries [OF assms(1)])
  qed
qed

lemma client_run_entries:
  "entries_inv s \<Longrightarrow> client_run ops as s = Some s' \<Longrightarrow> entries_inv s' \<and> (sound s p \<longrightarrow> sound s' p)"
proof (induction as arbitrary: s)
  case (Cons a as)
  then obtain s1 where "client_step ops a s = Some s1" "client_run ops as s1 = Some s'"
    by (auto split: option.splits)
  with Cons client_step_entries [of s ops a s1 p] show ?case by blast
qed simp

section \<open>Properties\<close>

text \<open>
  C34: For every queue, whatever it does with its pointers, and in every interleaving: an entry
  that a writer is about to hand over is completely filled, with its number and the flag that
  marks the last one, and stays so, also when the other writer fills it again; a reader that
  gets this pointer prints a message numbered below 256 with flag 0, and ends exactly on the
  last entry.
\<close>

theorem client_entries_complete:
  assumes "client_run ops acts client_start = Some s" "writers s t = Some (W_enqueue p)"
    and "client_run ops rest s = Some s'"
  shows "p \<le> 256 \<and> (\<forall>z \<in> {s, s'}. test_data z p = \<lparr>seqnum = int p, flags = (if p < 256 then 0 else 1)\<rparr>) \<and>
    (readers s' r = Some (R_test p) \<and> main_at s' \<notin> range M_exit \<longrightarrow>
      (\<exists>z. client_step ops (Runs (Reader r)) s' = Some z \<and>
        printed z = printed s' @ [if p < 256 then Seqnum (int p) 0 else Done_reading] \<and>
        readers z r = Some (if p < 256 then R_wait else R_end)))"
proof -
  have "entries_inv client_start" by (simp add: entries_inv_def client_start_def)
  then have inv: "entries_inv s" using client_run_entries assms(1) by blast
  then have now: "sound s p" using assms(2) by (simp add: entries_inv_def)
  with client_run_entries [OF inv assms(3)] have later: "sound s' p" by blast
  have "client_step ops (Runs (Reader r)) s' = thread_reader ops r s'" if "main_at s' \<notin> range M_exit"
    using that by (auto simp: client_step_def split: main_pc.splits)
  then show ?thesis
    using now later reader_test_step [of s' r p ops] by (auto simp: sound_def)
qed

text \<open>
  with an ideal queue, one that satisfies \<open>fifo_ops\<close>: in every interleaving, also while the two
  pairs of threads share a queue, a reader prints only messages that a writer filled completely,
  numbered below 256 and with flag 0, and it ends only on a last message of its own: there are
  never more ended readers than ended writers.
\<close>

theorem client_messages_valid:
  assumes "fifo_ops ops items" "client_run ops acts client_start = Some s"
  shows "set (printed s) \<inter> {l. \<exists>n f. l = Seqnum n f} \<subseteq> {l. \<exists>n. l = Seqnum n 0 \<and> 0 \<le> n \<and> n < 256} \<and>
    card {t. readers s t = Some R_end} \<le> card {t. writers s t = Some W_end}"
proof -
  have inv: "client_inv items s" by (rule client_run_inv [OF assms(1) client_inv_start assms(2)])
  have "card {t. readers s t = Some R_end} \<le> last_taken s"
  proof -
    have "{t. readers s t = Some R_end} = {t \<in> {0, 1}. readers s t = Some R_end}"
      using thread_exists [of s] inv by (force simp: client_inv_def)
    moreover have "card {t \<in> {0, 1}. readers s t = Some R_end} =
        (\<Sum>t \<in> {0, 1}. if readers s t = Some R_end then 1 else 0)"
      by (simp add: sum.If_cases Int_def)
    moreover have "\<dots> \<le> last_taken s"
      unfolding last_taken_def by (rule sum_mono) auto
    ultimately show ?thesis by simp
  qed
  moreover have "last_sent s = card {t. writers s t = Some W_end}"
  proof -
    have "{t. writers s t = Some W_end} = {t \<in> {0, 1}. writers s t = Some W_end}"
      using thread_exists [of s] inv by (force simp: client_inv_def)
    moreover have "last_sent s = card {t \<in> {0, 1}. writers s t = Some W_end}"
      unfolding last_sent_def by (simp add: sum.If_cases Int_def)
    ultimately show ?thesis by simp
  qed
  ultimately show ?thesis
    using inv by (auto simp: client_inv_def count_inv_def sound_inv_def)
qed


text \<open>
  The set-up reports the error of each call on the attributes, except that every failure to
  set the stack size is reported as error 1.
\<close>

theorem client_setup_errors:
  "client_setup \<lparr>attr_init_rc = i, attr_setstacksize_rc = st, attr_setschedpolicy_rc = sp,
      attr_getschedpolicy = (g, p)\<rparr> [(CHR ''s'', arg)] =
    (let size = to_int32 (uint (strtoul arg 0)) in
     if i \<noteq> 0 then Inl (Client_error i ''pthread_attr_init'')
     else if size > 0 \<and> st size \<noteq> 0 then Inl (Client_error 1 ''pthread_attr_setstacksize'')
     else if sp SCHED_RR \<noteq> 0 then Inl (Client_error (sp SCHED_RR) ''pthread_attr_setschedpolicy'')
     else if g \<noteq> 0 then Inl (Client_error g ''pthread_attr_getschedpolicy'')
     else Inr (''wtfScheduling policy   = '' @ policy_name p))"
  by (simp add: client_setup_def Let_def)

section \<open>Witnesses\<close>

text \<open>A queue that is a list, of which the first 64 entries count.\<close>

definition list_queue :: "nat list queue_ops" where
  "list_queue = \<lparr>ring_createQueue = (\<lambda>n. []),
     ring_enqueue = (\<lambda>ps p. if length ps < 64 then (ps @ [p], True) else (ps, False)),
     ring_dequeue = (\<lambda>ps. case take 64 ps of [] \<Rightarrow> ([], None) | p # ps' \<Rightarrow> (ps', Some p))\<rparr>"

lemma list_queue_laws: "fifo_ops list_queue (take 64)" "queue_room list_queue"
proof -
  have short: "length ps' < 64" if "take 64 ps = p # ps'" for p :: nat and ps ps'
    using arg_cong [OF that, of length] by (simp add: min_def split: if_splits)
  show "fifo_ops list_queue (take 64)"
    using short by (fastforce simp: fifo_ops_def list_queue_def split: list.splits)
  show "queue_room list_queue"
    using short by (auto simp: queue_room_def list_queue_def split: list.splits)
qed

theorem client_messages_valid_witness:
  "\<exists>s. client_run list_queue [Main True, Main True, Main True, Runs (Writer 0), Runs (Writer 0),
       Runs (Reader 0), Runs (Reader 0)] client_start = Some s \<and> printed s = [Seqnum 0 0] \<and>
     card {t. readers s t = Some R_end} \<le> card {t. writers s t = Some W_end}"
proof -
  let ?acts = "[Main True, Main True, Main True, Runs (Writer 0), Runs (Writer 0),
       Runs (Reader 0), Runs (Reader 0)]"
  have "map_option printed (client_run list_queue ?acts client_start) = Some [Seqnum 0 0]" by code_simp
  then obtain s where s: "client_run list_queue ?acts client_start = Some s" "printed s = [Seqnum 0 0]"
    by auto
  then show ?thesis using client_messages_valid [OF list_queue_laws(1) s(1)] by blast
qed

text \<open>A queue that hands out the last pointer it was given, again and again.\<close>

definition sticky_queue :: "nat queue_ops" where
  "sticky_queue = \<lparr>ring_createQueue = (\<lambda>n. 0), ring_enqueue = (\<lambda>q p. (p, True)),
     ring_dequeue = (\<lambda>q. (q, Some q))\<rparr>"

theorem client_entries_complete_witness:
  "\<exists>s' z. client_run sticky_queue [Main True, Main True, Main True, Runs (Writer 0), Runs (Writer 0),
       Runs (Reader 0), Runs (Writer 0)] client_start = Some s' \<and>
     client_step sticky_queue (Runs (Reader 0)) s' = Some z \<and> printed z = printed s' @ [Seqnum 0 0]"
proof -
  let ?acts = "[Main True, Main True, Main True, Runs (Writer 0)]"
  let ?more = "[Runs (Writer 0), Runs (Reader 0), Runs (Writer 0)]"
  have "(case client_run sticky_queue ?acts client_start of None \<Rightarrow> False | Some s \<Rightarrow>
      writers s 0 = Some (W_enqueue 0) \<and>
      (case client_run sticky_queue ?more s of None \<Rightarrow> False | Some s' \<Rightarrow>
        readers s' 0 = Some (R_test 0) \<and> main_at s' = M_queue 1))" by code_simp
  then obtain s s' where run: "client_run sticky_queue ?acts client_start = Some s"
    "writers s 0 = Some (W_enqueue 0)" "client_run sticky_queue ?more s = Some s'"
    and reader: "readers s' 0 = Some (R_test 0)" "main_at s' = M_queue 1"
    by (auto split: option.splits)
  have "main_at s' \<notin> range M_exit" using reader(2) by auto
  with client_entries_complete [OF run, of 0] reader(1)
  obtain z where "client_step sticky_queue (Runs (Reader 0)) s' = Some z" "printed z = printed s' @ [Seqnum 0 0]"
    by auto
  moreover have "client_run sticky_queue (?acts @ ?more) client_start = Some s'"
    unfolding client_run_append using run(1,3) by simp
  ultimately show ?thesis by auto
qed


end
