(* ===== verification/Network.thy ===== *)
theory Network
  imports Prelude
begin

text \<open>
  \<open>network.c\<close>: opening a connected or bound socket, the texts of its error codes and the text of
  a peer's address. The header with the codes \<open>NL_*\<close> and \<open>BAD_SOCKET\<close> is not in the
  repository: they are parameters (\<open>netlib\<close>), and so are the answers of the system
  (\<open>net_os\<close>). The state is the list of calls that open or close a descriptor.
\<close>

section \<open>Definitions\<close>

datatype socktype = SOCK_STREAM | SOCK_DGRAM

record netlib =
  NL_NOSERVICE :: int
  NL_NOHOST :: int
  NL_NOPROTO :: int
  NL_NOSOCK :: int
  NL_NOSOCKOPT :: int
  NL_NOCONNECT :: int
  BAD_SOCKET :: "int \<Rightarrow> bool"

definition apostrophe :: string where "apostrophe = [char_of (39 :: int)]"

definition IPPROTO_TCP :: int where "IPPROTO_TCP = 6"
definition IPPROTO_UDP :: int where "IPPROTO_UDP = 17"

text \<open>What the call is asked for; \<open>hints\<close> of \<open>getaddrinfo\<close>.\<close>

record 'h hints =
  ai_family :: 'h
  ai_socktype :: socktype
  ai_protocol :: int
  ai_passive :: bool

text \<open>
  For the k-th address of the result: the descriptor that \<open>socket\<close> returns, and the return
  values of \<open>setsockopt\<close> and of \<open>bind\<close> or \<open>connect\<close>.
\<close>

record answers =
  a_socket :: int
  a_reuse :: int
  a_attach :: int

record 'h net_os =
  getprotobyname :: "string \<Rightarrow> int option"
  getaddrinfo :: "string \<Rightarrow> string \<Rightarrow> 'h hints \<Rightarrow> int + answers list"

datatype net_call = Opened int | Closed int | Attached int bool | Tuned int

definition netlib_type :: "string \<Rightarrow> socktype" where
  "netlib_type protocol = (if protocol = ''udp'' then SOCK_DGRAM else SOCK_STREAM)"

definition netlib_hints :: "'h net_os \<Rightarrow> 'h \<Rightarrow> string \<Rightarrow> 'h hints" where
  "netlib_hints os af protocol =
     (let ppe = getprotobyname os protocol;
          type = netlib_type protocol;
          proto = (case ppe of Some p \<Rightarrow> p
                   | None \<Rightarrow> if type = SOCK_DGRAM then IPPROTO_UDP else IPPROTO_TCP)
      in \<lparr>ai_family = af, ai_socktype = type, ai_protocol = proto, ai_passive = (type = SOCK_DGRAM)\<rparr>)"

text \<open>
  The loop over the addresses: \<open>ret\<close>, \<open>s\<close> (\<open>None\<close> before its first assignment) and the
  calls made. \<open>bind_me\<close> tells \<open>bind\<close> from \<open>connect\<close>.
\<close>

fun try_addresses :: "netlib \<Rightarrow> bool \<Rightarrow> answers list \<Rightarrow> int \<Rightarrow> int option \<Rightarrow> int \<times> int option \<times> net_call list" where
  "try_addresses nl bind_me [] ret s = (ret, s, [])"
| "try_addresses nl bind_me (rp # rps) ret s =
     (let s = a_socket rp;
          opened = (if s < 0 then [] else [Opened s]);
          closed = (if BAD_SOCKET nl s then [] else [Closed s])
      in if s < 0 then
           let (ret, s', calls) = try_addresses nl bind_me rps (NL_NOSOCK nl) (Some s)
           in (ret, s', opened @ closed @ calls)
         else if a_reuse rp = -1 then
           let (ret, s', calls) = try_addresses nl bind_me rps (NL_NOSOCKOPT nl) (Some s)
           in (ret, s', opened @ closed @ calls)
         else if a_attach rp = 0 then (0, Some s, opened @ [Attached s bind_me])
         else
           let (ret, s', calls) = try_addresses nl bind_me rps (NL_NOCONNECT nl) (Some s)
           in (ret, s', opened @ closed @ calls))"

text \<open>
  (returned value, calls made). The options set on a socket that is returned (low delay, no
  delay of TCP, not blocking) are the call \<open>Tuned\<close>; their results are ignored. Setting them
  on an \<open>s\<close> that was never assigned is a fault.
\<close>

definition netlib_connectsock ::
  "netlib \<Rightarrow> 'h net_os \<Rightarrow> 'h \<Rightarrow> string \<Rightarrow> string \<Rightarrow> string \<Rightarrow> (int \<times> net_call list) result" where
  "netlib_connectsock nl os af host service protocol =
     (let hints = netlib_hints os af protocol
      in case getaddrinfo os host service hints of
           Inl _ \<Rightarrow> Inr (NL_NOHOST nl, [])
         | Inr addresses \<Rightarrow>
             let (ret, s, calls) = try_addresses nl (ai_socktype hints = SOCK_DGRAM) addresses 0 None
             in if ret \<noteq> 0 then Inr (ret, calls)
                else (case s of None \<Rightarrow> Inl Uninitialised | Some s \<Rightarrow> Inr (s, calls @ [Tuned s])))"

definition netlib_errstr :: "netlib \<Rightarrow> int \<Rightarrow> string" where
  "netlib_errstr nl err =
     (if err = NL_NOSERVICE nl then ''can'' @ apostrophe @ ''t get service entry''
      else if err = NL_NOHOST nl then ''can'' @ apostrophe @ ''t get host entry''
      else if err = NL_NOPROTO nl then ''can'' @ apostrophe @ ''t get protocol entry''
      else if err = NL_NOSOCK nl then ''can'' @ apostrophe @ ''t create socket''
      else if err = NL_NOSOCKOPT nl then ''error SETSOCKOPT SO_REUSEADDR''
      else if err = NL_NOCONNECT nl then ''can'' @ apostrophe @ ''t connect to host/port pair''
      else ''unknown error'')"

text \<open>
  \<open>netlib_sock2ip\<close>: \<open>peer\<close> is the answer of \<open>getpeername\<close>, \<open>None\<close> for an error or the family
  and the bytes of the address; \<open>ntop\<close> is \<open>inet_ntop\<close>, \<open>None\<close> being NULL. The result is the
  text in the static buffer that is returned.
\<close>

definition netlib_sock2ip ::
  "(family \<Rightarrow> u8 list \<Rightarrow> string option) \<Rightarrow> (family \<times> u8 list) option \<Rightarrow> string" where
  "netlib_sock2ip ntop peer =
     (case peer of
        None \<Rightarrow> ''<unknown>''
      | Some (fam, addr) \<Rightarrow>
          if fam = AF_OTHER then ''<unknown AF>''
          else (case ntop fam addr of Some t \<Rightarrow> t | None \<Rightarrow> ''<unknown>''))"

section \<open>Descriptors left open\<close>

fun open_after :: "net_call list \<Rightarrow> int list \<Rightarrow> int list" where
  "open_after [] fds = fds"
| "open_after (Opened s # cs) fds = open_after cs (fds @ [s])"
| "open_after (Closed s # cs) fds = open_after cs (removeAll s fds)"
| "open_after (Attached s b # cs) fds = open_after cs fds"
| "open_after (Tuned s # cs) fds = open_after cs fds"

lemma open_after_append: "open_after (cs @ ds) fds = open_after ds (open_after cs fds)"
  by (induction cs fds rule: open_after.induct) simp_all

text \<open>
  What the code relies on of the missing header: the codes are errors, below 0, and
  \<open>BAD_SOCKET\<close> recognises what \<open>socket\<close> returns for an error.
\<close>

definition netlib_ok :: "netlib \<Rightarrow> bool" where
  "netlib_ok nl \<longleftrightarrow> NL_NOHOST nl < 0 \<and> NL_NOSOCK nl < 0 \<and> NL_NOSOCKOPT nl < 0 \<and>
     NL_NOCONNECT nl < 0 \<and> (\<forall>s. BAD_SOCKET nl s \<longleftrightarrow> s < 0)"

text \<open>An address that can be used, and the code of one that cannot.\<close>

definition usable :: "answers \<Rightarrow> bool" where
  "usable rp \<longleftrightarrow> 0 \<le> a_socket rp \<and> a_reuse rp \<noteq> -1 \<and> a_attach rp = 0"

definition failure_code :: "netlib \<Rightarrow> answers \<Rightarrow> int" where
  "failure_code nl rp =
     (if a_socket rp < 0 then NL_NOSOCK nl
      else if a_reuse rp = -1 then NL_NOSOCKOPT nl else NL_NOCONNECT nl)"

text \<open>The calls for addresses that cannot be used.\<close>

fun failed_calls :: "answers list \<Rightarrow> net_call list" where
  "failed_calls [] = []"
| "failed_calls (rp # rps) =
     (if a_socket rp < 0 then [] else [Opened (a_socket rp), Closed (a_socket rp)]) @ failed_calls rps"

lemma failed_calls_closed: "open_after (failed_calls rps) [] = []"
  by (induction rps) (auto simp: open_after_append)

lemma find_split:
  assumes "find P l = Some x"
  obtains xs ys where "l = xs @ x # ys" "\<forall>y \<in> set xs. \<not> P y" "P x"
proof -
  obtain i where i: "i < length l" "P (l ! i)" "x = l ! i" "\<forall>j < i. \<not> P (l ! j)"
    using assms by (auto simp: find_Some_iff)
  show ?thesis
  proof (rule that)
    show "l = take i l @ x # drop (Suc i) l" using i by (simp add: id_take_nth_drop [symmetric])
    show "\<forall>y \<in> set (take i l). \<not> P y" using i by (auto simp: in_set_conv_nth)
    show "P x" using i by simp
  qed
qed

lemma try_addresses_failed:
  assumes "netlib_ok nl" "\<forall>rp \<in> set rps. \<not> usable rp"
  shows "try_addresses nl b (rps @ rest) ret s =
    (let (ret', s', calls) = try_addresses nl b rest
           (if rps = [] then ret else failure_code nl (last rps))
           (if rps = [] then s else Some (a_socket (last rps)))
     in (ret', s', failed_calls rps @ calls))"
  using assms(2)
proof (induction rps arbitrary: ret s)
  case Nil
  then show ?case by (simp add: case_prod_beta)
next
  case (Cons rp rps)
  have "(if rps = [] then c else failure_code nl (last rps)) = failure_code nl (last (rp # rps))"
    "(if rps = [] then Some d else Some (a_socket (last rps))) = Some (a_socket (last (rp # rps)))"
    if "c = failure_code nl rp" "d = a_socket rp" for c d
    using that by simp_all
  then show ?case
    using Cons assms(1)
    by (auto simp: Let_def case_prod_beta usable_def netlib_ok_def failure_code_def)
qed

section \<open>Properties\<close>

text \<open>
  C33: \<open>netlib_connectsock\<close> tries the addresses in order up to the first that can be used and
  leaks no descriptor: it returns the one of that address, which alone is left open, or, when
  there is none, the code of the last failure (or of the look-up) with nothing left open.
\<close>

theorem netlib_connectsock_no_leak:
  assumes "netlib_ok nl"
    and "getaddrinfo os host service (netlib_hints os af protocol) = Inr addresses" "addresses \<noteq> []"
  shows "\<exists>ret calls. netlib_connectsock nl os af host service protocol = Inr (ret, calls) \<and>
    (case find usable addresses of
       Some rp \<Rightarrow> ret = a_socket rp \<and> open_after calls [] = [ret] \<and>
         Attached ret (protocol = ''udp'') \<in> set calls
     | None \<Rightarrow> ret = failure_code nl (last addresses) \<and> ret < 0 \<and> open_after calls [] = [])"
proof (cases "find usable addresses")
  case None
  then have bad: "\<forall>rp \<in> set addresses. \<not> usable rp" by (auto simp: find_None_iff)
  let ?b = "netlib_type protocol = SOCK_DGRAM"
  have "try_addresses nl ?b addresses 0 None =
      (failure_code nl (last addresses), Some (a_socket (last addresses)), failed_calls addresses)"
    using try_addresses_failed [OF assms(1) bad, of ?b "[]" 0 None] assms(3) by simp
  moreover have "failure_code nl (last addresses) < 0"
    using assms(1) by (simp add: failure_code_def netlib_ok_def)
  ultimately show ?thesis
    using None assms(2) failed_calls_closed
    by (simp add: netlib_connectsock_def netlib_hints_def Let_def)
next
  case (Some rp)
  then obtain xs ys where at: "addresses = xs @ rp # ys" "\<forall>x \<in> set xs. \<not> usable x" "usable rp"
    by (rule find_split)
  let ?b = "netlib_type protocol = SOCK_DGRAM"
  have "try_addresses nl ?b addresses 0 None =
      (0, Some (a_socket rp), failed_calls xs @ [Opened (a_socket rp), Attached (a_socket rp) ?b])"
    using try_addresses_failed [OF assms(1) at(2), of ?b "rp # ys" 0 None] at(3)
    by (simp add: at(1) usable_def Let_def)
  then have "netlib_connectsock nl os af host service protocol =
      Inr (a_socket rp, failed_calls xs @ [Opened (a_socket rp), Attached (a_socket rp) ?b, Tuned (a_socket rp)])"
    using assms(2) by (simp add: netlib_connectsock_def netlib_hints_def Let_def)
  then show ?thesis
    using Some by (simp add: open_after_append failed_calls_closed netlib_type_def)
qed

section \<open>Witnesses\<close>

definition gpsd_codes :: netlib where
  "gpsd_codes = \<lparr>NL_NOSERVICE = -1, NL_NOHOST = -2, NL_NOPROTO = -3, NL_NOSOCK = -4,
     NL_NOSOCKOPT = -5, NL_NOCONNECT = -6, BAD_SOCKET = (\<lambda>s. s < 0)\<rparr>"

definition two_addresses :: "family net_os" where
  "two_addresses = \<lparr>getprotobyname = (\<lambda>_. None),
     getaddrinfo = (\<lambda>_ _ _. Inr [\<lparr>a_socket = 3, a_reuse = 0, a_attach = -1\<rparr>,
                                  \<lparr>a_socket = 3, a_reuse = 0, a_attach = 0\<rparr>])\<rparr>"

theorem netlib_connectsock_no_leak_witness:
  "\<exists>calls. netlib_connectsock gpsd_codes two_addresses AF_INET ''localhost'' ''2947'' ''tcp'' = Inr (3, calls) \<and>
     open_after calls [] = [3]"
  using netlib_connectsock_no_leak [of gpsd_codes two_addresses "''localhost''" "''2947''" AF_INET "''tcp''"
      "[\<lparr>a_socket = 3, a_reuse = 0, a_attach = -1\<rparr>, \<lparr>a_socket = 3, a_reuse = 0, a_attach = 0\<rparr>]"]
  by (auto simp: netlib_ok_def gpsd_codes_def two_addresses_def usable_def)

end
