(* ===== verification/Protocol.thy ===== *)
theory Protocol
  imports Prelude
begin

text \<open>
  The packet parser of \<open>protocol.c\<close>. A pointer into the packet is its offset, an \<open>int\<close>; a read
  outside the packet is a fault. The loop is a partial function: \<open>None\<close> means that it does
  not end.
\<close>

section \<open>Definitions\<close>

datatype TWD_protocol =
    PAD | PADN | RANDN | NONCE | ATIME | REGISTER | COUNTERPROPOSAL
  | PROBE | PROBEACK | LSEEN | CPU | LOSSRECORD | TOSRECORD | CLOSEWAIT | CLOSE

definition protocol_codes :: "(TWD_protocol \<times> u8) list" where
  "protocol_codes =
     [(PAD, 0), (PADN, 1), (RANDN, 2), (NONCE, 3), (ATIME, 4), (REGISTER, 5), (COUNTERPROPOSAL, 6),
      (PROBE, 7), (PROBEACK, 8), (LSEEN, 9), (CPU, 10), (LOSSRECORD, 11), (TOSRECORD, 12),
      (CLOSEWAIT, 254), (CLOSE, 255)]"

definition message_type :: "u8 \<Rightarrow> TWD_protocol option" where
  "message_type b = map_of (map (\<lambda>(t, c). (c, t)) protocol_codes) b"

text \<open>
  The functions \<open>parse_NONCE\<close> to \<open>parse_CLOSE\<close>: all have the same body.
\<close>

definition parse_message :: "TWD_protocol \<Rightarrow> u8 list \<Rightarrow> u8 \<Rightarrow> bool" where
  "parse_message t b n = False"

definition byte_of :: "u8 list \<Rightarrow> int \<Rightarrow> u8 result" where
  "byte_of p i = (if 0 \<le> i \<and> i < int (length p) then Inr (p ! nat i) else Inl OutOfBounds)"

text \<open>\<open>doADV(b)\<close>, and \<open>doIT(T)\<close> with the new value of \<open>rc\<close>.\<close>

definition doADV :: "u8 list \<Rightarrow> int \<Rightarrow> int result" where
  "doADV p bytes = bind_r (byte_of p bytes) (\<lambda>b. Inr (bytes + uint b))"

definition doIT :: "TWD_protocol \<Rightarrow> u8 list \<Rightarrow> int \<Rightarrow> (int \<times> int) result" where
  "doIT t p bytes =
     bind_r (byte_of p bytes) (\<lambda>b.
       let rc = (if parse_message t (drop (nat bytes) p) b then 1 else 0)
       in bind_r (doADV p bytes) (\<lambda>bytes. Inr (bytes, rc)))"

text \<open>The body of the loop: \<open>bytes\<close> and \<open>rc\<close> after it.\<close>

definition packet_step :: "u8 list \<Rightarrow> int \<times> int \<Rightarrow> (int \<times> int) result" where
  "packet_step p s =
     (let (bytes, rc) = s in
      bind_r (byte_of p bytes) (\<lambda>b.
        case message_type b of
          None \<Rightarrow> Inr (bytes, rc)
        | Some PAD \<Rightarrow> Inr (bytes + 1, rc)
        | Some PADN \<Rightarrow> bind_r (doADV p bytes) (\<lambda>bytes. Inr (bytes, rc))
        | Some RANDN \<Rightarrow> bind_r (doADV p bytes) (\<lambda>bytes. Inr (bytes, rc))
        | Some t \<Rightarrow> doIT t p bytes))"

text \<open>
  The loop while \<open>bytes\<close> is below \<open>limit\<close>; the warnings it prints for \<open>rc\<close> other than 0 are
  counted.
\<close>

partial_function (option) packet_loop ::
  "int \<Rightarrow> u8 list \<Rightarrow> int \<times> int \<Rightarrow> nat \<Rightarrow> (int \<times> nat) result option" where
  "packet_loop limit p s warnings =
     (if fst s < limit
      then (case packet_step p s of
              Inl e \<Rightarrow> Some (Inl e)
            | Inr s' \<Rightarrow> packet_loop limit p s' (if snd s' \<noteq> 0 then warnings + 1 else warnings))
      else Some (Inr (fst s, warnings)))"

text \<open>\<open>parse_packet\<close>: its condition compares \<open>bytes\<close> with the start of the packet, offset 0.\<close>

definition parse_packet :: "u8 list \<Rightarrow> (int \<times> nat) result option" where
  "parse_packet p = packet_loop 0 p (0, 0) 0"

section \<open>Lemmas\<close>

lemma message_type_code:
  "message_type b = Some t \<longleftrightarrow> (t, b) \<in> set protocol_codes"
proof -
  have "distinct (map fst (map (\<lambda>(t, c). (c, t)) protocol_codes))" by code_simp
  then have "message_type b = Some t \<longleftrightarrow> (b, t) \<in> set (map (\<lambda>(t, c). (c, t)) protocol_codes)"
    unfolding message_type_def by (rule map_of_eq_Some_iff)
  then show ?thesis by auto
qed

lemma packet_step_value:
  assumes "0 \<le> bytes" "bytes < int (length p)" "b = p ! nat bytes"
  shows "packet_step p (bytes, 0) =
    Inr (bytes + (if message_type b = None then 0 else if b = 0 then 1 else uint b), 0)"
proof (cases "message_type b")
  case None
  then show ?thesis using assms by (simp add: packet_step_def byte_of_def)
next
  case (Some t)
  then have "(t, b) \<in> set protocol_codes" by (simp add: message_type_code)
  then show ?thesis
    using assms Some
    by (cases t) (auto simp: protocol_codes_def packet_step_def doIT_def doADV_def byte_of_def
        parse_message_def)
qed

lemma packet_loop_leaves:
  assumes "packet_loop lim q s n = Some r" and stuck: "packet_step p s0 = Inr s0" "fst s0 < limit"
  shows "lim = limit \<longrightarrow> q = p \<longrightarrow> s \<noteq> s0"
proof (rule packet_loop.raw_induct
    [where P = "\<lambda>lim q s n r. lim = limit \<longrightarrow> q = p \<longrightarrow> s \<noteq> s0", OF _ assms(1)])
  fix loop lim q s n r
  assume IH: "\<And>lim q s n r. loop lim q s n = Some r \<Longrightarrow> lim = limit \<longrightarrow> q = p \<longrightarrow> s \<noteq> s0"
    and body: "(if fst s < lim
      then case packet_step q s of Inl e \<Rightarrow> Some (Inl e)
           | Inr s' \<Rightarrow> loop lim q s' (if snd s' \<noteq> 0 then n + 1 else n)
      else Some (Inr (fst s, n))) = Some r"
  show "lim = limit \<longrightarrow> q = p \<longrightarrow> s \<noteq> s0"
  proof (intro impI notI)
    assume at: "lim = limit" "q = p" "s = s0"
    with body stuck have "loop limit p s0 (if snd s0 \<noteq> 0 then n + 1 else n) = Some r" by simp
    from IH [OF this] show False by simp
  qed
qed

lemma packet_loop_stuck:
  assumes "packet_step p s = Inr s" "fst s < limit"
  shows "packet_loop limit p s n = None"
  using packet_loop_leaves [of limit p s n _ p s limit] assms
  by (cases "packet_loop limit p s n") blast+

section \<open>Properties\<close>

text \<open>
  \<open>parse_packet\<close> returns at once for every packet, without reading a byte of it.
\<close>

theorem parse_packet_ignores_packet:
  "parse_packet p = Some (Inr (0, 0))"
  by (simp add: parse_packet_def packet_loop.simps)

text \<open>
  The body of the loop on a byte of the packet: it moves on by one byte of padding and, for
  every other message, by the number that is its type; a byte that is no type leaves it where
  it is, so that the loop does not end under any condition that lets it start there.
\<close>

theorem packet_step_moves:
  assumes "0 \<le> bytes" "bytes < int (length p)" "b = p ! nat bytes"
  shows "packet_step p (bytes, 0) =
      Inr (bytes + (if b \<in> snd ` set protocol_codes then if b = 0 then 1 else uint b else 0), 0) \<and>
    (bytes < limit \<and> b \<notin> snd ` set protocol_codes \<longrightarrow> packet_loop limit p (bytes, 0) n = None)"
proof -
  have known: "b \<in> snd ` set protocol_codes \<longleftrightarrow> message_type b \<noteq> None"
    by (force simp: image_iff message_type_code)
  show ?thesis
    unfolding known using packet_step_value [OF assms] packet_loop_stuck [of p "(bytes, 0)" limit n] by auto
qed

section \<open>Witnesses\<close>

theorem packet_step_moves_witness:
  "packet_loop 1 [100] (0, 0) 0 = None"
proof -
  have "(100 :: u8) \<notin> snd ` set protocol_codes" by code_simp
  then show ?thesis using packet_step_moves [of 0 "[100]" 100 1 0] by simp
qed

end
