(* ===== verification/Formats.thy ===== *)
theory Formats
  imports Prelude
begin

text \<open>
  The layouts of \<open>protocol.h\<close> and \<open>packet.h\<close>: bit-fields and the unions that give a second
  view of the same bytes. A bit-field of w bits is a \<open>w word\<close>. On the little-endian
  machines the program is built for, gcc and clang put the first one in the lowest bits.
\<close>

section \<open>protocol.h\<close>

record ACKS =
  ack_dt :: "30 word"
  ack_ecn :: "1 word"
  ack_loss :: "1 word"

definition ACKS_store :: "ACKS \<Rightarrow> u32" where
  "ACKS_store a = ucast (ack_dt a) OR push_bit 30 (ucast (ack_ecn a)) OR push_bit 31 (ucast (ack_loss a))"

definition ACKS_load :: "u32 \<Rightarrow> ACKS" where
  "ACKS_load w = \<lparr>ack_dt = ucast w, ack_ecn = ucast (drop_bit 30 w), ack_loss = ucast (drop_bit 31 w)\<rparr>"

record seqnum_s =
  sn_seqnum :: "24 word"
  sn_flags :: "8 word"

definition seqnum_store :: "seqnum_s \<Rightarrow> u32" where
  "seqnum_store s = ucast (sn_seqnum s) OR push_bit 24 (ucast (sn_flags s))"

definition seqnum_load :: "u32 \<Rightarrow> seqnum_s" where
  "seqnum_load w = \<lparr>sn_seqnum = ucast w, sn_flags = ucast (drop_bit 24 w)\<rparr>"

text \<open>
  \<open>struct wire_acks\<close> (and \<open>struct internal_acks\<close>, which has the same fields): the union
  \<open>ts\<close> is one word, read as \<open>ts.dt\<close> or as \<open>ts.ack\<close>.
\<close>

record wire_acks =
  wa_seqnum :: u32
  wa_ts :: u32
  wa_flags :: u32

definition ts_dt :: "wire_acks \<Rightarrow> u32" where "ts_dt w = wa_ts w"

definition ts_ack :: "wire_acks \<Rightarrow> ACKS" where "ts_ack w = ACKS_load (wa_ts w)"

definition set_ts_ack :: "wire_acks \<Rightarrow> ACKS \<Rightarrow> wire_acks" where
  "set_ts_ack w a = w\<lparr>wa_ts := ACKS_store a\<rparr>"

section \<open>packet.h\<close>

text \<open>\<open>dscp_t\<close>: six bits \<open>tos\<close>, then two bits \<open>ecn\<close>; \<open>tos_t\<close> overlays it on the byte \<open>tos\<close>.\<close>

record dscp_t =
  d_tos :: "6 word"
  d_ecn :: "2 word"

definition tos_dscp :: "u8 \<Rightarrow> dscp_t" where
  "tos_dscp tos = \<lparr>d_tos = ucast tos, d_ecn = ucast (drop_bit 6 tos)\<rparr>"

definition dscp_tos :: "dscp_t \<Rightarrow> u8" where
  "dscp_tos d = ucast (d_tos d) OR push_bit 6 (ucast (d_ecn d))"

definition ISECNMARK :: "u8 \<Rightarrow> u8" where "ISECNMARK a = a AND 2"

definition ISECNSEEN :: "u8 \<Rightarrow> u8" where "ISECNSEEN a = a AND 3"

text \<open>The type-of-service byte of a packet: code point in the upper six bits, ECN below (RFC 3168).\<close>

definition wire_tos :: "6 word \<Rightarrow> 2 word \<Rightarrow> u8" where
  "wire_tos dscp ecn = push_bit 2 (ucast dscp) OR ucast ecn"

section \<open>Lemmas\<close>

lemma field_bits: "LENGTH('a :: len) \<le> n \<Longrightarrow> \<not> bit (w :: 'a word) n"
  using bit_imp_le_length [of w n] by auto

lemma ACKS_load_store: "ACKS_load (ACKS_store a) = a"
proof -
  have "ucast (ACKS_store a) = ack_dt a" "ucast (drop_bit 30 (ACKS_store a)) = ack_ecn a"
    "ucast (drop_bit 31 (ACKS_store a)) = ack_loss a"
    by (rule bit_word_eqI; simp add: ACKS_store_def bit_simps field_bits)+
  then show ?thesis by (simp add: ACKS_load_def)
qed

lemma ACKS_store_load: "ACKS_store (ACKS_load w) = w"
proof (rule bit_word_eqI)
  fix n assume "n < LENGTH(32)"
  then have "n < 30 \<or> n = 30 \<or> n = 31" by auto
  then show "bit (ACKS_store (ACKS_load w)) n = bit w n"
    by (elim disjE) (simp_all add: ACKS_store_def ACKS_load_def bit_simps del: bit_0)
qed

lemma seqnum_load_store: "seqnum_load (seqnum_store s) = s"
proof -
  have "ucast (seqnum_store s) = sn_seqnum s" "ucast (drop_bit 24 (seqnum_store s)) = sn_flags s"
    by (rule bit_word_eqI; simp add: seqnum_store_def bit_simps field_bits)+
  then show ?thesis by (simp add: seqnum_load_def)
qed

lemma seqnum_store_load: "seqnum_store (seqnum_load w) = w"
  by (rule bit_word_eqI) (auto simp: seqnum_store_def seqnum_load_def bit_simps)

lemma field_1_zero: "(w :: 1 word) = 0 \<longleftrightarrow> \<not> bit w 0"
proof
  assume "\<not> bit w 0"
  then show "w = 0" by (intro bit_word_eqI) (auto simp del: bit_0)
qed simp

section \<open>Properties\<close>

text \<open>
  every word is the layout of exactly one record of acknowledgement fields and of
  one numbered record, and fields are read back unchanged. The word is at the same time
  the time in \<open>ts.dt\<close> exactly when neither \<open>ecn\<close> nor \<open>loss\<close> is set.
\<close>

theorem ack_layout_roundtrip:
  "ACKS_store (ACKS_load w) = w \<and> ts_ack (set_ts_ack r a) = a \<and>
   seqnum_store (seqnum_load w) = w \<and> seqnum_load (seqnum_store s) = s \<and>
   (ts_dt r = ucast (ack_dt (ts_ack r))) = (ack_ecn (ts_ack r) = 0 \<and> ack_loss (ts_ack r) = 0)"
proof -
  have "(wa_ts r = ucast (ucast (wa_ts r) :: 30 word)) \<longleftrightarrow> \<not> bit (wa_ts r) 30 \<and> \<not> bit (wa_ts r) 31"
  proof
    assume eq: "wa_ts r = ucast (ucast (wa_ts r) :: 30 word)"
    have "\<not> bit (ucast (ucast (wa_ts r) :: 30 word) :: u32) 30"
      "\<not> bit (ucast (ucast (wa_ts r) :: 30 word) :: u32) 31"
      by (simp_all add: bit_simps)
    then show "\<not> bit (wa_ts r) 30 \<and> \<not> bit (wa_ts r) 31" by (simp flip: eq)
  next
    assume b: "\<not> bit (wa_ts r) 30 \<and> \<not> bit (wa_ts r) 31"
    show "wa_ts r = ucast (ucast (wa_ts r) :: 30 word)"
    proof (rule bit_word_eqI)
      fix n assume "n < LENGTH(32)"
      then have "n < 30 \<or> n = 30 \<or> n = 31" by auto
      with b show "bit (wa_ts r) n = bit (ucast (ucast (wa_ts r) :: 30 word) :: u32) n"
        by (auto simp: bit_simps)
    qed
  qed
  moreover have "ack_dt (ACKS_load v) = ucast v" "ack_ecn (ACKS_load v) = 0 \<longleftrightarrow> \<not> bit v 30"
    "ack_loss (ACKS_load v) = 0 \<longleftrightarrow> \<not> bit v 31" for v
    by (simp_all add: ACKS_load_def field_1_zero bit_simps del: bit_0)
  ultimately show ?thesis
    by (simp add: ACKS_store_load seqnum_store_load ACKS_load_store seqnum_load_store ts_ack_def
        set_ts_ack_def ts_dt_def)
qed

text \<open>
  for the byte of a packet, \<open>ISECNSEEN\<close> is its ECN field and \<open>ISECNMARK\<close> is nonzero
  for a congestion mark (3) but also for \<open>ECT(0)\<close> (2), which is not one. The bit-fields
  of \<open>tos_t\<close> do not agree with the packet: \<open>dscp.ecn\<close> is the upper third of the code
  point, and the ECN field is in the low bits of \<open>dscp.tos\<close>.
\<close>

theorem tos_fields:
  "ISECNSEEN (wire_tos dscp ecn) = ucast ecn \<and>
   (ISECNMARK (wire_tos dscp ecn) \<noteq> 0) = (ecn = 2 \<or> ecn = 3) \<and>
   d_ecn (tos_dscp (wire_tos dscp ecn)) = ucast (drop_bit 4 dscp) \<and>
   d_tos (tos_dscp (wire_tos dscp ecn)) = push_bit 2 dscp OR ucast ecn \<and>
   dscp_tos (tos_dscp b) = b"
proof (intro conjI)
  have three: "(3 :: u8) = mask 2" by (simp add: mask_eq_exp_minus_1)
  show "ISECNSEEN (wire_tos dscp ecn) = ucast ecn"
    unfolding ISECNSEEN_def three
    by (rule bit_word_eqI) (auto simp: wire_tos_def bit_simps dest: bit_imp_le_length)
  have "ISECNMARK (wire_tos dscp ecn) = ucast ecn AND 2"
  proof -
    have two: "(2 :: u8) = push_bit 1 1" by simp
    show ?thesis
      unfolding ISECNMARK_def two
      by (rule bit_word_eqI) (auto simp: wire_tos_def bit_simps)
  qed
  moreover have "ecn = 0 \<or> ecn = 1 \<or> ecn = 2 \<or> ecn = 3"
  proof -
    have "unat ecn < 2 ^ LENGTH(2)" by (rule unsigned_less)
    then have "unat ecn < 4" by simp
    then have "unat ecn = 0 \<or> unat ecn = 1 \<or> unat ecn = 2 \<or> unat ecn = 3" by linarith
    then show ?thesis by (simp add: word_unat_eq_iff)
  qed
  ultimately show "(ISECNMARK (wire_tos dscp ecn) \<noteq> 0) = (ecn = 2 \<or> ecn = 3)" by auto
  show "d_ecn (tos_dscp (wire_tos dscp ecn)) = ucast (drop_bit 4 dscp)"
    by (simp add: tos_dscp_def, rule bit_word_eqI) (auto simp: wire_tos_def bit_simps field_bits)
  show "d_tos (tos_dscp (wire_tos dscp ecn)) = push_bit 2 dscp OR ucast ecn"
    by (simp add: tos_dscp_def, rule bit_word_eqI) (auto simp: wire_tos_def bit_simps)
  show "dscp_tos (tos_dscp b) = b"
    by (rule bit_word_eqI) (auto simp: dscp_tos_def tos_dscp_def bit_simps)
qed

end
