(* ===== verification/Sieve.thy ===== *)
theory Sieve
  imports Prelude
begin

text \<open>
  The bit array macros of \<open>bits.h\<close> and the program in the same file that uses them, a
  sieve of Eratosthenes. The array of \<open>char\<close> is a list of bytes; an access beyond it is
  a fault. \<open>bit_array\<close> is the contract of such an array.
\<close>

section \<open>Definitions\<close>

definition CHAR_BIT :: nat where "CHAR_BIT = 8"

definition BITMASK :: "nat \<Rightarrow> u8" where
  "BITMASK b = push_bit (b mod CHAR_BIT) 1"

definition BITSLOT :: "nat \<Rightarrow> nat" where
  "BITSLOT b = b div CHAR_BIT"

definition BITSET :: "u8 list \<Rightarrow> nat \<Rightarrow> u8 list result" where
  "BITSET a b =
     (if BITSLOT b < length a then Inr (a[BITSLOT b := a ! BITSLOT b OR BITMASK b]) else Inl OutOfBounds)"

definition BITCLEAR :: "u8 list \<Rightarrow> nat \<Rightarrow> u8 list result" where
  "BITCLEAR a b =
     (if BITSLOT b < length a then Inr (a[BITSLOT b := a ! BITSLOT b AND NOT (BITMASK b)])
      else Inl OutOfBounds)"

definition BITTEST :: "u8 list \<Rightarrow> nat \<Rightarrow> bool result" where
  "BITTEST a b =
     (if BITSLOT b < length a then Inr (a ! BITSLOT b AND BITMASK b \<noteq> 0) else Inl OutOfBounds)"

definition BITNSLOTS :: "nat \<Rightarrow> nat" where
  "BITNSLOTS nb = (nb + CHAR_BIT - 1) div CHAR_BIT"

definition SIEVE_MAX :: nat where "SIEVE_MAX = 10000"

text \<open>
  The inner loop, \<open>for(; j < limit; j += i) BITSET(bitarray,j)\<close>. The step \<open>i\<close> is at least 2
  in the program; for 0 the loop does not end in C, and the model does not enter it.
\<close>

function mark_multiples :: "nat \<Rightarrow> nat \<Rightarrow> nat \<Rightarrow> u8 list \<Rightarrow> u8 list result" where
  "mark_multiples i j limit a =
     (if j < limit \<and> 0 < i
      then (case BITSET a j of Inl e \<Rightarrow> Inl e | Inr a' \<Rightarrow> mark_multiples i (j + i) limit a')
      else Inr a)"
  by pat_completeness auto

termination
  by (relation "measure (\<lambda>(i, j, limit, a). limit - j)") auto

declare mark_multiples.simps [simp del]

text \<open>The outer loop: the numbers that are printed.\<close>

function sieve_from :: "nat \<Rightarrow> nat \<Rightarrow> u8 list \<Rightarrow> nat list result" where
  "sieve_from i limit a =
     (if i < limit then
        (case BITTEST a i of
           Inl e \<Rightarrow> Inl e
         | Inr True \<Rightarrow> sieve_from (i + 1) limit a
         | Inr False \<Rightarrow>
             (case mark_multiples i (i + i) limit a of
                Inl e \<Rightarrow> Inl e
              | Inr a' \<Rightarrow> bind_r (sieve_from (i + 1) limit a') (\<lambda>ps. Inr (i # ps))))
      else Inr [])"
  by pat_completeness auto

termination
  by (relation "measure (\<lambda>(i, limit, a). limit - i)") auto

declare sieve_from.simps [simp del]

text \<open>\<open>main\<close> with the bound as a parameter; the program runs \<open>sieve_main SIEVE_MAX\<close>.\<close>

definition sieve_main :: "nat \<Rightarrow> nat list result" where
  "sieve_main limit = sieve_from 2 limit (replicate (BITNSLOTS limit) 0)"

section \<open>The contract of a bit array\<close>

locale bit_array =
  fixes set_bit clear_bit :: "'a \<Rightarrow> nat \<Rightarrow> 'a result"
    and test_bit :: "'a \<Rightarrow> nat \<Rightarrow> bool result"
    and nbits :: "'a \<Rightarrow> nat"
  assumes set_law: "b < nbits a \<Longrightarrow> \<exists>a'. set_bit a b = Inr a' \<and> nbits a' = nbits a \<and>
      (\<forall>c < nbits a. test_bit a' c = (if c = b then Inr True else test_bit a c))"
    and clear_law: "b < nbits a \<Longrightarrow> \<exists>a'. clear_bit a b = Inr a' \<and> nbits a' = nbits a \<and>
      (\<forall>c < nbits a. test_bit a' c = (if c = b then Inr False else test_bit a c))"
    and test_law: "b < nbits a \<Longrightarrow> \<exists>v. test_bit a b = Inr v"
    and bounds_law: "\<not> b < nbits a \<Longrightarrow> set_bit a b = Inl OutOfBounds \<and> test_bit a b = Inl OutOfBounds"
begin

definition members :: "'a \<Rightarrow> nat set" where
  "members a = {b. b < nbits a \<and> test_bit a b = Inr True}"

lemma test_members: "b < nbits a \<Longrightarrow> test_bit a b = Inr (b \<in> members a)"
  using test_law [of b a] by (auto simp: members_def)

lemma set_members:
  assumes "b < nbits a"
  obtains a' where "set_bit a b = Inr a'" "nbits a' = nbits a" "members a' = insert b (members a)"
proof -
  obtain a' where a': "set_bit a b = Inr a'" "nbits a' = nbits a"
    "\<forall>c < nbits a. test_bit a' c = (if c = b then Inr True else test_bit a c)"
    using set_law [OF assms] by blast
  moreover from this assms have "members a' = insert b (members a)"
    by (auto simp: members_def split: if_splits)
  ultimately show ?thesis by (intro that)
qed

lemma clear_members:
  assumes "b < nbits a"
  obtains a' where "clear_bit a b = Inr a'" "nbits a' = nbits a" "members a' = members a - {b}"
proof -
  obtain a' where a': "clear_bit a b = Inr a'" "nbits a' = nbits a"
    "\<forall>c < nbits a. test_bit a' c = (if c = b then Inr False else test_bit a c)"
    using clear_law [OF assms] by blast
  moreover from this assms have "members a' = members a - {b}"
    by (auto simp: members_def split: if_splits)
  ultimately show ?thesis by (intro that)
qed

end

section \<open>The macros keep it\<close>

definition capacity :: "u8 list \<Rightarrow> nat" where
  "capacity a = CHAR_BIT * length a"

lemma slot_in: "b < capacity a \<longleftrightarrow> BITSLOT b < length a"
  by (auto simp: capacity_def BITSLOT_def CHAR_BIT_def)

lemma test_is_bit: "x AND BITMASK b \<noteq> 0 \<longleftrightarrow> bit x (b mod CHAR_BIT)"
  using and_exp_eq_0_iff_not_bit [of x "b mod CHAR_BIT"] by (simp add: BITMASK_def push_bit_eq_mult)

lemma BITTEST_bit:
  "b < capacity a \<Longrightarrow> BITTEST a b = Inr (bit (a ! BITSLOT b) (b mod CHAR_BIT))"
  unfolding slot_in BITTEST_def test_is_bit by simp

lemma bit_mask: "k < 8 \<Longrightarrow> bit (BITMASK b) k \<longleftrightarrow> k = b mod CHAR_BIT"
  by (auto simp: BITMASK_def CHAR_BIT_def bit_exp_iff)

lemma same_bit: "BITSLOT b = BITSLOT c \<Longrightarrow> b mod CHAR_BIT = c mod CHAR_BIT \<longleftrightarrow> b = c"
  unfolding BITSLOT_def by (metis div_mult_mod_eq)

interpretation bits: bit_array BITSET BITCLEAR BITTEST capacity
proof unfold_locales
  fix b a
  assume b: "b < capacity a"
  have lt: "c mod CHAR_BIT < 8" for c by (simp add: CHAR_BIT_def)
  have upd: "BITTEST (a[BITSLOT b := v]) c =
      (if BITSLOT c = BITSLOT b then Inr (bit v (c mod CHAR_BIT)) else BITTEST a c)"
    if "c < capacity a" for c v
    using that b b [unfolded slot_in] by (subst BITTEST_bit) (auto simp: capacity_def BITTEST_bit)
  have all: "\<forall>c < capacity a. BITTEST (a[BITSLOT b := v]) c = (if c = b then Inr t else BITTEST a c)"
    if "\<And>k. k < 8 \<Longrightarrow> bit v k = (if k = b mod CHAR_BIT then t else bit (a ! BITSLOT b) k)" for v t
  proof (intro allI impI)
    fix c
    assume c: "c < capacity a"
    show "BITTEST (a[BITSLOT b := v]) c = (if c = b then Inr t else BITTEST a c)"
      unfolding upd [OF c] using that [OF lt [of c]] same_bit [of c b] BITTEST_bit [OF c] by auto
  qed
  show "\<exists>a'. BITSET a b = Inr a' \<and> capacity a' = capacity a \<and>
      (\<forall>c < capacity a. BITTEST a' c = (if c = b then Inr True else BITTEST a c))"
    using all [of "a ! BITSLOT b OR BITMASK b" True] b
    by (simp add: BITSET_def slot_in bit_or_iff bit_mask) (simp add: capacity_def)
  show "\<exists>a'. BITCLEAR a b = Inr a' \<and> capacity a' = capacity a \<and>
      (\<forall>c < capacity a. BITTEST a' c = (if c = b then Inr False else BITTEST a c))"
    using all [of "a ! BITSLOT b AND NOT (BITMASK b)" False] b
    by (simp add: BITCLEAR_def slot_in bit_and_iff bit_not_iff bit_mask) (simp add: capacity_def)
  show "\<exists>v. BITTEST a b = Inr v"
    using b by (simp add: BITTEST_bit)
next
  fix b a
  assume "\<not> b < capacity a"
  then show "BITSET a b = Inl OutOfBounds \<and> BITTEST a b = Inl OutOfBounds"
    by (simp add: slot_in BITSET_def BITTEST_def)
qed

section \<open>The sieve\<close>

lemma mark_multiples_members:
  assumes "0 < i" "i dvd j" "limit \<le> capacity a"
  shows "\<exists>a'. mark_multiples i j limit a = Inr a' \<and> capacity a' = capacity a \<and>
    bits.members a' = bits.members a \<union> {m. i dvd m \<and> j \<le> m \<and> m < limit}"
  using assms
proof (induction i j limit a rule: mark_multiples.induct)
  case (1 i j limit a)
  show ?case
  proof (cases "j < limit")
    case True
    then obtain a1 where a1: "BITSET a j = Inr a1" "capacity a1 = capacity a"
      "bits.members a1 = insert j (bits.members a)"
      using bits.set_members [of j a] "1.prems"(3) by auto
    have "\<exists>a'. mark_multiples i (j + i) limit a1 = Inr a' \<and> capacity a' = capacity a1 \<and>
        bits.members a' = bits.members a1 \<union> {m. i dvd m \<and> j + i \<le> m \<and> m < limit}"
      using True a1 "1.prems" by (intro "1.IH") simp_all
    moreover have "{m. i dvd m \<and> j \<le> m \<and> m < limit} = insert j {m. i dvd m \<and> j + i \<le> m \<and> m < limit}"
    proof -
      have "m = j \<or> j + i \<le> m" if m: "i dvd m" "j \<le> m" for m
      proof -
        obtain x y where xy: "m = i * x" "j = i * y"
          using dvdE [OF m(1)] dvdE [OF "1.prems"(2)] by metis
        show ?thesis
        proof (cases "x \<le> y")
          case True
          then have "m \<le> j" using xy by simp
          with m(2) show ?thesis by simp
        next
          case False
          then have "i * (y + 1) \<le> i * x" by (intro mult_le_mono2) simp
          with xy show ?thesis by simp
        qed
      qed
      then have "m \<in> {m. i dvd m \<and> j \<le> m \<and> m < limit} \<longleftrightarrow>
          m = j \<or> m \<in> {m. i dvd m \<and> j + i \<le> m \<and> m < limit}" for m
        using "1.prems"(2) True by fastforce
      then show ?thesis by blast
    qed
    moreover have "mark_multiples i j limit a = mark_multiples i (j + i) limit a1"
      using True a1(1) "1.prems"(1) by (subst mark_multiples.simps) simp
    ultimately show ?thesis using a1(2,3) by auto
  next
    case False
    then have "mark_multiples i j limit a = Inr a" by (subst mark_multiples.simps) simp
    with False show ?thesis by auto
  qed
qed

definition prime_number :: "nat \<Rightarrow> bool" where
  "prime_number n \<longleftrightarrow> 1 < n \<and> (\<forall>m. m dvd n \<longrightarrow> m = 1 \<or> m = n)"

text \<open>Before round \<open>i\<close> the marked numbers are the proper multiples of the numbers 2 to \<open>i - 1\<close>.\<close>

definition sieved :: "nat \<Rightarrow> nat \<Rightarrow> u8 list \<Rightarrow> bool" where
  "sieved i limit a \<longleftrightarrow> limit \<le> capacity a \<and>
     (\<forall>j. 0 < j \<and> j < limit \<longrightarrow> (j \<in> bits.members a \<longleftrightarrow> (\<exists>k. 2 \<le> k \<and> k < i \<and> k dvd j \<and> k \<noteq> j)))"

lemma unmarked_prime:
  assumes "sieved i limit a" "2 \<le> i" "i < limit"
  shows "i \<in> bits.members a \<longleftrightarrow> \<not> prime_number i"
proof -
  have "i \<in> bits.members a \<longleftrightarrow> (\<exists>k. 2 \<le> k \<and> k < i \<and> k dvd i)"
    using assms unfolding sieved_def by auto
  also have "\<dots> \<longleftrightarrow> \<not> prime_number i"
  proof
    assume "\<exists>k. 2 \<le> k \<and> k < i \<and> k dvd i"
    then show "\<not> prime_number i" by (auto simp: prime_number_def)
  next
    assume "\<not> prime_number i"
    then obtain m where m: "m dvd i" "m \<noteq> 1" "m \<noteq> i" using assms(2) by (auto simp: prime_number_def)
    then have "m \<noteq> 0" "m \<le> i" using assms(2) dvd_imp_le [of m i] by auto
    with m show "\<exists>k. 2 \<le> k \<and> k < i \<and> k dvd i" by (intro exI [of _ m]) auto
  qed
  finally show ?thesis .
qed

lemma sieved_skip:
  assumes "sieved i limit a" "2 \<le> i" "i < limit" "i \<in> bits.members a"
  shows "sieved (i + 1) limit a"
proof -
  obtain d where d: "2 \<le> d" "d < i" "d dvd i"
    using assms unfolding sieved_def by auto
  have "(\<exists>k. 2 \<le> k \<and> k < i + 1 \<and> k dvd j \<and> k \<noteq> j) \<longleftrightarrow> (\<exists>k. 2 \<le> k \<and> k < i \<and> k dvd j \<and> k \<noteq> j)"
    if "0 < j" for j
  proof
    assume "\<exists>k. 2 \<le> k \<and> k < i + 1 \<and> k dvd j \<and> k \<noteq> j"
    then obtain k where k: "2 \<le> k" "k < i + 1" "k dvd j" "k \<noteq> j" by blast
    show "\<exists>k. 2 \<le> k \<and> k < i \<and> k dvd j \<and> k \<noteq> j"
    proof (cases "k = i")
      case True
      have "i \<le> j" using k(3) that True dvd_imp_le by blast
      then have "d \<noteq> j" using d(2) by simp
      moreover have "d dvd j" using d(3) k(3) True dvd_trans by blast
      ultimately show ?thesis using d by blast
    next
      case False
      then show ?thesis using k by (intro exI [of _ k]) simp
    qed
  qed (auto simp: less_Suc_eq)
  then show ?thesis using assms(1) unfolding sieved_def by auto
qed

lemma sieved_mark:
  assumes "sieved i limit a" "2 \<le> i"
    and "bits.members a' = bits.members a \<union> {m. i dvd m \<and> i + i \<le> m \<and> m < limit}" "capacity a' = capacity a"
  shows "sieved (i + 1) limit a'"
proof -
  have double: "i + i \<le> j \<longleftrightarrow> i \<noteq> j" if j: "i dvd j" "0 < j" for j
  proof -
    obtain x where "j = i * x" using dvdE [OF j(1)] by metis
    then show ?thesis using j(2) assms(2) by (cases x; cases "x - 1") auto
  qed
  have "(j \<in> bits.members a') \<longleftrightarrow> (\<exists>k. 2 \<le> k \<and> k < i + 1 \<and> k dvd j \<and> k \<noteq> j)" if j: "0 < j" "j < limit" for j
  proof -
    have "(j \<in> bits.members a') \<longleftrightarrow> (\<exists>k. 2 \<le> k \<and> k < i \<and> k dvd j \<and> k \<noteq> j) \<or> (i dvd j \<and> i \<noteq> j)"
      using assms(1) j double [of j] unfolding sieved_def assms(3) by auto
    also have "\<dots> \<longleftrightarrow> (\<exists>k. 2 \<le> k \<and> k < i + 1 \<and> k dvd j \<and> k \<noteq> j)"
      using assms(2) by (auto simp: less_Suc_eq)
    finally show ?thesis .
  qed
  then show ?thesis using assms(1,4) unfolding sieved_def by simp
qed

lemma sieve_from_primes:
  assumes "sieved i limit a" "2 \<le> i"
  shows "sieve_from i limit a = Inr (filter prime_number [i..<limit])"
  using assms
proof (induction i limit a rule: sieve_from.induct)
  case (1 i limit a)
  show ?case
  proof (cases "i < limit")
    case True
    have cap: "limit \<le> capacity a" using "1.prems"(1) by (simp add: sieved_def)
    then have test: "BITTEST a i = Inr (\<not> prime_number i)"
      using bits.test_members [of i a] unmarked_prime [OF "1.prems" True] True by simp
    have upt: "[i..<limit] = i # [i + 1..<limit]" using True by (simp add: upt_conv_Cons)
    show ?thesis
    proof (cases "prime_number i")
      case prime: True
      obtain a' where a': "mark_multiples i (i + i) limit a = Inr a'" "capacity a' = capacity a"
        "bits.members a' = bits.members a \<union> {m. i dvd m \<and> i + i \<le> m \<and> m < limit}"
        using mark_multiples_members [of i "i + i" limit a] "1.prems"(2) cap by auto
      from sieved_mark [OF "1.prems" a'(3,2)]
      have "sieve_from (i + 1) limit a' = Inr (filter prime_number [i + 1..<limit])"
        using "1.IH"(2) [OF True test] prime a'(1) "1.prems"(2) by simp
      then show ?thesis
        using True test prime a'(1) upt by (subst sieve_from.simps) simp
    next
      case False
      then have "i \<in> bits.members a" using unmarked_prime [OF "1.prems" True] by simp
      from sieved_skip [OF "1.prems" True this]
      have "sieve_from (i + 1) limit a = Inr (filter prime_number [i + 1..<limit])"
        using "1.IH"(1) [OF True test] False "1.prems"(2) by simp
      then show ?thesis
        using True test False upt by (subst sieve_from.simps) simp
    qed
  next
    case False
    then show ?thesis by (subst sieve_from.simps) simp
  qed
qed

section \<open>Properties\<close>

text \<open>
  C14: the program of \<open>bits.h\<close> ends, stays within its array of \<open>BITNSLOTS(MAX)\<close> bytes and prints
  exactly the prime numbers below its bound, in order; for the bound 10000 of the source
  and for every other.
\<close>

theorem sieve_prints_primes:
  "sieve_main limit = Inr (filter prime_number [2..<limit])"
proof -
  let ?a = "replicate (BITNSLOTS limit) 0 :: u8 list"
  have cap: "limit \<le> capacity ?a"
    by (simp add: capacity_def BITNSLOTS_def CHAR_BIT_def)
  have "BITTEST ?a c = Inr False" if "c < capacity ?a" for c
    using that slot_in [of c ?a] by (simp add: BITTEST_def)
  then have "bits.members ?a = {}" by (auto simp: bits.members_def)
  with cap have "sieved 2 limit ?a" by (simp add: sieved_def)
  from sieve_from_primes [OF this] show ?thesis by (simp add: sieve_main_def)
qed

text \<open>
  the bit macros are a set of numbers: \<open>BITSET\<close> adds a number, \<open>BITCLEAR\<close> removes it,
  \<open>BITTEST\<close> asks for it, all within the \<open>8 * n\<close> numbers that an array of \<open>n\<close> bytes
  holds; beyond them \<open>BITSET\<close> and \<open>BITTEST\<close> are out of bounds.
\<close>

theorem bit_macros_set:
  "if b < 8 * length a
   then (\<exists>a'. BITSET a b = Inr a' \<and> length a' = length a \<and> bits.members a' = insert b (bits.members a)) \<and>
        (\<exists>a'. BITCLEAR a b = Inr a' \<and> length a' = length a \<and> bits.members a' = bits.members a - {b}) \<and>
        BITTEST a b = Inr (b \<in> bits.members a)
   else BITSET a b = Inl OutOfBounds \<and> BITTEST a b = Inl OutOfBounds"
proof (cases "b < 8 * length a")
  case True
  then have b: "b < capacity a" by (simp add: capacity_def CHAR_BIT_def)
  have len: "capacity x = capacity a \<longleftrightarrow> length x = length a" for x
    by (simp add: capacity_def CHAR_BIT_def)
  show ?thesis
    using True bits.set_members [OF b] bits.clear_members [OF b] bits.test_members [OF b]
    unfolding len by (metis (no_types, lifting))
next
  case False
  then have "\<not> b < capacity a" by (simp add: capacity_def CHAR_BIT_def)
  with bits.bounds_law [OF this] False show ?thesis by simp
qed

end
