(* ===== verification/Cmsg.thy ===== *)
theory Cmsg
  imports Prelude
begin

text \<open>
  Control messages as \<open>recvmsg\<close> and \<open>sendmsg\<close> pass them: the vocabulary of the C library
  (\<open>sys/socket.h\<close>) that \<open>packet.c\<close>, \<open>cmsg.c\<close> and \<open>recvmsg.c\<close> use. A control buffer is
  a list of bytes. A message is a header of 16 bytes (its length as a \<open>size_t\<close>, its level
  and its type as \<open>int\<close>), its data, and padding to a multiple of 8 bytes. Addresses are
  natural numbers; the loops below number the bytes from the start of the buffer.
\<close>

section \<open>Numbers in memory\<close>

text \<open>The machine is little-endian, as in \<open>Byte_Order\<close>.\<close>

fun int_bytes :: "nat \<Rightarrow> int \<Rightarrow> u8 list" where
  "int_bytes 0 v = []"
| "int_bytes (Suc n) v = word_of_int v # int_bytes n (v div 256)"

fun bytes_int :: "u8 list \<Rightarrow> int" where
  "bytes_int [] = 0"
| "bytes_int (b # bs) = uint b + 256 * bytes_int bs"

definition read_bytes :: "u8 list \<Rightarrow> nat \<Rightarrow> nat \<Rightarrow> u8 list result" where
  "read_bytes mem p n = (if p + n \<le> length mem then Inr (take n (drop p mem)) else Inl OutOfBounds)"

definition write_bytes :: "u8 list \<Rightarrow> nat \<Rightarrow> u8 list \<Rightarrow> u8 list result" where
  "write_bytes mem p bs =
     (if p + length bs \<le> length mem then Inr (take p mem @ bs @ drop (p + length bs) mem)
      else Inl OutOfBounds)"

definition load_int :: "u8 list \<Rightarrow> nat \<Rightarrow> int result" where
  "load_int mem p = bind_r (read_bytes mem p 4) (\<lambda>bs. Inr (to_int32 (bytes_int bs)))"

definition load_long :: "u8 list \<Rightarrow> nat \<Rightarrow> int result" where
  "load_long mem p = bind_r (read_bytes mem p 8) (\<lambda>bs. Inr (signed_take_bit 63 (bytes_int bs)))"

definition load_size :: "u8 list \<Rightarrow> nat \<Rightarrow> nat result" where
  "load_size mem p = bind_r (read_bytes mem p 8) (\<lambda>bs. Inr (nat (bytes_int bs)))"

section \<open>Headers\<close>

record cmsghdr =
  cmsg_len :: nat
  cmsg_level :: int
  cmsg_type :: int

definition load_hdr :: "u8 list \<Rightarrow> nat \<Rightarrow> cmsghdr result" where
  "load_hdr mem p =
     bind_r (load_size mem p) (\<lambda>len.
     bind_r (load_int mem (p + 8)) (\<lambda>level.
     bind_r (load_int mem (p + 12)) (\<lambda>type.
     Inr \<lparr>cmsg_len = len, cmsg_level = level, cmsg_type = type\<rparr>)))"

definition hdr_bytes :: "cmsghdr \<Rightarrow> u8 list" where
  "hdr_bytes h = int_bytes 8 (int (cmsg_len h)) @ int_bytes 4 (cmsg_level h) @ int_bytes 4 (cmsg_type h)"

definition hdr_size :: nat where "hdr_size = 16"

definition CMSG_ALIGN :: "nat \<Rightarrow> nat" where "CMSG_ALIGN n = (n + 7) div 8 * 8"

definition CMSG_PADDING :: "nat \<Rightarrow> nat" where "CMSG_PADDING n = (8 - n mod 8) mod 8"

definition CMSG_LEN :: "nat \<Rightarrow> nat" where "CMSG_LEN n = hdr_size + n"

definition CMSG_SPACE :: "nat \<Rightarrow> nat" where "CMSG_SPACE n = CMSG_ALIGN n + hdr_size"

definition CMSG_DATA :: "nat \<Rightarrow> nat" where "CMSG_DATA p = p + hdr_size"

text \<open>\<open>None\<close> is the null pointer. \<open>control\<close> and \<open>controllen\<close> are the fields of the \<open>msghdr\<close>.\<close>

definition CMSG_FIRSTHDR :: "nat \<Rightarrow> nat \<Rightarrow> nat option" where
  "CMSG_FIRSTHDR control controllen = (if controllen \<ge> hdr_size then Some control else None)"

text \<open>
  \<open>CMSG_NXTHDR\<close> for the header at \<open>cmsg\<close> whose length field reads \<open>len\<close>, as glibc defines
  it: the room from \<open>cmsg\<close> to the end is a \<open>size_t\<close>, and the next header must fit into it
  behind this message and its padding.
\<close>

definition CMSG_NXTHDR :: "nat \<Rightarrow> nat \<Rightarrow> nat \<Rightarrow> nat \<Rightarrow> nat option" where
  "CMSG_NXTHDR control controllen cmsg len =
     (if len < hdr_size then None
      else let needed = hdr_size + CMSG_PADDING len;
               room = nat ((int control + int controllen - int cmsg) mod 2 ^ 64)
           in if room < needed \<or> room - needed < len then None
              else Some (cmsg + CMSG_ALIGN len))"

section \<open>The loop over the messages\<close>

text \<open>
  \<open>for (cmsg = CMSG_FIRSTHDR(&msg); cmsg != NULL; cmsg = CMSG_NXTHDR(&msg, cmsg)) body\<close>:
  the body gets the position of the header and its fields, and answers the new state and
  whether it leaves the loop by \<open>break\<close>. The result is the state and \<open>cmsg\<close> afterwards.
\<close>

lemma read_bytes_Inr: "read_bytes mem p n = Inr bs \<longleftrightarrow> p + n \<le> length mem \<and> bs = take n (drop p mem)"
  by (auto simp: read_bytes_def)

lemma load_hdr_bound: "load_hdr mem p = Inr h \<Longrightarrow> p + 16 \<le> length mem"
  by (auto simp: load_hdr_def load_int_def bind_r_Inr_iff read_bytes_Inr)

lemma CMSG_ALIGN_padding: "CMSG_ALIGN n = n + CMSG_PADDING n"
proof -
  obtain q r where n: "n = r + q * 8" and r: "r < 8"
    using mod_div_mult_eq [of n 8] by (metis mod_less_divisor zero_less_numeral)
  have "(n + 7) div 8 = (r + 7) div 8 + q"
    by (simp add: n)
  moreover have "(r + 7) div 8 * 8 = r + (8 - r) mod 8"
    using r by (cases "r = 0") (simp_all add: div_nat_eqI)
  moreover have "n mod 8 = r" using r by (simp add: n)
  ultimately show ?thesis by (simp add: CMSG_ALIGN_def CMSG_PADDING_def n algebra_simps)
qed

lemma CMSG_NXTHDR_later: "CMSG_NXTHDR control controllen p len = Some q \<Longrightarrow> p + 16 \<le> q"
  by (auto simp: CMSG_NXTHDR_def Let_def hdr_size_def CMSG_ALIGN_padding split: if_splits)

function walk_cmsgs ::
  "u8 list \<Rightarrow> nat \<Rightarrow> (nat \<Rightarrow> cmsghdr \<Rightarrow> 's \<Rightarrow> ('s \<times> bool) result) \<Rightarrow> nat option \<Rightarrow> 's \<Rightarrow> ('s \<times> nat option) result"
where
  "walk_cmsgs mem controllen body cur s =
     (case cur of
        None \<Rightarrow> Inr (s, None)
      | Some p \<Rightarrow>
          bind_r (load_hdr mem p) (\<lambda>h.
          bind_r (body p h s) (\<lambda>r.
            if snd r then Inr (fst r, Some p)
            else walk_cmsgs mem controllen body (CMSG_NXTHDR 0 controllen p (cmsg_len h)) (fst r))))"
  by pat_completeness simp_all

termination
proof (relation "measure (\<lambda>(mem, _, _, cur, _). case cur of None \<Rightarrow> 0 | Some p \<Rightarrow> Suc (length mem - p))")
  fix mem :: "u8 list" and controllen body cur s p h r
  assume cur: "cur = Some p" and "load_hdr mem p = Inr h"
  from this(2) have "p + 16 \<le> length mem" by (rule load_hdr_bound)
  then show "((mem, controllen, body, CMSG_NXTHDR 0 controllen p (cmsg_len h), fst r), mem, controllen, body, cur, s)
      \<in> measure (\<lambda>(mem, _, _, cur, _). case cur of None \<Rightarrow> 0 | Some p \<Rightarrow> Suc (length mem - p))"
    unfolding cur by (auto dest: CMSG_NXTHDR_later split: option.splits)
qed simp

declare walk_cmsgs.simps [simp del]

lemma walk_cmsgs_simps:
  "walk_cmsgs mem controllen body None s = Inr (s, None)"
  "walk_cmsgs mem controllen body (Some p) s =
     bind_r (load_hdr mem p) (\<lambda>h.
     bind_r (body p h s) (\<lambda>r.
       if snd r then Inr (fst r, Some p)
       else walk_cmsgs mem controllen body (CMSG_NXTHDR 0 controllen p (cmsg_len h)) (fst r)))"
  by (simp_all add: walk_cmsgs.simps [of _ _ _ "None"] walk_cmsgs.simps [of _ _ _ "Some p"])

definition cmsg_loop ::
  "u8 list \<Rightarrow> nat \<Rightarrow> (nat \<Rightarrow> cmsghdr \<Rightarrow> 's \<Rightarrow> ('s \<times> bool) result) \<Rightarrow> 's \<Rightarrow> ('s \<times> nat option) result" where
  "cmsg_loop mem controllen body s = walk_cmsgs mem controllen body (CMSG_FIRSTHDR 0 controllen) s"

section \<open>The messages in a buffer\<close>

text \<open>What the sender of a control buffer puts there: \<open>c_pad\<close> is whatever the padding holds.\<close>

record cmsg =
  c_level :: int
  c_type :: int
  c_data :: "u8 list"
  c_pad :: "u8 list"

definition cmsg_hdr :: "cmsg \<Rightarrow> cmsghdr" where
  "cmsg_hdr m = \<lparr>cmsg_len = CMSG_LEN (length (c_data m)), cmsg_level = c_level m, cmsg_type = c_type m\<rparr>"

definition put_cmsg :: "cmsg \<Rightarrow> u8 list" where
  "put_cmsg m = hdr_bytes (cmsg_hdr m) @ c_data m @ c_pad m"

definition put_cmsgs :: "cmsg list \<Rightarrow> u8 list" where
  "put_cmsgs ms = concat (map put_cmsg ms)"

definition is_int :: "int \<Rightarrow> bool" where "is_int v \<longleftrightarrow> INT_MIN \<le> v \<and> v \<le> INT_MAX"

definition cmsg_ok :: "cmsg \<Rightarrow> bool" where
  "cmsg_ok m \<longleftrightarrow> is_int (c_level m) \<and> is_int (c_type m) \<and> c_data m \<noteq> [] \<and>
     length (c_pad m) = CMSG_PADDING (CMSG_LEN (length (c_data m)))"

text \<open>A control buffer with these messages, and nothing behind them.\<close>

definition cmsgs_ok :: "cmsg list \<Rightarrow> bool" where
  "cmsgs_ok ms \<longleftrightarrow> list_all cmsg_ok ms \<and> length (put_cmsgs ms) < 2 ^ 63"

text \<open>The same loop over the messages instead of the bytes.\<close>

fun fold_cmsgs ::
  "(nat \<Rightarrow> cmsg \<Rightarrow> 's \<Rightarrow> ('s \<times> bool) result) \<Rightarrow> nat \<Rightarrow> cmsg list \<Rightarrow> 's \<Rightarrow> ('s \<times> nat option) result" where
  "fold_cmsgs body p [] s = Inr (s, None)"
| "fold_cmsgs body p (m # ms) s =
     bind_r (body p m s) (\<lambda>r.
       if snd r then Inr (fst r, Some p)
       else fold_cmsgs body (p + length (put_cmsg m)) ms (fst r))"

section \<open>Lemmas\<close>

lemma length_int_bytes [simp]: "length (int_bytes n v) = n"
  by (induction n arbitrary: v) simp_all

lemma bytes_int_bounds: "0 \<le> bytes_int bs \<and> bytes_int bs < 256 ^ length bs"
proof (induction bs)
  case (Cons b bs)
  have "0 \<le> uint b" "uint b < 256" using uint_bounded [of b] by simp_all
  with Cons show ?case by simp
qed simp

lemma bytes_int_nonneg [simp]: "0 \<le> bytes_int bs"
  using bytes_int_bounds [of bs] by simp

lemma bytes_int_bytes: "bytes_int (int_bytes n v) = v mod 256 ^ n"
proof (induction n arbitrary: v)
  case (Suc n)
  have "uint (word_of_int v :: u8) = v mod 256" by (simp add: uint_word_of_int)
  moreover have "v mod (256 * 256 ^ n) = v mod 256 + 256 * (v div 256 mod 256 ^ n)"
    by (simp add: zmod_zmult2_eq)
  ultimately show ?case by (simp add: Suc.IH)
qed simp

lemma to_int32_mod: "to_int32 (v mod 256 ^ 4) = to_int32 v"
proof -
  have "word_of_int (v mod 2 ^ LENGTH(32)) = (word_of_int v :: u32)" by (simp add: word_uint_eq_iff uint_word_of_int)
  then show ?thesis by (simp add: to_int32_def)
qed

lemma to_int32_bytes [simp]: "is_int v \<Longrightarrow> to_int32 (bytes_int (int_bytes 4 v)) = v"
  unfolding bytes_int_bytes to_int32_mod is_int_def by (elim conjE) (rule to_int32_small)

lemma read_at: "length pre = p \<Longrightarrow> length bs = n \<Longrightarrow> read_bytes (pre @ bs @ post) p n = Inr bs"
  by (auto simp: read_bytes_def)

lemma length_hdr_bytes [simp]: "length (hdr_bytes h) = 16"
  by (simp add: hdr_bytes_def)

lemma put_cmsgs_simps [simp]: "put_cmsgs [] = []" "put_cmsgs (m # ms) = put_cmsg m @ put_cmsgs ms"
  by (simp_all add: put_cmsgs_def)

lemma length_put_cmsg:
  "cmsg_ok m \<Longrightarrow> length (put_cmsg m) = CMSG_ALIGN (CMSG_LEN (length (c_data m)))"
  by (simp add: put_cmsg_def cmsg_ok_def CMSG_ALIGN_padding CMSG_LEN_def hdr_size_def)

lemma load_hdr_bytes:
  assumes "length pre = p" "int (cmsg_len h) < 2 ^ 64" "is_int (cmsg_level h)" "is_int (cmsg_type h)"
  shows "load_hdr (pre @ hdr_bytes h @ post) p = Inr h"
proof -
  let ?len = "int_bytes 8 (int (cmsg_len h))" and ?lev = "int_bytes 4 (cmsg_level h)"
    and ?ty = "int_bytes 4 (cmsg_type h)"
  have "load_size (pre @ ?len @ ?lev @ ?ty @ post) p = Inr (cmsg_len h)"
    using assms(1,2)
    by (simp add: load_size_def read_at [of _ _ _ 8] bytes_int_bytes del: bytes_int.simps int_bytes.simps)
  moreover have "load_int ((pre @ ?len) @ ?lev @ ?ty @ post) (p + 8) = Inr (cmsg_level h)"
    using assms(1,3)
    by (simp only: load_int_def read_at [of "pre @ ?len" "p + 8"] length_append length_int_bytes
        bind_r_simps to_int32_bytes)
  moreover have "load_int ((pre @ ?len @ ?lev) @ ?ty @ post) (p + 12) = Inr (cmsg_type h)"
    using assms(1,4)
    by (simp only: load_int_def read_at [of "pre @ ?len @ ?lev" "p + 12"] length_append length_int_bytes
        bind_r_simps to_int32_bytes)
  ultimately show ?thesis
    by (simp add: load_hdr_def hdr_bytes_def del: bytes_int.simps int_bytes.simps)
qed

lemma CMSG_NXTHDR_inside:
  assumes "p \<le> controllen" "controllen < 2 ^ 64" "hdr_size \<le> len"
  shows "CMSG_NXTHDR 0 controllen p len =
    (if p + CMSG_ALIGN len + hdr_size \<le> controllen then Some (p + CMSG_ALIGN len) else None)"
proof -
  have "(int controllen - int p) mod 2 ^ 64 = int (controllen - p)"
    using assms by (subst mod_pos_pos_trivial) (auto simp: of_nat_diff)
  then have "nat ((int 0 + int controllen - int p) mod 2 ^ 64) = controllen - p" by simp
  then show ?thesis
    using assms by (simp add: CMSG_NXTHDR_def Let_def CMSG_ALIGN_padding) linarith
qed

text \<open>What the loop does is told by the messages: the body only has to agree on each of them.\<close>

lemma walk_put_cmsgs:
  assumes "list_all cmsg_ok ms" "length (pre @ put_cmsgs ms) < 2 ^ 63"
    and body: "\<And>a m c s. m \<in> set ms \<Longrightarrow> pre @ put_cmsgs ms @ post = a @ put_cmsg m @ c \<Longrightarrow>
       body (length a) (cmsg_hdr m) s = abody (length a) m s"
  shows "walk_cmsgs (pre @ put_cmsgs ms @ post) (length pre + length (put_cmsgs ms)) body
       (if ms = [] then None else Some (length pre)) s = fold_cmsgs abody (length pre) ms s"
  using assms
proof (induction ms arbitrary: pre s)
  case (Cons m ms)
  let ?mem = "pre @ put_cmsgs (m # ms) @ post" and ?cl = "length pre + length (put_cmsgs (m # ms))"
  let ?q = "length pre + length (put_cmsg m)"
  have ok: "cmsg_ok m" "list_all cmsg_ok ms" using Cons.prems(1) by simp_all
  have mem: "?mem = pre @ hdr_bytes (cmsg_hdr m) @ c_data m @ c_pad m @ put_cmsgs ms @ post"
    by (simp add: put_cmsg_def)
  have len: "cmsg_len (cmsg_hdr m) = CMSG_LEN (length (c_data m))" by (simp add: cmsg_hdr_def)
  have "length (put_cmsg m) < 2 ^ 63" using Cons.prems(2) by simp
  then have "int (cmsg_len (cmsg_hdr m)) < 2 ^ 64"
    by (simp add: len length_put_cmsg [OF ok(1)] CMSG_ALIGN_padding)
  then have hdr: "load_hdr ?mem (length pre) = Inr (cmsg_hdr m)"
    unfolding mem using ok(1) by (intro load_hdr_bytes) (simp_all add: cmsg_hdr_def cmsg_ok_def)
  have step: "body (length pre) (cmsg_hdr m) s = abody (length pre) m s" for s
    by (rule Cons.prems(3) [of m pre "put_cmsgs ms @ post"]) simp_all
  have tail: "16 \<le> length (put_cmsgs ms) \<longleftrightarrow> ms \<noteq> []"
    by (cases ms) (simp_all add: put_cmsg_def)
  have "CMSG_NXTHDR 0 ?cl (length pre) (cmsg_len (cmsg_hdr m)) =
      (if length pre + CMSG_ALIGN (cmsg_len (cmsg_hdr m)) + hdr_size \<le> ?cl
       then Some (length pre + CMSG_ALIGN (cmsg_len (cmsg_hdr m))) else None)"
    using Cons.prems(2) by (intro CMSG_NXTHDR_inside) (simp_all add: len CMSG_LEN_def)
  also have "\<dots> = (if ms = [] then None else Some ?q)"
    using tail by (simp add: len length_put_cmsg [OF ok(1)] hdr_size_def)
  finally have nxt: "CMSG_NXTHDR 0 ?cl (length pre) (cmsg_len (cmsg_hdr m)) =
      (if ms = [] then None else Some ?q)" .
  have IH: "walk_cmsgs ?mem ?cl body (if ms = [] then None else Some ?q) t =
      fold_cmsgs abody ?q ms t" for t
  proof -
    have "walk_cmsgs ((pre @ put_cmsg m) @ put_cmsgs ms @ post)
        (length (pre @ put_cmsg m) + length (put_cmsgs ms)) body
        (if ms = [] then None else Some (length (pre @ put_cmsg m))) t =
      fold_cmsgs abody (length (pre @ put_cmsg m)) ms t"
    proof (rule Cons.IH)
      show "list_all cmsg_ok ms" by (rule ok(2))
      show "length ((pre @ put_cmsg m) @ put_cmsgs ms) < 2 ^ 63"
        using Cons.prems(2) by simp
      fix a n c s
      assume "n \<in> set ms" "(pre @ put_cmsg m) @ put_cmsgs ms @ post = a @ put_cmsg n @ c"
      then show "body (length a) (cmsg_hdr n) s = abody (length a) n s"
        by (intro Cons.prems(3)) simp_all
    qed
    then show ?thesis by (simp add: add.assoc cong: if_cong split del: if_split)
  qed
  show ?case
    by (simp add: walk_cmsgs_simps hdr [simplified] step nxt [simplified] IH [simplified] cong: if_cong split del: if_split)
qed (simp add: walk_cmsgs_simps)

lemma cmsg_loop_put_cmsgs:
  assumes "cmsgs_ok ms"
    and "\<And>a m c s. m \<in> set ms \<Longrightarrow> put_cmsgs ms @ post = a @ put_cmsg m @ c \<Longrightarrow>
       body (length a) (cmsg_hdr m) s = abody (length a) m s"
  shows "cmsg_loop (put_cmsgs ms @ post) (length (put_cmsgs ms)) body s = fold_cmsgs abody 0 ms s"
proof -
  have "CMSG_FIRSTHDR 0 (length (put_cmsgs ms)) = (if ms = [] then None else Some 0)"
    by (cases ms) (simp_all add: CMSG_FIRSTHDR_def put_cmsg_def hdr_size_def)
  then show ?thesis
    using walk_put_cmsgs [of ms "[]" post body abody s] assms
    by (simp add: cmsg_loop_def cmsgs_ok_def cong: if_cong split del: if_split)
qed

text \<open>Reading the data of a message that lies in the buffer.\<close>

lemma read_data:
  assumes "n \<le> length (c_data m @ c_pad m)"
  shows "read_bytes (a @ put_cmsg m @ c) (CMSG_DATA (length a)) n = Inr (take n (c_data m @ c_pad m))"
  using assms by (simp add: read_bytes_def CMSG_DATA_def put_cmsg_def hdr_size_def)

lemma data_room: "cmsg_ok m \<Longrightarrow> 8 \<le> length (c_data m @ c_pad m)"
proof -
  assume ok: "cmsg_ok m"
  then have "length (c_data m @ c_pad m) = CMSG_ALIGN (CMSG_LEN (length (c_data m))) - 16"
    by (simp add: cmsg_ok_def CMSG_ALIGN_padding CMSG_LEN_def hdr_size_def)
  moreover have "0 < length (c_data m)" using ok by (simp add: cmsg_ok_def)
  then have "3 * 8 \<le> (CMSG_LEN (length (c_data m)) + 7) div 8 * 8"
    unfolding CMSG_LEN_def hdr_size_def by (intro mult_le_mono1) (simp add: less_eq_div_iff_mult_less_eq Suc_le_eq)
  ultimately show ?thesis unfolding CMSG_ALIGN_def by linarith
qed

section \<open>Readers\<close>

text \<open>
  The contract of a loop body: on a message that lies in the buffer it cannot fail, and what
  it does is \<open>act\<close>, a function of the position and the message. \<open>ok\<close> is what the body
  asks of its messages.
\<close>

locale cmsg_reader =
  fixes body :: "u8 list \<Rightarrow> nat \<Rightarrow> cmsghdr \<Rightarrow> 's \<Rightarrow> ('s \<times> bool) result"
    and ok :: "cmsg \<Rightarrow> bool"
    and act :: "nat \<Rightarrow> cmsg \<Rightarrow> 's \<Rightarrow> 's \<times> bool"
  assumes body_cmsg: "cmsg_ok m \<Longrightarrow> ok m \<Longrightarrow>
    body (a @ put_cmsg m @ c) (length a) (cmsg_hdr m) s = Inr (act (length a) m s)"
begin

lemma loop_refines:
  assumes "cmsgs_ok ms" "list_all ok ms"
  shows "cmsg_loop (put_cmsgs ms @ post) (length (put_cmsgs ms)) (body (put_cmsgs ms @ post)) s =
    fold_cmsgs (\<lambda>p m s. Inr (act p m s)) 0 ms s"
  using assms(1)
proof (rule cmsg_loop_put_cmsgs)
  fix a m c s
  assume m: "m \<in> set ms" and mem: "put_cmsgs ms @ post = a @ put_cmsg m @ c"
  have "cmsg_ok m" "ok m" using m assms by (simp_all add: cmsgs_ok_def list_all_iff)
  then show "body (put_cmsgs ms @ post) (length a) (cmsg_hdr m) s = Inr (act (length a) m s)"
    unfolding mem by (rule body_cmsg)
qed

end

text \<open>The loop that stops at the first message with a property.\<close>

lemma fold_first:
  "fold_cmsgs (\<lambda>p m s. Inr (if P m then (f p m s, True) else (s, False))) p ms s =
   Inr (case find P ms of None \<Rightarrow> (s, None)
        | Some m \<Rightarrow> let q = p + length (put_cmsgs (takeWhile (\<lambda>m. \<not> P m) ms)) in (f q m s, Some q))"
  by (induction ms arbitrary: p) (simp_all add: add.assoc Let_def split: option.splits)

text \<open>The position of that message.\<close>

definition first_at :: "(cmsg \<Rightarrow> bool) \<Rightarrow> cmsg list \<Rightarrow> nat" where
  "first_at P ms = length (put_cmsgs (takeWhile (\<lambda>m. \<not> P m) ms))"

locale first_reader =
  cmsg_reader body "\<lambda>_. True" "\<lambda>p m s. if hit m then (found p m s, True) else (s, False)"
  for body :: "u8 list \<Rightarrow> nat \<Rightarrow> cmsghdr \<Rightarrow> 's \<Rightarrow> ('s \<times> bool) result"
    and hit :: "cmsg \<Rightarrow> bool"
    and found :: "nat \<Rightarrow> cmsg \<Rightarrow> 's \<Rightarrow> 's"
begin

lemma loop_first:
  assumes "cmsgs_ok ms"
  shows "cmsg_loop (put_cmsgs ms @ post) (length (put_cmsgs ms)) (body (put_cmsgs ms @ post)) s =
    Inr (case find hit ms of None \<Rightarrow> (s, None)
         | Some m \<Rightarrow> (found (first_at hit ms) m s, Some (first_at hit ms)))"
  using loop_refines [OF assms, of post s]
  by (simp add: fold_first first_at_def Let_def list_all_iff split: option.splits)

end

end
