(* ===== verification/Recv_Fields.thy ===== *)
theory Recv_Fields
  imports Cmsg Cstring Formats
begin

text \<open>
  The loops that look for the hop limit and the type of service among the control messages
  of a received packet: \<open>parse_header\<close> of \<open>cmsg.c\<close> and the two examples of \<open>recvmsg.c\<close>.
  None of the three compiles as it stands (missing declarations and braces), and nothing
  calls them. They are read as follows: \<open>IPV6_SOMETHING\<close>, a name that exists nowhere, is a
  parameter, and \<open>received_tos\<close>, which the loop assigns to, is the variable declared as
  \<open>recieved_tos\<close>. \<open>parse_header\<close> never sets \<open>msgh\<close>, so it ends at its first use; what the loop
  would do with the header of a received packet in \<open>msgh\<close> is stated of the loop alone.
\<close>

section \<open>Levels and types on Linux\<close>

definition IPPROTO_IP :: int where "IPPROTO_IP = 0"
definition IPPROTO_IPV6 :: int where "IPPROTO_IPV6 = 41"
definition IP_TOS :: int where "IP_TOS = 1"
definition IP_TTL :: int where "IP_TTL = 2"
definition IPV6_HOPLIMIT :: int where "IPV6_HOPLIMIT = 52"
definition IPV6_TCLASS :: int where "IPV6_TCLASS = 67"
definition SOL_SOCKET :: int where "SOL_SOCKET = 1"
definition SO_TIMESTAMP :: int where "SO_TIMESTAMP = 29"
definition SO_TIMESTAMPNS :: int where "SO_TIMESTAMPNS = 35"

lemmas level_defs = IPPROTO_IP_def IPPROTO_IPV6_def IP_TOS_def IP_TTL_def IPV6_HOPLIMIT_def
  IPV6_TCLASS_def SOL_SOCKET_def SO_TIMESTAMP_def SO_TIMESTAMPNS_def

section \<open>cmsg.c\<close>

text \<open>The state is \<open>(received_ttl, received_tos)\<close>.\<close>

definition header_body ::
  "int \<Rightarrow> u8 list \<Rightarrow> nat \<Rightarrow> cmsghdr \<Rightarrow> int \<times> int \<Rightarrow> ((int \<times> int) \<times> bool) result" where
  "header_body IPV6_SOMETHING mem p cmsg s =
     (if cmsg_level cmsg = IPPROTO_IP \<and> cmsg_type cmsg = IP_TTL then
        bind_r (load_int mem (CMSG_DATA p)) (\<lambda>v. Inr ((v, snd s), True))
      else if cmsg_level cmsg = IPPROTO_IPV6 \<and> cmsg_type cmsg = IPV6_SOMETHING then
        bind_r (load_int mem (CMSG_DATA p)) (\<lambda>v. Inr ((v, snd s), True))
      else if cmsg_level cmsg = IPPROTO_IP \<and> cmsg_type cmsg = IP_TOS then
        bind_r (load_int mem (CMSG_DATA p)) (\<lambda>v. Inr ((fst s, v), True))
      else if cmsg_level cmsg = IPPROTO_IPV6 \<and> cmsg_type cmsg = IPV6_TCLASS then
        bind_r (load_int mem (CMSG_DATA p)) (\<lambda>v. Inr ((fst s, v), True))
      else Inr (s, False))"

text \<open>
  The loop, for what \<open>msgh\<close> holds: \<open>None\<close> when nothing was stored in it, otherwise the control
  buffer it names and its length. The two variables and \<open>cmsg\<close> at the end.
\<close>

definition header_loop :: "int \<Rightarrow> (u8 list \<times> nat) option \<Rightarrow> ((int \<times> int) \<times> nat option) result" where
  "header_loop IPV6_SOMETHING msgh =
     (case msgh of
        None \<Rightarrow> Inl Uninitialised
      | Some (mem, controllen) \<Rightarrow> cmsg_loop mem controllen (header_body IPV6_SOMETHING mem) (-1, -1))"

text \<open>The function declares \<open>msgh\<close> and goes straight to the loop; it would return nothing.\<close>

definition parse_header :: "int \<Rightarrow> ((int \<times> int) \<times> nat option) result" where
  "parse_header IPV6_SOMETHING = (let msgh = None in header_loop IPV6_SOMETHING msgh)"

section \<open>recvmsg.c\<close>

text \<open>
  The first example, from the call of \<open>recvmsg\<close> on. \<open>buf\<close> is the address of the control
  buffer, \<open>mem\<close> and \<open>controllen\<close> what the kernel has put there, \<open>nRet\<close> its answer. The
  state is \<open>received_ttl\<close> and the output; the pointer printed with \<open>%i\<close> shows its low 32 bits.
\<close>

definition recvttl_message :: "bool \<Rightarrow> string" where
  "recvttl_message failed =
     (if failed then ''cannot set recvttl'' @ newline else ''socket set to recvttl'' @ newline)"

definition ttl_body ::
  "nat \<Rightarrow> u8 list \<Rightarrow> nat \<Rightarrow> cmsghdr \<Rightarrow> int \<times> string \<Rightarrow> ((int \<times> string) \<times> bool) result" where
  "ttl_body buf mem p cmsg s =
     (if cmsg_level cmsg = IPPROTO_IP \<and> cmsg_type cmsg = IP_TTL \<and> cmsg_len cmsg \<noteq> 0 then
        let ttlptr = CMSG_DATA p
        in bind_r (load_int mem ttlptr) (\<lambda>received_ttl.
           Inr ((received_ttl,
             snd s @ ''received_ttl = '' @ print_int (to_int32 (int (buf + ttlptr))) @ '' and '' @
             print_int received_ttl @ '' '' @ newline), True))
      else Inr (s, False))"

definition recv_ttl :: "nat \<Rightarrow> int \<Rightarrow> u8 list \<Rightarrow> nat \<Rightarrow> (int \<times> string) result" where
  "recv_ttl buf nRet mem controllen =
     (if nRet > 0 then
        bind_r (cmsg_loop mem controllen (ttl_body buf mem) (0, [])) (\<lambda>r. Inr (fst r))
      else Inr (0, []))"

text \<open>
  The second example. The \<open>else\<close> of \<open>setsockopt\<close> is never closed, so all that follows is in
  it. \<open>received_ecn\<close> is uninitialised before the loop; its value is the low byte of the
  \<open>int\<close> read.
\<close>

definition INET_ECN_MASK :: u8 where "INET_ECN_MASK = 3"
definition INET_ECN_CE :: u8 where "INET_ECN_CE = 3"

definition ecn_body ::
  "nat \<Rightarrow> u8 list \<Rightarrow> nat \<Rightarrow> cmsghdr \<Rightarrow> u8 option \<times> string \<Rightarrow> ((u8 option \<times> string) \<times> bool) result" where
  "ecn_body buf mem p cmsg s =
     (if cmsg_level cmsg = IPPROTO_IP \<and> cmsg_type cmsg = IP_TOS \<and> cmsg_len cmsg \<noteq> 0 then
        let ecnptr = CMSG_DATA p
        in bind_r (load_int mem ecnptr) (\<lambda>v.
           let received_ecn = word_of_int v :: u8;
               isecn = (if received_ecn AND INET_ECN_MASK = INET_ECN_CE then 1 else 0)
           in Inr ((Some received_ecn,
                snd s @ ''received_ecn = '' @ print_int (to_int32 (int (buf + ecnptr))) @ '' and '' @
                print_int (uint received_ecn) @ '', is ECN CE marked = '' @ print_int isecn @ '' '' @
                newline), True))
      else Inr (s, False))"

definition recv_ecn :: "bool \<Rightarrow> nat \<Rightarrow> int \<Rightarrow> u8 list \<Rightarrow> nat \<Rightarrow> (u8 option \<times> string) result" where
  "recv_ecn failed buf nRet mem controllen =
     (if failed then Inr (None, ''cannot set recvtos'' @ newline)
      else let out = ''socket set to recvtos'' @ newline
           in if nRet > 0 then
                bind_r (cmsg_loop mem controllen (ecn_body buf mem) (None, out)) (\<lambda>r. Inr (fst r))
              else Inr (None, out))"

section \<open>Lemmas\<close>

text \<open>The \<open>int\<close> that a reader finds behind the header: the padding fills it up.\<close>

definition data_int :: "cmsg \<Rightarrow> int" where
  "data_int m = to_int32 (bytes_int (take 4 (c_data m @ c_pad m)))"

lemma load_data_int:
  assumes "cmsg_ok m"
  shows "load_int (a @ put_cmsg m @ c) (CMSG_DATA (length a)) = Inr (data_int m)"
proof -
  have "4 \<le> length (c_data m @ c_pad m)" using data_room [OF assms] by simp
  then show ?thesis by (simp only: load_int_def read_data bind_r_simps data_int_def)
qed

lemma data_int_int:
  assumes "is_int v"
  shows "data_int \<lparr>c_level = l, c_type = t, c_data = int_bytes 4 v, c_pad = pad\<rparr> = v"
  using to_int32_bytes [OF assms] by (simp add: data_int_def del: int_bytes.simps bytes_int.simps)

text \<open>A loop whose body cannot fail inside the buffer returns, and keeps what its body keeps.\<close>

lemma walk_total:
  assumes "controllen \<le> length mem" "controllen < 2 ^ 64"
    and body: "\<And>p h s. p + 16 \<le> controllen \<Longrightarrow> I s \<Longrightarrow>
      \<exists>s' b. body p h s = Inr (s', b) \<and> (if b then Q s' else I s')"
    and IQ: "\<And>s. I s \<Longrightarrow> Q s"
  shows "I s \<Longrightarrow> (case cur of None \<Rightarrow> True | Some p \<Rightarrow> p + 16 \<le> controllen) \<Longrightarrow>
    \<exists>s' c. walk_cmsgs mem controllen body cur s = Inr (s', c) \<and> Q s'"
proof (induction "case cur of None \<Rightarrow> 0 | Some p \<Rightarrow> Suc (controllen - p)" arbitrary: cur s rule: less_induct)
  case less
  show ?case
  proof (cases cur)
    case None
    then show ?thesis using less.prems(1) IQ by (simp add: walk_cmsgs_simps)
  next
    case (Some p)
    with less.prems(2) have p: "p + 16 \<le> controllen" by simp
    then obtain h where h: "load_hdr mem p = Inr h"
      using assms(1) by (auto simp: load_hdr_def load_size_def load_int_def read_bytes_def)
    obtain s' b where r: "body p h s = Inr (s', b)" and post: "if b then Q s' else I s'"
      using body [OF p less.prems(1)] by blast
    show ?thesis
    proof (cases b)
      case True
      with post r h show ?thesis by (auto simp: Some walk_cmsgs_simps)
    next
      case False
      let ?next = "CMSG_NXTHDR 0 controllen p (cmsg_len h)"
      have "case ?next of None \<Rightarrow> True | Some q \<Rightarrow> q + 16 \<le> controllen \<and> p < q"
      proof (cases "hdr_size \<le> cmsg_len h")
        case True
        then have "CMSG_NXTHDR 0 controllen p (cmsg_len h) = (if p + CMSG_ALIGN (cmsg_len h) + hdr_size \<le> controllen
            then Some (p + CMSG_ALIGN (cmsg_len h)) else None)"
          using p assms(2) by (intro CMSG_NXTHDR_inside) simp_all
        with True show ?thesis by (simp add: hdr_size_def CMSG_ALIGN_padding)
      qed (simp add: CMSG_NXTHDR_def)
      then have "\<exists>s'' c. walk_cmsgs mem controllen body ?next s' = Inr (s'', c) \<and> Q s''"
        using False post p by (intro less.hyps) (auto simp: Some split: option.splits)
      with False r h show ?thesis by (simp add: Some walk_cmsgs_simps)
    qed
  qed
qed

lemma cmsg_loop_total:
  assumes "controllen \<le> length mem" "controllen < 2 ^ 64" "I s"
    and "\<And>p h s. p + 16 \<le> controllen \<Longrightarrow> I s \<Longrightarrow>
      \<exists>s' b. body p h s = Inr (s', b) \<and> (if b then Q s' else I s')"
    and "\<And>s. I s \<Longrightarrow> Q s"
  shows "\<exists>s' c. cmsg_loop mem controllen body s = Inr (s', c) \<and> Q s'"
  unfolding cmsg_loop_def
  by (rule walk_total [where I = I]) (use assms in \<open>simp_all add: CMSG_FIRSTHDR_def hdr_size_def\<close>)

text \<open>A buffer for one message: the loop sees the first header only.\<close>

lemma cmsg_loop_one:
  assumes "length mem = 24" "controllen \<le> 24"
    and "\<And>h. \<exists>s' b. body 0 h s = Inr (s', b)"
  shows "cmsg_loop mem controllen body s =
    (if controllen < 16 then Inr (s, None)
     else bind_r (load_hdr mem 0) (\<lambda>h. bind_r (body 0 h s) (\<lambda>r. Inr (fst r, if snd r then Some 0 else None))))"
proof (cases "controllen < 16")
  case True
  then show ?thesis by (simp add: cmsg_loop_def CMSG_FIRSTHDR_def hdr_size_def walk_cmsgs_simps)
next
  case False
  have none: "CMSG_NXTHDR 0 controllen 0 len = None" for len
  proof (cases "hdr_size \<le> len")
    case True
    then show ?thesis
      using CMSG_NXTHDR_inside [of 0 controllen len] assms(2) by (simp add: CMSG_ALIGN_padding hdr_size_def)
  qed (simp add: CMSG_NXTHDR_def)
  obtain h where h: "load_hdr mem 0 = Inr h"
    using assms(1) by (auto simp: load_hdr_def load_size_def load_int_def read_bytes_def)
  obtain s' b where "body 0 h s = Inr (s', b)" using assms(3) by blast
  with False h none show ?thesis
    by (cases b) (simp_all add: cmsg_loop_def CMSG_FIRSTHDR_def hdr_size_def walk_cmsgs_simps)
qed

section \<open>Properties\<close>

definition is_ttl :: "int \<Rightarrow> cmsg \<Rightarrow> bool" where
  "is_ttl something m \<longleftrightarrow> c_level m = IPPROTO_IP \<and> c_type m = IP_TTL \<or>
     c_level m = IPPROTO_IPV6 \<and> c_type m = something"

definition is_tos :: "cmsg \<Rightarrow> bool" where
  "is_tos m \<longleftrightarrow> c_level m = IPPROTO_IP \<and> c_type m = IP_TOS \<or>
     c_level m = IPPROTO_IPV6 \<and> c_type m = IPV6_TCLASS"

interpretation header: first_reader "header_body something" "\<lambda>m. is_ttl something m \<or> is_tos m"
    "\<lambda>p m s. if is_ttl something m then (data_int m, snd s) else (fst s, data_int m)" for something
  by unfold_locales
    (auto simp: header_body_def cmsg_hdr_def load_data_int is_ttl_def is_tos_def level_defs)

text \<open>
  the function as it is reads an uninitialised structure.
\<close>

theorem parse_header_uninitialised: "parse_header something = Inl Uninitialised"
  by (simp add: parse_header_def header_loop_def)

text \<open>
  given the control data of a packet, its loop takes one value, from the first message that
  carries a hop limit or a type of service, and leaves the other variable at -1: of a packet
  that brings both, one is received. The value is the \<open>int\<close> at the data, padding included.
\<close>

theorem header_loop_first:
  assumes "cmsgs_ok ms"
  shows "header_loop something (Some (put_cmsgs ms @ post, length (put_cmsgs ms))) =
    Inr (case find (\<lambda>m. is_ttl something m \<or> is_tos m) ms of
           None \<Rightarrow> ((-1, -1), None)
         | Some m \<Rightarrow> (if is_ttl something m then (data_int m, -1) else (-1, data_int m),
                     Some (first_at (\<lambda>m. is_ttl something m \<or> is_tos m) ms)))"
  unfolding header_loop_def by (simp add: header.loop_first [OF assms] split: option.splits)

definition ttl_and_tos :: "cmsg list" where
  "ttl_and_tos =
     [\<lparr>c_level = SOL_SOCKET, c_type = SO_TIMESTAMP, c_data = replicate 16 0, c_pad = []\<rparr>,
      \<lparr>c_level = IPPROTO_IP, c_type = IP_TOS, c_data = [184], c_pad = replicate 7 0\<rparr>,
      \<lparr>c_level = IPPROTO_IP, c_type = IP_TTL, c_data = [64, 0, 0, 0], c_pad = replicate 4 0\<rparr>]"

lemma ttl_and_tos_ok: "cmsgs_ok ttl_and_tos"
  by (simp add: cmsgs_ok_def ttl_and_tos_def cmsg_ok_def is_int_def level_defs INT_MIN_def INT_MAX_def
      CMSG_PADDING_def CMSG_LEN_def hdr_size_def put_cmsg_def)

lemma ttl_and_tos_length: "length (put_cmsgs ttl_and_tos) = 80"
  by (simp add: ttl_and_tos_def put_cmsg_def)

theorem header_loop_first_witness:
  "header_loop 77 (Some (put_cmsgs ttl_and_tos, 80)) = Inr ((-1, 184), Some 32)"
proof -
  have "header_loop 77 (Some (put_cmsgs ttl_and_tos @ [], length (put_cmsgs ttl_and_tos))) = Inr ((-1, 184), Some 32)"
    unfolding header_loop_first [OF ttl_and_tos_ok] by code_simp
  then show ?thesis by (simp add: ttl_and_tos_length)
qed

text \<open>
  whatever the buffer holds, the loop returns, with at least one variable at
  -1, when four bytes follow the described control data. Without them a message that is
  only a header makes it read beyond the buffer.
\<close>

theorem header_loop_total:
  assumes "controllen + 4 \<le> length mem" "controllen < 2 ^ 64"
  shows "(\<exists>ttl tos cur. header_loop something (Some (mem, controllen)) = Inr ((ttl, tos), cur) \<and> (ttl = -1 \<or> tos = -1)) \<and>
    header_loop something (Some (hdr_bytes \<lparr>cmsg_len = 16, cmsg_level = IPPROTO_IP, cmsg_type = IP_TTL\<rparr>, 16))
      = Inl OutOfBounds"
proof
  let ?Q = "\<lambda>s. fst s = -1 \<or> snd s = (-1 :: int)"
  have load: "\<exists>v. load_int mem (CMSG_DATA p) = Inr v" if "p + 16 \<le> controllen" for p
    using that assms(1) by (simp add: load_int_def read_bytes_def CMSG_DATA_def hdr_size_def)
  have "\<exists>s' c. header_loop something (Some (mem, controllen)) = Inr (s', c) \<and> ?Q s'"
    unfolding header_loop_def option.case prod.case
  proof (rule cmsg_loop_total [where I = "\<lambda>s. s = (-1, -1)"])
    fix p h and s :: "int \<times> int" assume "p + 16 \<le> controllen" and s: "s = (-1, -1)"
    with load obtain v where "load_int mem (CMSG_DATA p) = Inr v" by blast
    then show "\<exists>s' b. header_body something mem p h s = Inr (s', b) \<and> (if b then ?Q s' else s' = (-1, -1))"
      unfolding header_body_def s by (auto intro: exI [of _ True] exI [of _ False])
  qed (use assms in simp_all)
  then show "\<exists>ttl tos cur. header_loop something (Some (mem, controllen)) = Inr ((ttl, tos), cur) \<and> (ttl = -1 \<or> tos = -1)"
    by auto
  show "header_loop something (Some (hdr_bytes \<lparr>cmsg_len = 16, cmsg_level = IPPROTO_IP, cmsg_type = IP_TTL\<rparr>, 16))
      = Inl OutOfBounds"
  proof -
    have "load_hdr ([] @ hdr_bytes h @ []) 0 = Inr h"
      if "h = \<lparr>cmsg_len = 16, cmsg_level = IPPROTO_IP, cmsg_type = IP_TTL\<rparr>" for h
      by (rule load_hdr_bytes) (simp_all add: that is_int_def level_defs INT_MIN_def INT_MAX_def)
    then show ?thesis
      by (simp add: header_loop_def cmsg_loop_def CMSG_FIRSTHDR_def hdr_size_def walk_cmsgs_simps header_body_def
          load_int_def read_bytes_def CMSG_DATA_def)
  qed
qed

theorem header_loop_total_witness:
  "\<exists>ttl tos cur. header_loop 77 (Some (replicate 40 (1 :: u8), 36)) = Inr ((ttl, tos), cur) \<and> (ttl = -1 \<or> tos = -1)"
  using header_loop_total [of 36 "replicate 40 1" 77] by simp

definition ip_tos :: "cmsg \<Rightarrow> bool" where
  "ip_tos m \<longleftrightarrow> c_level m = IPPROTO_IP \<and> c_type m = IP_TOS"

lemma data_int_byte:
  assumes "c_data m = b # bs"
  shows "(word_of_int (data_int m) :: u8) = b"
proof -
  have "(word_of_int (data_int m) :: u8) = word_of_int (bytes_int (take 4 (c_data m @ c_pad m)))"
    by (simp add: data_int_def to_int32_eq word_uint_eq_iff uint_word_of_int_eq take_bit_signed_take_bit)
  also have "\<dots> = word_of_int (uint b + 256 * bytes_int (take 3 (bs @ c_pad m)))"
    by (simp add: assms numeral_eq_Suc)
  also have "\<dots> = b"
  proof -
    have "(256 :: u8) = 0" by simp
    then have "256 * w = 0" for w :: u8 by (metis mult_zero_left)
    then show ?thesis by simp
  qed
  finally show ?thesis .
qed

lemma ecn_field: "(wire_tos dscp ecn AND INET_ECN_MASK = INET_ECN_CE) \<longleftrightarrow> ecn = 3"
proof -
  have "wire_tos dscp ecn AND INET_ECN_MASK = ucast ecn"
  proof -
    have three: "(3 :: u8) = mask 2" by (simp add: mask_eq_exp_minus_1)
    show ?thesis
      unfolding INET_ECN_MASK_def three
      by (rule bit_word_eqI) (auto simp: wire_tos_def bit_simps dest: bit_imp_le_length)
  qed
  moreover have "(ucast ecn = (3 :: u8)) \<longleftrightarrow> ecn = 3"
  proof
    assume "ucast ecn = (3 :: u8)"
    then have "uint (ucast ecn :: u8) = 3" by simp
    moreover have "uint ecn < 4" using uint_bounded [of ecn] by simp
    ultimately have "uint ecn = uint (3 :: 2 word)" by (simp add: unsigned_ucast_eq take_bit_int_eq_self)
    then show "ecn = 3" by (simp only: word_uint_eq_iff)
  qed simp
  ultimately show ?thesis by (simp add: INET_ECN_CE_def)
qed

definition ecn_found :: "nat \<Rightarrow> nat \<Rightarrow> cmsg \<Rightarrow> u8 option \<times> string \<Rightarrow> u8 option \<times> string" where
  "ecn_found buf p m s =
     (let b = word_of_int (data_int m) :: u8
      in (Some b,
          snd s @ ''received_ecn = '' @ print_int (to_int32 (int (buf + CMSG_DATA p))) @ '' and '' @
          print_int (uint b) @ '', is ECN CE marked = '' @
          print_int (if b AND INET_ECN_MASK = INET_ECN_CE then 1 else 0) @ '' '' @ newline))"

interpretation ecn: first_reader "ecn_body buf" ip_tos "ecn_found buf" for buf
  by unfold_locales
    (simp add: ecn_body_def ecn_found_def cmsg_hdr_def ip_tos_def load_data_int Let_def CMSG_LEN_def hdr_size_def)

text \<open>
  C30: the second example of \<open>recvmsg.c\<close> gets the type of service of the packet right,
  though it reads four bytes where the message has one, and reports a congestion mark
  exactly when the ECN field is 3. The first number it prints is the address of the data.
\<close>

theorem recv_ecn_marks:
  assumes "cmsgs_ok ms" "0 < nRet" "find ip_tos ms = Some m" "c_data m = [wire_tos dscp ecn]"
  shows "recv_ecn False buf nRet (put_cmsgs ms @ post) (length (put_cmsgs ms)) =
    Inr (Some (wire_tos dscp ecn),
      ''socket set to recvtos'' @ newline @
      ''received_ecn = '' @ print_int (to_int32 (int (buf + (first_at ip_tos ms + 16)))) @ '' and '' @
      print_int (uint (wire_tos dscp ecn)) @ '', is ECN CE marked = '' @
      print_int (if ecn = 3 then 1 else 0) @ '' '' @ newline)"
proof -
  have "(word_of_int (data_int m) :: u8) = wire_tos dscp ecn" by (rule data_int_byte [OF assms(4)])
  with assms(2,3) show ?thesis
    by (simp add: recv_ecn_def Let_def ecn.loop_first [OF assms(1)] ecn_found_def ecn_field CMSG_DATA_def hdr_size_def)
qed

theorem recv_ecn_marks_witness:
  "recv_ecn False 4096 48 (put_cmsgs ttl_and_tos) 80 =
     Inr (Some 184, ''socket set to recvtos'' @ newline @ ''received_ecn = 4144 and 184, is ECN CE marked = 0 '' @ newline)"
proof -
  have "recv_ecn False 4096 48 (put_cmsgs ttl_and_tos @ []) (length (put_cmsgs ttl_and_tos)) =
      Inr (Some (wire_tos 46 0),
        ''socket set to recvtos'' @ newline @
        ''received_ecn = '' @ print_int (to_int32 (int (4096 + (first_at ip_tos ttl_and_tos + 16)))) @ '' and '' @
        print_int (uint (wire_tos 46 0)) @ '', is ECN CE marked = '' @ print_int (if (0 :: 2 word) = 3 then 1 else 0) @ '' '' @ newline)"
    by (rule recv_ecn_marks [where m = "ttl_and_tos ! 1"]) (rule ttl_and_tos_ok | code_simp)+
  moreover note ttl_and_tos_length
  moreover have "first_at ip_tos ttl_and_tos = 32" "wire_tos 46 0 = 184"
    "print_int (to_int32 4144) = ''4144''" "print_int 184 = ''184''" "print_int 0 = ''0''"
    by code_simp+
  ultimately show ?thesis by simp
qed

definition ip_ttl :: "cmsg \<Rightarrow> bool" where
  "ip_ttl m \<longleftrightarrow> c_level m = IPPROTO_IP \<and> c_type m = IP_TTL"

definition ttl_found :: "nat \<Rightarrow> nat \<Rightarrow> cmsg \<Rightarrow> int \<times> string \<Rightarrow> int \<times> string" where
  "ttl_found buf p m s =
     (data_int m,
      snd s @ ''received_ttl = '' @ print_int (to_int32 (int (buf + CMSG_DATA p))) @ '' and '' @
      print_int (data_int m) @ '' '' @ newline)"

interpretation ttl: first_reader "ttl_body buf" ip_ttl "ttl_found buf" for buf
  by unfold_locales
    (simp add: ttl_body_def ttl_found_def cmsg_hdr_def ip_ttl_def load_data_int Let_def CMSG_LEN_def hdr_size_def)

text \<open>
  the first example of \<open>recvmsg.c\<close> gets the hop limit of the first \<open>IP_TTL\<close> message,
  and 0 without one; a hop limit the kernel reports as an \<open>int\<close> arrives unchanged.
\<close>

theorem recv_ttl_first:
  assumes "cmsgs_ok ms"
  shows "(\<exists>out. recv_ttl buf nRet (put_cmsgs ms @ post) (length (put_cmsgs ms)) =
    Inr (if nRet \<le> 0 then 0 else case find ip_ttl ms of None \<Rightarrow> 0 | Some m \<Rightarrow> data_int m, out)) \<and>
    (if is_int v then data_int \<lparr>c_level = IPPROTO_IP, c_type = IP_TTL, c_data = int_bytes 4 v, c_pad = pad\<rparr> = v else True)"
  by (auto simp: recv_ttl_def ttl.loop_first [OF assms] ttl_found_def data_int_int
      simp del: int_bytes.simps split: option.splits)

theorem recv_ttl_first_witness:
  "\<exists>out. recv_ttl 4096 48 (put_cmsgs ttl_and_tos) 80 = Inr (64, out)"
proof -
  have "find ip_ttl ttl_and_tos = Some (ttl_and_tos ! 2)" "data_int (ttl_and_tos ! 2) = 64" by code_simp+
  then show ?thesis
    using recv_ttl_first [OF ttl_and_tos_ok, of 4096 48 "[]" 0 "[]"] by (simp add: ttl_and_tos_length)
qed

text \<open>
  with their own buffers, room for one message, both examples of \<open>recvmsg.c\<close> return
  whatever the kernel puts there: no access leaves the buffer.
\<close>

theorem recv_examples_safe:
  assumes "length mem = CMSG_SPACE 4" "length mem' = CMSG_SPACE 1" "controllen \<le> 24"
  shows "(\<exists>r. recv_ttl buf nRet mem controllen = Inr r) \<and> (\<exists>r. recv_ecn failed buf nRet mem' controllen = Inr r)"
proof -
  have "CMSG_SPACE 4 = 24" "CMSG_SPACE 1 = 24" by code_simp+
  with assms(1,2) have len: "length mem = 24" "length mem' = 24" by simp_all
  have load: "\<exists>v. load_int m (CMSG_DATA 0) = Inr v" if "length m = 24" for m
    using that by (simp add: load_int_def read_bytes_def CMSG_DATA_def hdr_size_def)
  have hdr: "\<exists>h. load_hdr m 0 = Inr h" if "length m = 24" for m
    using that by (simp add: load_hdr_def load_size_def load_int_def read_bytes_def)
  have ttl: "\<exists>s' b. ttl_body buf mem 0 h s = Inr (s', b)" for h s
    using load [OF len(1)] by (auto simp: ttl_body_def Let_def)
  have ecn: "\<exists>s' b. ecn_body buf mem' 0 h s = Inr (s', b)" for h s
    using load [OF len(2)] by (auto simp: ecn_body_def Let_def)
  obtain h h' where h: "load_hdr mem 0 = Inr h" "load_hdr mem' 0 = Inr h'"
    using hdr len by blast
  obtain r b where r: "ttl_body buf mem 0 h (0, []) = Inr (r, b)" using ttl by blast
  obtain r' b' where r': "ecn_body buf mem' 0 h' (None, ''socket set to recvtos'' @ newline) = Inr (r', b')"
    using ecn by blast
  show ?thesis
    using h r r'
    by (auto simp: recv_ttl_def recv_ecn_def Let_def cmsg_loop_one [where body = "ttl_body buf mem", OF len(1) assms(3) ttl]
        cmsg_loop_one [where body = "ecn_body buf mem'", OF len(2) assms(3) ecn])
qed

theorem recv_examples_safe_witness:
  "\<exists>r. recv_ttl 4096 48 (replicate 24 255) 24 = Inr r"
  using recv_examples_safe [of "replicate 24 255" "replicate 24 0" 24 4096 48 False] by (simp add: CMSG_SPACE_def CMSG_ALIGN_def hdr_size_def)

end
