(* ===== verification/Packet.thy ===== *)
theory Packet
  imports Recv_Fields Timeval
begin

text \<open>
  The structures of \<open>packet.h\<close> and the two operations of \<open>packet.c\<close>, which send and receive
  a packet together with its hop limit, type of service and time stamp. The file does not
  compile as it stands; it is read as follows. \<open>tos_t\<close>, a union over one byte, is that
  byte, also where the code assigns an \<open>int\<close> or a pointer to it. \<open>timeval2timespec\<close> is
  declared nowhere and is a parameter. \<open>packet_size\<close>, also undeclared, only gives the flags
  and the size of the control buffer, which are the caller's here.
\<close>

section \<open>packet.h\<close>

record 'a ip_header_t =
  h_from :: 'a
  h_to :: 'a
  h_sport :: u16
  h_dport :: u16
  h_tos :: u8
  h_ttl :: u8
  h_proto :: u8
  h_csum :: u32
  h_flow :: u32

record 'a pbuffer_t =
  pb_fd :: int
  pb_type :: int
  pb_header :: "'a ip_header_t"
  pb_size :: int
  pb_ts_type :: int
  pb_seqno :: u32
  pb_nonce :: u64
  pb_ts :: timespec

section \<open>Sending\<close>

definition PKT_MTU :: nat where "PKT_MTU = 1500"

text \<open>
  A store through a pointer into \<open>pkt\<close>, which lies at address \<open>ctl\<close> and is the only object
  such a pointer may point into.
\<close>

definition store_ptr :: "nat \<Rightarrow> u8 list \<Rightarrow> nat option \<Rightarrow> nat \<Rightarrow> u8 list \<Rightarrow> u8 list result" where
  "store_ptr ctl pkt c field bs =
     (case c of
        None \<Rightarrow> Inl Segfault
      | Some q \<Rightarrow> if ctl \<le> q then write_bytes pkt (q - ctl + field) bs else Inl OutOfBounds)"

text \<open>The four assignments that fill in a message at \<open>c\<close>.\<close>

definition fill_cmsg :: "nat \<Rightarrow> u8 list \<Rightarrow> nat option \<Rightarrow> int \<Rightarrow> int \<Rightarrow> int \<Rightarrow> u8 list result" where
  "fill_cmsg ctl pkt c level type v =
     bind_r (store_ptr ctl pkt c 8 (int_bytes 4 level)) (\<lambda>pkt.
     bind_r (store_ptr ctl pkt c 12 (int_bytes 4 type)) (\<lambda>pkt.
     bind_r (store_ptr ctl pkt c 0 (int_bytes 8 (int (CMSG_LEN 4)))) (\<lambda>pkt.
     store_ptr ctl pkt c (CMSG_DATA 0) (int_bytes 4 v))))"

text \<open>
  The second argument of \<open>CMSG_NXTHDR\<close> is \<open>&c\<close>, the address \<open>cvar\<close> of the variable: what is
  read there as the length of a header is the value of \<open>c\<close>. The result is what \<open>sendmsg\<close>
  gets: the buffer, which holds the control data, and its length; \<open>data\<close> and \<open>size\<close> are
  not used.
\<close>

definition next_of_variable :: "nat \<Rightarrow> nat \<Rightarrow> nat \<Rightarrow> nat option \<Rightarrow> nat option" where
  "next_of_variable ctl controllen cvar c = CMSG_NXTHDR ctl controllen cvar (case c of None \<Rightarrow> 0 | Some q \<Rightarrow> q)"

definition send_packet ::
  "nat \<Rightarrow> nat \<Rightarrow> u8 list \<Rightarrow> 'a pbuffer_t \<Rightarrow> 'a ip_header_t \<Rightarrow> ('a pbuffer_t \<times> u8 list \<times> nat) result" where
  "send_packet ctl cvar pkt p h =
     (let c = CMSG_FIRSTHDR ctl PKT_MTU
      in assert_c (c \<noteq> None)
        (if pb_type p = IPPROTO_IP then
           bind_r (fill_cmsg ctl pkt c IPPROTO_IP IP_TOS (uint (h_tos h))) (\<lambda>pkt.
           let controllen = CMSG_LEN 4;
               c = next_of_variable ctl controllen cvar c
           in bind_r (fill_cmsg ctl pkt c IPPROTO_IP IP_TTL (uint (h_ttl h))) (\<lambda>pkt.
              Inr (p, pkt, controllen + CMSG_LEN 4)))
         else
           let p = p\<lparr>pb_type := IPPROTO_IPV6\<rparr>
           in if pb_type p \<noteq> 0 then
                bind_r (fill_cmsg ctl pkt c IPPROTO_IPV6 IPV6_TCLASS (uint (h_tos h))) (\<lambda>pkt.
                let controllen = CMSG_LEN 4;
                    c = next_of_variable ctl controllen cvar c
                in bind_r (fill_cmsg ctl pkt c IPPROTO_IPV6 IPV6_HOPLIMIT (uint (h_ttl h))) (\<lambda>pkt.
                   Inr (p, pkt, controllen + CMSG_LEN 4)))
              else Inr (p, pkt, PKT_MTU)))"

section \<open>Receiving\<close>

definition load_timeval :: "u8 list \<Rightarrow> nat \<Rightarrow> timeval result" where
  "load_timeval mem at =
     bind_r (load_long mem at) (\<lambda>s. bind_r (load_long mem (at + 8)) (\<lambda>us.
     Inr \<lparr>tv_sec = s, tv_usec = us\<rparr>))"

definition load_timespec :: "u8 list \<Rightarrow> nat \<Rightarrow> timespec result" where
  "load_timespec mem at =
     bind_r (load_long mem at) (\<lambda>s. bind_r (load_long mem (at + 8)) (\<lambda>ns.
     Inr \<lparr>ts_sec = s, ts_nsec = ns\<rparr>))"

definition set_ttl :: "u8 \<Rightarrow> 'a pbuffer_t \<Rightarrow> 'a pbuffer_t" where
  "set_ttl v p = p\<lparr>pb_header := (pb_header p)\<lparr>h_ttl := v\<rparr>\<rparr>"

definition set_tos :: "u8 \<Rightarrow> 'a pbuffer_t \<Rightarrow> 'a pbuffer_t" where
  "set_tos v p = p\<lparr>pb_header := (pb_header p)\<lparr>h_tos := v\<rparr>\<rparr>"

text \<open>\<open>(int *) CMSG_DATA(cmsg)\<close> stored in a byte: \<open>buf\<close> is the address of the control buffer.\<close>

definition ptr_byte :: "nat \<Rightarrow> nat \<Rightarrow> u8" where
  "ptr_byte buf at = word_of_nat (buf + at)"

definition recv_body ::
  "(timeval \<Rightarrow> timespec) \<Rightarrow> nat \<Rightarrow> u8 list \<Rightarrow> nat \<Rightarrow> cmsghdr \<Rightarrow> 'a pbuffer_t \<Rightarrow> ('a pbuffer_t \<times> bool) result" where
  "recv_body timeval2timespec buf mem at cmsg p =
     (if cmsg_level cmsg = SOL_SOCKET then
        (if cmsg_len cmsg \<noteq> 0 then
           if cmsg_type cmsg = SO_TIMESTAMP then
             bind_r (load_timeval mem (CMSG_DATA at)) (\<lambda>t. Inr (p\<lparr>pb_ts := timeval2timespec t\<rparr>, False))
           else if cmsg_type cmsg = SO_TIMESTAMPNS then
             bind_r (load_timespec mem (CMSG_DATA at)) (\<lambda>t. Inr (p\<lparr>pb_ts := t\<rparr>, False))
           else Inr (p, False)
         else Inr (p, False))
      else if cmsg_level cmsg = IPPROTO_IP then
        (if cmsg_len cmsg \<noteq> 0 then
           if cmsg_type cmsg = IP_TTL then Inr (set_ttl (ptr_byte buf (CMSG_DATA at)) p, False)
           else if cmsg_type cmsg = IP_TOS then Inr (set_tos (ptr_byte buf (CMSG_DATA at)) p, False)
           else Inr (p, False)
         else Inr (p, False))
      else if cmsg_level cmsg = IPPROTO_IPV6 then
        (if cmsg_len cmsg \<noteq> 0 then
           if cmsg_type cmsg = IPV6_HOPLIMIT then Inr (set_ttl (ptr_byte buf (CMSG_DATA at)) p, False)
           else if cmsg_type cmsg = IPV6_TCLASS then Inr (set_tos (ptr_byte buf (CMSG_DATA at)) p, False)
           else Inr (p, False)
         else Inr (p, False))
      else Inr (p, False))"

definition zero_ts :: timespec where "zero_ts = \<lparr>ts_sec = 0, ts_nsec = 0\<rparr>"

definition cleared :: "'a pbuffer_t \<Rightarrow> 'a pbuffer_t" where
  "cleared p = (set_tos 0 (set_ttl 0 p))\<lparr>pb_ts := zero_ts\<rparr>"

text \<open>
  \<open>n\<close>, \<open>mem\<close> and \<open>controllen\<close> are the answer of \<open>recvmsg\<close> and what it has left in the control
  buffer; \<open>clock\<close> is the answer of the clock. Three of the four \<open>iovec\<close>s are
  uninitialised: which part of the data arrives, and where, is up to the kernel, and so is
  \<open>n\<close>. The result is \<open>n\<close> and \<open>*p\<close>.
\<close>

definition recv_pbuffer ::
  "(timeval \<Rightarrow> timespec) \<Rightarrow> int \<times> timespec \<Rightarrow> nat \<Rightarrow> 'a pbuffer_t \<Rightarrow> int \<Rightarrow> u8 list \<Rightarrow> nat \<Rightarrow>
   (int \<times> 'a pbuffer_t) result" where
  "recv_pbuffer timeval2timespec clock buf p n mem controllen =
     bind_r
       (if n > 0 then
          bind_r (cmsg_loop mem controllen (recv_body timeval2timespec buf mem) (cleared p)) (\<lambda>r. Inr (fst r))
        else Inr (cleared p)) (\<lambda>p.
     if n > 0 \<and> ts_sec (pb_ts p) = 0 \<and> ts_nsec (pb_ts p) = 0
     then bind_r (twd_gettime clock) (\<lambda>r. Inr (n, p\<lparr>pb_ts := snd r\<rparr>))
     else Inr (n, p))"

section \<open>What the messages of a packet say\<close>

definition stamp_cmsg :: "cmsg \<Rightarrow> bool" where
  "stamp_cmsg m \<longleftrightarrow> c_level m = SOL_SOCKET \<and> (c_type m = SO_TIMESTAMP \<or> c_type m = SO_TIMESTAMPNS)"

definition ttl_cmsg :: "cmsg \<Rightarrow> bool" where
  "ttl_cmsg m \<longleftrightarrow> c_level m = IPPROTO_IP \<and> c_type m = IP_TTL \<or> c_level m = IPPROTO_IPV6 \<and> c_type m = IPV6_HOPLIMIT"

definition tos_cmsg :: "cmsg \<Rightarrow> bool" where
  "tos_cmsg m \<longleftrightarrow> c_level m = IPPROTO_IP \<and> c_type m = IP_TOS \<or> c_level m = IPPROTO_IPV6 \<and> c_type m = IPV6_TCLASS"

definition bytes_long :: "u8 list \<Rightarrow> int" where
  "bytes_long bs = signed_take_bit 63 (bytes_int (take 8 bs))"

definition stamp :: "(timeval \<Rightarrow> timespec) \<Rightarrow> cmsg \<Rightarrow> timespec" where
  "stamp conv m =
     (if c_type m = SO_TIMESTAMP
      then conv \<lparr>tv_sec = bytes_long (c_data m), tv_usec = bytes_long (drop 8 (c_data m))\<rparr>
      else \<lparr>ts_sec = bytes_long (c_data m), ts_nsec = bytes_long (drop 8 (c_data m))\<rparr>)"

definition stamps_ok :: "cmsg list \<Rightarrow> bool" where
  "stamps_ok ms \<longleftrightarrow> list_all (\<lambda>m. stamp_cmsg m \<longrightarrow> 16 \<le> length (c_data m)) ms"

text \<open>The position of the last message with a property.\<close>

fun last_at :: "(cmsg \<Rightarrow> bool) \<Rightarrow> nat \<Rightarrow> cmsg list \<Rightarrow> nat option" where
  "last_at P at [] = None"
| "last_at P at (m # ms) =
     (case last_at P (at + length (put_cmsg m)) ms of
        Some q \<Rightarrow> Some q
      | None \<Rightarrow> if P m then Some at else None)"

definition ptr_at :: "nat \<Rightarrow> nat option \<Rightarrow> u8 \<Rightarrow> u8" where
  "ptr_at buf q old = (case q of None \<Rightarrow> old | Some at \<Rightarrow> ptr_byte buf (CMSG_DATA at))"

text \<open>\<open>*p\<close> after the loop: what the last message of each kind leaves.\<close>

definition settled ::
  "(timeval \<Rightarrow> timespec) \<Rightarrow> nat \<Rightarrow> 'a pbuffer_t \<Rightarrow> nat option \<Rightarrow> nat option \<Rightarrow> cmsg option \<Rightarrow> 'a pbuffer_t" where
  "settled conv buf p ttl tos t =
     p\<lparr>pb_header := (pb_header p)\<lparr>h_tos := ptr_at buf tos (h_tos (pb_header p)),
                                  h_ttl := ptr_at buf ttl (h_ttl (pb_header p))\<rparr>,
       pb_ts := (case t of None \<Rightarrow> pb_ts p | Some m \<Rightarrow> stamp conv m)\<rparr>"

definition settle_msgs :: "(timeval \<Rightarrow> timespec) \<Rightarrow> nat \<Rightarrow> 'a pbuffer_t \<Rightarrow> cmsg list \<Rightarrow> 'a pbuffer_t" where
  "settle_msgs conv buf p ms =
     settled conv buf (cleared p) (last_at ttl_cmsg 0 ms) (last_at tos_cmsg 0 ms) (find stamp_cmsg (rev ms))"

section \<open>Lemmas\<close>

definition note_cmsg :: "(timeval \<Rightarrow> timespec) \<Rightarrow> nat \<Rightarrow> nat \<Rightarrow> cmsg \<Rightarrow> 'a pbuffer_t \<Rightarrow> 'a pbuffer_t" where
  "note_cmsg conv buf at m p =
     (if stamp_cmsg m then p\<lparr>pb_ts := stamp conv m\<rparr>
      else if ttl_cmsg m then set_ttl (ptr_byte buf (CMSG_DATA at)) p
      else if tos_cmsg m then set_tos (ptr_byte buf (CMSG_DATA at)) p
      else p)"

lemma load_stamp:
  assumes "16 \<le> length (c_data m)"
  shows "load_long (a @ put_cmsg m @ c) (CMSG_DATA (length a)) = Inr (bytes_long (c_data m))"
    and "load_long (a @ put_cmsg m @ c) (CMSG_DATA (length a) + 8) = Inr (bytes_long (drop 8 (c_data m)))"
  using assms by (simp_all add: load_long_def read_bytes_def CMSG_DATA_def put_cmsg_def hdr_size_def bytes_long_def)

definition stamp_long :: "cmsg \<Rightarrow> bool" where
  "stamp_long m \<longleftrightarrow> (stamp_cmsg m \<longrightarrow> 16 \<le> length (c_data m))"

interpretation packet: cmsg_reader "recv_body conv buf" stamp_long "\<lambda>at m p. (note_cmsg conv buf at m p, False)"
  for conv buf
proof
  fix m a c and p :: "'a pbuffer_t"
  assume "stamp_long m"
  then have assms: "stamp_cmsg m \<Longrightarrow> 16 \<le> length (c_data m)" by (simp add: stamp_long_def)
  show "recv_body conv buf (a @ put_cmsg m @ c) (length a) (cmsg_hdr m) p = Inr (note_cmsg conv buf (length a) m p, False)"
  proof (cases "stamp_cmsg m")
    case True
    with assms have long: "16 \<le> length (c_data m)" by simp
    from True show ?thesis
      by (auto simp: recv_body_def cmsg_hdr_def CMSG_LEN_def hdr_size_def load_timeval_def load_timespec_def
          load_stamp [OF long] note_cmsg_def stamp_def stamp_cmsg_def)
  next
    case False
    then show ?thesis
      by (auto simp: recv_body_def cmsg_hdr_def CMSG_LEN_def hdr_size_def note_cmsg_def stamp_cmsg_def
          ttl_cmsg_def tos_cmsg_def level_defs)
  qed
qed

lemma find_rev_Cons:
  "find P (rev (m # ms)) = (case find P (rev ms) of Some x \<Rightarrow> Some x | None \<Rightarrow> if P m then Some m else None)"
proof -
  have "find P (xs @ [m]) = (case find P xs of Some x \<Rightarrow> Some x | None \<Rightarrow> if P m then Some m else None)" for xs
    by (induction xs) simp_all
  then show ?thesis by simp
qed

lemma kinds_exclusive:
  "stamp_cmsg m \<Longrightarrow> \<not> ttl_cmsg m" "stamp_cmsg m \<Longrightarrow> \<not> tos_cmsg m" "ttl_cmsg m \<Longrightarrow> \<not> tos_cmsg m"
  by (auto simp: stamp_cmsg_def ttl_cmsg_def tos_cmsg_def level_defs)

lemma settled_note:
  "settled conv buf (note_cmsg conv buf at m p) ttl tos t =
   settled conv buf p (case ttl of Some q \<Rightarrow> Some q | None \<Rightarrow> if ttl_cmsg m then Some at else None)
     (case tos of Some q \<Rightarrow> Some q | None \<Rightarrow> if tos_cmsg m then Some at else None)
     (case t of Some x \<Rightarrow> Some x | None \<Rightarrow> if stamp_cmsg m then Some m else None)"
  using kinds_exclusive [of m]
  by (auto simp: settled_def note_cmsg_def set_ttl_def set_tos_def ptr_at_def split: option.splits)

lemma fold_note:
  "fold_cmsgs (\<lambda>at m p. Inr (note_cmsg conv buf at m p, False)) at ms p =
   Inr (settled conv buf p (last_at ttl_cmsg at ms) (last_at tos_cmsg at ms) (find stamp_cmsg (rev ms)), None)"
proof (induction ms arbitrary: at p)
  case Nil
  show ?case by (simp add: settled_def ptr_at_def)
next
  case (Cons m ms)
  show ?case by (simp add: Cons.IH settled_note find_rev_Cons del: rev.simps)
qed

lemma recv_loop_cmsgs:
  assumes "cmsgs_ok ms" "stamps_ok ms"
  shows "cmsg_loop (put_cmsgs ms @ post) (length (put_cmsgs ms)) (recv_body conv buf (put_cmsgs ms @ post)) (cleared p) =
    Inr (settle_msgs conv buf p ms, None)"
proof -
  have "list_all stamp_long ms" using assms(2) by (simp add: stamps_ok_def list_all_iff stamp_long_def)
  then show ?thesis
    using packet.loop_refines [OF assms(1)] by (simp add: fold_note settle_msgs_def)
qed

lemma recv_pbuffer_cmsgs:
  assumes "cmsgs_ok ms" "stamps_ok ms"
  shows "recv_pbuffer conv clock buf p n (put_cmsgs ms @ post) (length (put_cmsgs ms)) =
    (if n \<le> 0 then Inr (n, cleared p)
     else let q = settle_msgs conv buf p ms
          in if pb_ts q = zero_ts
             then (if fst clock = -1 then Inl (Exit 1) else Inr (n, q\<lparr>pb_ts := snd clock\<rparr>))
             else Inr (n, q))"
  unfolding recv_pbuffer_def recv_loop_cmsgs [OF assms]
  by (auto simp: Let_def twd_gettime_def zero_ts_def)

lemma fill_first:
  assumes "20 \<le> length pkt"
  shows "\<exists>pkt'. fill_cmsg ctl pkt (Some ctl) level type v = Inr pkt' \<and> length pkt' = length pkt"
  using assms by (simp add: fill_cmsg_def store_ptr_def write_bytes_def CMSG_DATA_def hdr_size_def)

lemma fill_null: "fill_cmsg ctl pkt None level type v = Inl Segfault"
  by (simp add: fill_cmsg_def store_ptr_def)

lemma fill_outside: "ctl + length pkt \<le> q \<Longrightarrow> fill_cmsg ctl pkt (Some q) level type v = Inl OutOfBounds"
  by (simp add: fill_cmsg_def store_ptr_def write_bytes_def)

lemma next_of_variable_stack:
  assumes "4096 \<le> cvar" "cvar < 2 ^ 47" "4096 \<le> ctl" "ctl < 2 ^ 47"
  shows "next_of_variable ctl 20 cvar (Some ctl) =
    (if cvar \<le> ctl + 20 then None else Some (cvar + CMSG_ALIGN ctl))"
proof -
  have pad: "CMSG_PADDING ctl < 8" by (simp add: CMSG_PADDING_def)
  let ?room = "nat ((int ctl + int 20 - int cvar) mod 2 ^ 64)"
  show ?thesis
  proof (cases "cvar \<le> ctl + 20")
    case True
    then have "(int ctl + int 20 - int cvar) mod 2 ^ 64 = int ctl + int 20 - int cvar"
      using assms by (intro mod_pos_pos_trivial) simp_all
    then have "?room < ctl" using assms True by simp
    then have "?room - k < ctl" for k by (rule less_imp_diff_less)
    with True show ?thesis by (simp add: next_of_variable_def CMSG_NXTHDR_def Let_def)
  next
    case False
    have "(int ctl + int 20 - int cvar) mod 2 ^ 64 = (int ctl + int 20 - int cvar + 2 ^ 64) mod 2 ^ 64"
      by (rule mod_add_self2 [symmetric])
    also have "\<dots> = int ctl + int 20 - int cvar + 2 ^ 64"
      using assms False by (intro mod_pos_pos_trivial) simp_all
    finally have "?room = nat (int ctl + int 20 - int cvar + 2 ^ 64)" by simp
    then have "2 ^ 64 \<le> ?room + 2 ^ 47" using assms False by simp
    then have "\<not> (?room < hdr_size + CMSG_PADDING ctl \<or> ?room - (hdr_size + CMSG_PADDING ctl) < ctl)"
      using assms pad by (simp add: hdr_size_def)
    with False assms show ?thesis
      by (simp add: next_of_variable_def CMSG_NXTHDR_def Let_def hdr_size_def)
  qed
qed

section \<open>Properties\<close>

text \<open>
  C20: \<open>recv_pbuffer\<close> takes the time stamp from the last message that carries one, or from
  the clock when there is none or it is zero. The hop limit and the type of service it
  stores are the low byte of an address: where in the buffer the last such message lies.
\<close>

theorem recv_pbuffer_result:
  assumes "cmsgs_ok ms" "stamps_ok ms"
  shows "recv_pbuffer conv clock buf p n (put_cmsgs ms @ post) (length (put_cmsgs ms)) =
    (if n \<le> 0 then Inr (n, cleared p)
     else let t = (case find stamp_cmsg (rev ms) of None \<Rightarrow> zero_ts | Some m \<Rightarrow> stamp conv m);
              q = p\<lparr>pb_header := (pb_header p)\<lparr>h_tos := ptr_at buf (last_at tos_cmsg 0 ms) 0,
                                               h_ttl := ptr_at buf (last_at ttl_cmsg 0 ms) 0\<rparr>\<rparr>
          in if t \<noteq> zero_ts then Inr (n, q\<lparr>pb_ts := t\<rparr>)
             else if fst clock = -1 then Inl (Exit 1)
             else Inr (n, q\<lparr>pb_ts := snd clock\<rparr>))"
  unfolding recv_pbuffer_cmsgs [OF assms]
  by (simp add: settle_msgs_def settled_def cleared_def set_tos_def set_ttl_def Let_def cong: option.case_cong)

definition blank :: "unit pbuffer_t" where
  "blank = \<lparr>pb_fd = 3, pb_type = 0,
     pb_header = \<lparr>h_from = (), h_to = (), h_sport = 0, h_dport = 0, h_tos = 9, h_ttl = 9, h_proto = 17,
       h_csum = 0, h_flow = 0\<rparr>,
     pb_size = 0, pb_ts_type = 0, pb_seqno = 0, pb_nonce = 0, pb_ts = \<lparr>ts_sec = 5, ts_nsec = 5\<rparr>\<rparr>"

lemma example_positions:
  "last_at tos_cmsg 0 ttl_and_tos = Some 32" "last_at ttl_cmsg 0 ttl_and_tos = Some 56"
  "find stamp_cmsg (rev ttl_and_tos) = Some (ttl_and_tos ! 0)"
  "stamp convert_timeval2timespec (ttl_and_tos ! 0) = zero_ts"
  "ptr_byte 4096 (CMSG_DATA 32) = 48" "ptr_byte 4096 (CMSG_DATA 56) = 72"
  by code_simp+

lemma example_stamps: "stamps_ok ttl_and_tos"
  by (simp add: stamps_ok_def ttl_and_tos_def stamp_cmsg_def level_defs)

theorem recv_pbuffer_result_witness:
  "recv_pbuffer convert_timeval2timespec (0, \<lparr>ts_sec = 7, ts_nsec = 1\<rparr>) 4096 blank 48 (put_cmsgs ttl_and_tos) 80 =
     Inr (48, blank\<lparr>pb_header := (pb_header blank)\<lparr>h_tos := 48, h_ttl := 72\<rparr>, pb_ts := \<lparr>ts_sec = 7, ts_nsec = 1\<rparr>\<rparr>)"
  using recv_pbuffer_result [OF ttl_and_tos_ok example_stamps, of convert_timeval2timespec
      "(0, \<lparr>ts_sec = 7, ts_nsec = 1\<rparr>)" 4096 blank 48 "[]"]
  by (simp add: ttl_and_tos_length example_positions ptr_at_def Let_def)

definition same_shape :: "cmsg list \<Rightarrow> cmsg list \<Rightarrow> bool" where
  "same_shape ms ms' \<longleftrightarrow>
     map (\<lambda>m. (c_level m, c_type m, length (c_data m), length (c_pad m))) ms =
     map (\<lambda>m. (c_level m, c_type m, length (c_data m), length (c_pad m))) ms'"

lemma last_at_shape:
  assumes "same_shape ms ms'" "\<And>m m'. c_level m = c_level m' \<Longrightarrow> c_type m = c_type m' \<Longrightarrow> P m = P m'"
  shows "last_at P at ms = last_at P at ms'"
  using assms(1)
proof (induction ms arbitrary: at ms')
  case Nil
  then show ?case by (simp add: same_shape_def)
next
  case (Cons m ms)
  then obtain m' ns where ms': "ms' = m' # ns" and eq: "c_level m = c_level m'" "c_type m = c_type m'"
    "length (put_cmsg m) = length (put_cmsg m')" and shape: "same_shape ms ns"
    by (cases ms') (auto simp: same_shape_def put_cmsg_def)
  show ?case using Cons.IH [OF shape] assms(2) [OF eq(1,2)] eq(3) by (simp add: ms')
qed

text \<open>
  the hop limit and the type of service of a received packet do not reach the
  program: two packets whose messages differ only in their data are given the same ones.
\<close>

theorem recv_pbuffer_ignores_data:
  assumes "cmsgs_ok ms" "stamps_ok ms" "cmsgs_ok ms'" "stamps_ok ms'" "same_shape ms ms'"
  shows "case (recv_pbuffer conv clock buf p n (put_cmsgs ms) (length (put_cmsgs ms)),
               recv_pbuffer conv clock buf p n (put_cmsgs ms') (length (put_cmsgs ms'))) of
      (Inr (k, q), Inr (k', q')) \<Rightarrow> pb_header q = pb_header q'
    | _ \<Rightarrow> True"
proof -
  have "last_at ttl_cmsg 0 ms = last_at ttl_cmsg 0 ms'" "last_at tos_cmsg 0 ms = last_at tos_cmsg 0 ms'"
    using assms(5) by (rule last_at_shape; simp add: ttl_cmsg_def tos_cmsg_def)+
  then have "pb_header (settle_msgs conv buf p ms) = pb_header (settle_msgs conv buf p ms')"
    by (simp add: settle_msgs_def settled_def)
  moreover note recv_pbuffer_cmsgs [OF assms(1,2), of conv clock buf p n "[]"]
    recv_pbuffer_cmsgs [OF assms(3,4), of conv clock buf p n "[]"]
  ultimately show ?thesis by (simp add: Let_def)
qed

definition other_values :: "cmsg list" where
  "other_values =
     [\<lparr>c_level = SOL_SOCKET, c_type = SO_TIMESTAMP, c_data = replicate 16 1, c_pad = []\<rparr>,
      \<lparr>c_level = IPPROTO_IP, c_type = IP_TOS, c_data = [0], c_pad = replicate 7 0\<rparr>,
      \<lparr>c_level = IPPROTO_IP, c_type = IP_TTL, c_data = [1, 0, 0, 0], c_pad = replicate 4 0\<rparr>]"

theorem recv_pbuffer_ignores_data_witness:
  "case (recv_pbuffer convert_timeval2timespec (0, zero_ts) 4096 blank 48 (put_cmsgs ttl_and_tos) 80,
         recv_pbuffer convert_timeval2timespec (0, zero_ts) 4096 blank 48 (put_cmsgs other_values) 80) of
      (Inr (k, q), Inr (k', q')) \<Rightarrow> pb_header q = pb_header q'
    | _ \<Rightarrow> True"
proof -
  have "cmsgs_ok other_values" "stamps_ok other_values" "same_shape ttl_and_tos other_values"
    "length (put_cmsgs other_values) = 80"
    by (simp_all add: cmsgs_ok_def other_values_def cmsg_ok_def is_int_def level_defs INT_MIN_def INT_MAX_def
      CMSG_PADDING_def CMSG_LEN_def hdr_size_def put_cmsg_def stamps_ok_def stamp_cmsg_def same_shape_def
      ttl_and_tos_def)
  with recv_pbuffer_ignores_data [OF ttl_and_tos_ok example_stamps this(1-3)] show ?thesis
    unfolding ttl_and_tos_length by metis
qed

text \<open>
  C28: for every packet of either type \<open>send_packet\<close> stops before it sends: the pointer to
  its second message is null, or far outside its buffer, depending on where the variable
  \<open>c\<close> lies. Passing \<open>c\<close> itself would not help: the length it has just set leaves no room.
\<close>

theorem send_packet_faults:
  assumes "length pkt = PKT_MTU" "4096 \<le> cvar" "cvar < 2 ^ 47" "4096 \<le> ctl" "ctl < 2 ^ 47"
  shows "send_packet ctl cvar pkt p h = Inl (if cvar \<le> ctl + 20 then Segfault else OutOfBounds) \<and>
    CMSG_NXTHDR ctl (CMSG_LEN 4) ctl (CMSG_LEN 4) = None"
proof
  have first: "CMSG_FIRSTHDR ctl PKT_MTU = Some ctl" by (simp add: CMSG_FIRSTHDR_def PKT_MTU_def hdr_size_def)
  have len: "CMSG_LEN 4 = 20" by (simp add: CMSG_LEN_def hdr_size_def)
  have second: "bind_r (fill_cmsg ctl pkt (Some ctl) level type v) (\<lambda>pkt.
      bind_r (fill_cmsg ctl pkt (next_of_variable ctl 20 cvar (Some ctl)) level' type' v') (f pkt)) =
    Inl (if cvar \<le> ctl + 20 then Segfault else OutOfBounds)" for level type v level' type' v'
    and f :: "u8 list \<Rightarrow> u8 list \<Rightarrow> 'b result"
  proof -
    obtain pkt' where pkt': "fill_cmsg ctl pkt (Some ctl) level type v = Inr pkt'" "length pkt' = 1500"
      using fill_first [of pkt ctl level type v] assms(1) by (auto simp: PKT_MTU_def)
    have "ctl + length pkt' \<le> cvar + CMSG_ALIGN ctl"
      using assms(2) by (simp add: pkt'(2) CMSG_ALIGN_padding)
    then show ?thesis
      by (simp add: pkt'(1) next_of_variable_stack [OF assms(2-5)] fill_null fill_outside)
  qed
  show "send_packet ctl cvar pkt p h = Inl (if cvar \<le> ctl + 20 then Segfault else OutOfBounds)"
    by (simp add: send_packet_def Let_def first len second IPPROTO_IPV6_def)
  show "CMSG_NXTHDR ctl (CMSG_LEN 4) ctl (CMSG_LEN 4) = None"
    by (simp add: CMSG_NXTHDR_def Let_def len hdr_size_def CMSG_PADDING_def)
qed

theorem send_packet_faults_witness:
  "send_packet 140000000000000 139999999998000 (replicate 1500 0) blank (pb_header blank) = Inl Segfault"
  using send_packet_faults [of "replicate 1500 0" 139999999998000 140000000000000 blank "pb_header blank"]
  by (simp add: PKT_MTU_def)

text \<open>
  C29: whatever control data it is given, \<open>recv_pbuffer\<close> ends, returns the answer of
  \<open>recvmsg\<close> or exits because the clock fails, and reads nothing beyond 16 bytes behind them.
\<close>

theorem recv_pbuffer_safe:
  assumes "controllen + 16 \<le> length mem" "controllen < 2 ^ 64"
  shows "(\<exists>q. recv_pbuffer conv clock buf p n mem controllen = Inr (n, q)) \<or>
    recv_pbuffer conv clock buf p n mem controllen = Inl (Exit 1)"
proof -
  have load: "\<exists>v. load_long mem (CMSG_DATA at) = Inr v" "\<exists>v. load_long mem (CMSG_DATA at + 8) = Inr v"
    if "at + 16 \<le> controllen" for at
    using that assms(1) by (simp_all add: load_long_def read_bytes_def CMSG_DATA_def hdr_size_def)
  have "\<exists>s' c. cmsg_loop mem controllen (recv_body conv buf mem) (cleared p) = Inr (s', c) \<and> True"
  proof (rule cmsg_loop_total [where I = "\<lambda>_. True"])
    fix at h and s :: "'a pbuffer_t" assume "at + 16 \<le> controllen"
    with load obtain v w where "load_long mem (CMSG_DATA at) = Inr v" "load_long mem (CMSG_DATA at + 8) = Inr w"
      by blast
    then show "\<exists>s' b. recv_body conv buf mem at h s = Inr (s', b) \<and> (if b then True else True)"
      by (auto simp: recv_body_def load_timeval_def load_timespec_def intro: exI [of _ False])
  qed (use assms in simp_all)
  then obtain q c where "cmsg_loop mem controllen (recv_body conv buf mem) (cleared p) = Inr (q, c)" by blast
  then show ?thesis by (simp add: recv_pbuffer_def twd_gettime_def)
qed

theorem recv_pbuffer_safe_witness:
  "(\<exists>q. recv_pbuffer convert_timeval2timespec (0, zero_ts) 4096 blank 48 (replicate 64 17) 48 = Inr (48, q)) \<or>
   recv_pbuffer convert_timeval2timespec (0, zero_ts) 4096 blank 48 (replicate 64 17) 48 = Inl (Exit 1)"
  using recv_pbuffer_safe [of 48 "replicate 64 17" convert_timeval2timespec "(0, zero_ts)" 4096 blank 48] by simp

end
