(* ===== verification/Sockopts.thy ===== *)
theory Sockopts
  imports Prelude
begin

text \<open>
  \<open>setup_sockets\<close> of \<open>useful_setsockopts.c\<close> as the sequence of its calls. The file is not in
  the build and does not compile; it is read as follows. The function has one closing brace
  less than it opens (the rest of the file is a comment), and is read with the missing one at
  its end: everything behind the test of the family is inside it, as the braces say and not as
  the indentation does. \<open>ecn\<close>, \<open>ttl\<close>, \<open>l_ttl\<close> and \<open>out_if\<close>, which
  are declared nowhere, are parameters, with the sizes of the first two. The answers of
  \<open>setsockopt\<close> are the parameter \<open>fails\<close>; each option is set at most once.
\<close>

section \<open>Data\<close>

text \<open>\<open>struct socket_options\<close>; \<open>sndbuf\<close>, which it declares twice, is one field.\<close>

record socket_options =
  so_sock :: int
  so_sock_type :: int
  so_rcvbuf :: int
  so_sndbuf :: int
  so_family :: family
  so_mtu :: int
  so_ttl :: u8
  so_dscp :: u8
  so_ecn :: int
  so_multicast :: bool

text \<open>A level and a name.\<close>

datatype sockopt =
    SOL_SOCKET_RCVBUF | SOL_SOCKET_SNDBUF | IPV6_MTU_DISCOVER | IPV6_TCLASS_opt | IP_TOS_opt
  | IP_MTU_DISCOVER | IPV6_MULTICAST_HOPS | IPV6_MULTICAST_IF | IP_MULTICAST_TTL | IP_MULTICAST_IF

datatype call =
    Setsockopt sockopt int nat
  | Socket_error string
  | Socket_warn string
  | Socket_close

text \<open>What is defined when the file is compiled, and what the undeclared names stand for.\<close>

record sockopt_build =
  has_ipv6_mtu_discover :: bool
  has_ipv6_tclass :: bool
  has_ip_mtu_discover :: bool
  use_multicast :: bool

record sockopt_env =
  e_ecn :: int
  e_ttl :: "int \<times> nat"
  e_l_ttl :: "int \<times> nat"
  e_ifidx :: int
  e_sin_addr :: int

definition IP_PMTUDISC_DONT :: int where "IP_PMTUDISC_DONT = 0"

section \<open>The function\<close>

text \<open>The calls made, and the status the program has exited with, if it has.\<close>

type_synonym run = "call list \<times> int option"

definition proceed :: run where "proceed = ([], None)"

definition andthen :: "run \<Rightarrow> run \<Rightarrow> run" where
  "andthen r s = (case snd r of None \<Rightarrow> (fst r @ fst s, snd s) | Some c \<Rightarrow> r)"

definition set_or_exit :: "(sockopt \<Rightarrow> bool) \<Rightarrow> sockopt \<Rightarrow> int \<Rightarrow> nat \<Rightarrow> string \<Rightarrow> bool \<Rightarrow> run" where
  "set_or_exit fails opt v sz msg closes =
     (if fails opt
      then ([Setsockopt opt v sz, Socket_error msg] @ (if closes then [Socket_close] else []), Some 1)
      else ([Setsockopt opt v sz], None))"

definition set_or_warn :: "(sockopt \<Rightarrow> bool) \<Rightarrow> sockopt \<Rightarrow> int \<Rightarrow> nat \<Rightarrow> string \<Rightarrow> run" where
  "set_or_warn fails opt v sz msg =
     ([Setsockopt opt v sz] @ (if fails opt then [Socket_warn msg] else []), None)"

definition setup_multicast :: "(sockopt \<Rightarrow> bool) \<Rightarrow> sockopt_env \<Rightarrow> run" where
  "setup_multicast fails e =
     andthen (set_or_exit fails IPV6_MULTICAST_HOPS (fst (e_ttl e)) (snd (e_ttl e)) ''Error setting ttl'' True)
     (andthen (set_or_exit fails IPV6_MULTICAST_IF (e_ifidx e) 4 ''Error setting outgoing interface'' True)
     (andthen (set_or_exit fails IP_MULTICAST_TTL (fst (e_l_ttl e)) (snd (e_l_ttl e)) ''Error setting ttl'' True)
     (set_or_exit fails IP_MULTICAST_IF (e_sin_addr e) 4 ''Error setting outgoing interface'' True)))"

text \<open>
  The calls, and \<open>*o\<close> when the function returns or exits: \<open>if(o->family = AF_INET)\<close> assigns,
  when the run gets as far as that (\<open>before\<close>), and \<open>AF_INET\<close> is not 0. \<open>mtuflag\<close> is computed
  twice, but the first option gets \<open>o->mtu\<close>.
\<close>

definition setup_sockets ::
  "sockopt_build \<Rightarrow> (sockopt \<Rightarrow> bool) \<Rightarrow> sockopt_env \<Rightarrow> socket_options \<Rightarrow> run \<times> socket_options" where
  "setup_sockets b fails e s =
     (let dscp = uint (so_dscp s) OR e_ecn e;
          buffers =
            andthen
              (if so_rcvbuf s \<noteq> 0
               then set_or_exit fails SOL_SOCKET_RCVBUF (so_rcvbuf s) 4 ''Error setting receive buffer size'' False
               else proceed)
              (if so_sndbuf s \<noteq> 0
               then set_or_exit fails SOL_SOCKET_SNDBUF (so_sndbuf s) 4 ''Error setting send buffer size'' False
               else proceed)
      in if so_family s = AF_INET6 then
           let mtu6 =
                 (if has_ipv6_mtu_discover b
                  then set_or_exit fails IPV6_MTU_DISCOVER (so_mtu s) 4 ''Error disabling MTU discovery'' True
                  else proceed);
               tclass =
                 (if has_ipv6_tclass b \<and> so_family s = AF_INET6
                  then set_or_warn fails IPV6_TCLASS_opt dscp 4 ''Error setting dscp'' else proceed);
               before = andthen buffers (andthen mtu6 tclass);
               s = (if snd before = None then s\<lparr>so_family := AF_INET\<rparr> else s)
           in (andthen before
              (andthen
                 (set_or_warn fails IP_TOS_opt dscp 4 ''Error setting dscp'')
              (andthen
                 (if has_ip_mtu_discover b
                  then set_or_exit fails IP_MTU_DISCOVER IP_PMTUDISC_DONT 4 ''Error disabling MTU discovery'' True
                  else proceed)
                 (if use_multicast b \<and> so_multicast s then setup_multicast fails e else proceed))), s)
         else (buffers, s))"

section \<open>The options it should set\<close>

text \<open>Each option with its value, its size, and whether its failure ends the program.\<close>

type_synonym wanted = "sockopt \<times> int \<times> nat \<times> bool"

definition buffer_options :: "socket_options \<Rightarrow> wanted list" where
  "buffer_options s =
     (if so_rcvbuf s \<noteq> 0 then [(SOL_SOCKET_RCVBUF, so_rcvbuf s, 4, True)] else []) @
     (if so_sndbuf s \<noteq> 0 then [(SOL_SOCKET_SNDBUF, so_sndbuf s, 4, True)] else [])"

definition ip_options :: "sockopt_build \<Rightarrow> sockopt_env \<Rightarrow> socket_options \<Rightarrow> wanted list" where
  "ip_options b e s =
     (let dscp = uint (so_dscp s) OR e_ecn e in
      (if has_ipv6_mtu_discover b then [(IPV6_MTU_DISCOVER, so_mtu s, 4, True)] else []) @
      (if has_ipv6_tclass b then [(IPV6_TCLASS_opt, dscp, 4, False)] else []) @
      [(IP_TOS_opt, dscp, 4, False)] @
      (if has_ip_mtu_discover b then [(IP_MTU_DISCOVER, 0, 4, True)] else []) @
      (if use_multicast b \<and> so_multicast s
       then [(IPV6_MULTICAST_HOPS, fst (e_ttl e), snd (e_ttl e), True), (IPV6_MULTICAST_IF, e_ifidx e, 4, True),
             (IP_MULTICAST_TTL, fst (e_l_ttl e), snd (e_l_ttl e), True), (IP_MULTICAST_IF, e_sin_addr e, 4, True)]
       else []))"

definition wanted_options :: "sockopt_build \<Rightarrow> sockopt_env \<Rightarrow> socket_options \<Rightarrow> wanted list" where
  "wanted_options b e s =
     buffer_options s @ (if so_family s = AF_INET6 then ip_options b e s else [])"

definition ends :: "(sockopt \<Rightarrow> bool) \<Rightarrow> wanted \<Rightarrow> bool" where
  "ends fails w \<longleftrightarrow> fails (fst w) \<and> snd (snd (snd w))"

text \<open>The options up to and including the first one that ends the program.\<close>

fun up_to :: "('a \<Rightarrow> bool) \<Rightarrow> 'a list \<Rightarrow> 'a list" where
  "up_to P [] = []"
| "up_to P (x # xs) = x # (if P x then [] else up_to P xs)"

definition options_set :: "call list \<Rightarrow> (sockopt \<times> int \<times> nat) list" where
  "options_set cs = concat (map (\<lambda>c. case c of Setsockopt opt v sz \<Rightarrow> [(opt, v, sz)] | _ \<Rightarrow> []) cs)"

definition warnings :: "call list \<Rightarrow> nat" where
  "warnings cs = length (filter (\<lambda>c. case c of Socket_warn _ \<Rightarrow> True | _ \<Rightarrow> False) cs)"

text \<open>A run that sets these options one by one.\<close>

definition realises :: "(sockopt \<Rightarrow> bool) \<Rightarrow> run \<Rightarrow> wanted list \<Rightarrow> bool" where
  "realises fails r ws \<longleftrightarrow>
     options_set (fst r) = map (\<lambda>(opt, v, sz, _). (opt, v, sz)) (up_to (ends fails) ws) \<and>
     snd r = (if list_ex (ends fails) ws then Some 1 else None) \<and>
     warnings (fst r) = length (filter (\<lambda>w. fails (fst w) \<and> \<not> ends fails w) (up_to (ends fails) ws))"

section \<open>Lemmas\<close>

lemma options_set_append: "options_set (cs @ ds) = options_set cs @ options_set ds"
  by (simp add: options_set_def)

lemma warnings_append: "warnings (cs @ ds) = warnings cs + warnings ds"
  by (simp add: warnings_def)

lemma up_to_append:
  "up_to P (xs @ ys) = (if list_ex P xs then up_to P xs else up_to P xs @ up_to P ys)"
  by (induction xs) auto

lemma up_to_none: "(\<And>x. \<not> P x) \<Longrightarrow> up_to P xs = xs"
  by (induction xs) simp_all

lemma realises_proceed: "realises fails proceed []"
  by (simp add: realises_def proceed_def options_set_def warnings_def)

lemma realises_andthen:
  assumes "realises fails r ws" "realises fails r' ws'"
  shows "realises fails (andthen r r') (ws @ ws')"
  using assms
  by (auto simp: realises_def andthen_def up_to_append options_set_append warnings_append split: if_splits)

lemma andthen_assoc: "andthen (andthen r s) t = andthen r (andthen s t)"
  by (simp add: andthen_def split: option.splits)

lemma multicast_kept: "so_multicast (if c then s\<lparr>so_family := f\<rparr> else s) = so_multicast s"
  by simp

lemma realises_exit: "realises fails (set_or_exit fails opt v sz msg closes) [(opt, v, sz, True)]"
  by (simp add: realises_def set_or_exit_def ends_def options_set_def warnings_def)

lemma realises_warn: "realises fails (set_or_warn fails opt v sz msg) [(opt, v, sz, False)]"
  by (simp add: realises_def set_or_warn_def ends_def options_set_def warnings_def)

lemma realises_if:
  assumes "c \<Longrightarrow> realises fails r ws"
  shows "realises fails (if c then r else proceed) (if c then ws else [])"
  using assms by (simp add: realises_proceed)

lemmas realises_intros = realises_andthen realises_if realises_exit realises_warn

lemma realises_multicast:
  "realises fails (setup_multicast fails e)
    ([(IPV6_MULTICAST_HOPS, fst (e_ttl e), snd (e_ttl e), True)] @ [(IPV6_MULTICAST_IF, e_ifidx e, 4, True)] @
     [(IP_MULTICAST_TTL, fst (e_l_ttl e), snd (e_l_ttl e), True)] @ [(IP_MULTICAST_IF, e_sin_addr e, 4, True)])"
  unfolding setup_multicast_def by (intro realises_intros)

lemma setup_sockets_realises: "realises fails (fst (setup_sockets b fails e s)) (wanted_options b e s)"
proof (cases "so_family s = AF_INET6")
  case True
  then show ?thesis
    unfolding setup_sockets_def wanted_options_def buffer_options_def ip_options_def Let_def IP_PMTUDISC_DONT_def
    by (simp only: if_True simp_thms fst_conv andthen_assoc append_assoc multicast_kept)
       (intro realises_intros realises_multicast [unfolded append_Cons append_Nil])
next
  case False
  then show ?thesis
    unfolding setup_sockets_def wanted_options_def buffer_options_def Let_def
    by (simp only: False if_False simp_thms fst_conv append_Nil2)
       (intro realises_andthen realises_if realises_exit)
qed

lemma andthen_goes_on: "snd (andthen r r') = None \<longleftrightarrow> snd r = None \<and> snd r' = None"
  by (simp add: andthen_def split: option.splits)

lemma single_goes_on:
  "snd (set_or_exit fails opt v sz msg closes) = None \<longleftrightarrow> \<not> fails opt"
  "snd (set_or_warn fails opt v sz msg) = None" "snd proceed = None"
  by (simp_all add: set_or_exit_def set_or_warn_def proceed_def)

lemma setup_sockets_record:
  assumes "so_family s = AF_INET6"
  shows "snd (setup_sockets b fails e s) =
    (if list_ex (ends fails) (buffer_options s @
          (if has_ipv6_mtu_discover b then [(IPV6_MTU_DISCOVER, so_mtu s, 4, True)] else []))
     then s else s\<lparr>so_family := AF_INET\<rparr>)"
  using assms by (simp add: setup_sockets_def Let_def buffer_options_def ends_def andthen_goes_on single_goes_on)

section \<open>Properties\<close>

text \<open>
  C21: \<open>setup_sockets\<close> sets the wanted options in their order up to the first one whose
  failure is fatal, with their values and sizes, exits with 1 exactly when there is one, and
  otherwise gives one warning for each of the other failures.
\<close>

theorem setup_sockets_outcome:
  "options_set (fst (fst (setup_sockets b fails e s))) =
     map (\<lambda>(opt, v, sz, _). (opt, v, sz)) (up_to (ends fails) (wanted_options b e s)) \<and>
   snd (fst (setup_sockets b fails e s)) = (if list_ex (ends fails) (wanted_options b e s) then Some 1 else None) \<and>
   warnings (fst (fst (setup_sockets b fails e s))) =
     length (filter (\<lambda>w. fails (fst w) \<and> \<not> ends fails w) (up_to (ends fails) (wanted_options b e s)))"
  using setup_sockets_realises [of fails b e s] unfolding realises_def .

text \<open>
  C31: only IPv6 sockets get a type of service, and those get the one of IPv4 too: for any
  other family nothing but the buffer sizes is set, and for IPv6, when no option fails,
  \<open>IP_TOS\<close> is set and the option against the discovery of the path MTU gets the MTU as its
  value. The record says IPv4 afterwards, unless the program exits before the test that
  assigns; nothing else in the record changes.
\<close>

theorem setup_sockets_families:
  "if so_family s = AF_INET6
   then snd (setup_sockets b fails e s) =
       (if list_ex (ends fails) (buffer_options s @
             (if has_ipv6_mtu_discover b then [(IPV6_MTU_DISCOVER, so_mtu s, 4, True)] else []))
        then s else s\<lparr>so_family := AF_INET\<rparr>) \<and>
     (if \<forall>opt. \<not> fails opt
      then (IP_TOS_opt, uint (so_dscp s) OR e_ecn e, 4) \<in> set (options_set (fst (fst (setup_sockets b fails e s)))) \<and>
        ((IPV6_MTU_DISCOVER, so_mtu s, 4) \<in> set (options_set (fst (fst (setup_sockets b fails e s))))) = has_ipv6_mtu_discover b
      else True)
   else snd (setup_sockets b fails e s) = s \<and>
     set (options_set (fst (fst (setup_sockets b fails e s)))) \<subseteq>
       {(SOL_SOCKET_RCVBUF, so_rcvbuf s, 4), (SOL_SOCKET_SNDBUF, so_sndbuf s, 4)}"
proof -
  have sub: "set (up_to P xs) \<subseteq> set xs" for P and xs :: "wanted list"
    by (induction xs) auto
  have opts: "options_set (fst (fst (setup_sockets b fails e s))) =
      map (\<lambda>(opt, v, sz, _). (opt, v, sz)) (up_to (ends fails) (wanted_options b e s))"
    using setup_sockets_realises [of fails b e s] unfolding realises_def by blast
  show ?thesis
  proof (cases "so_family s = AF_INET6")
    case True
    have "up_to (ends fails) (wanted_options b e s) = buffer_options s @ ip_options b e s" if "\<forall>opt. \<not> fails opt"
      using that True by (simp add: up_to_none ends_def wanted_options_def)
    moreover have "(IP_TOS_opt, uint (so_dscp s) OR e_ecn e, 4, False) \<in> set (ip_options b e s)"
      by (simp add: ip_options_def Let_def)
    moreover have "((IPV6_MTU_DISCOVER, so_mtu s, 4) \<in> (\<lambda>(opt, v, sz, _). (opt, v, sz)) ` set (buffer_options s @ ip_options b e s))
        = has_ipv6_mtu_discover b"
      by (auto simp: buffer_options_def ip_options_def Let_def)
    moreover have "snd (setup_sockets b fails e s) =
       (if list_ex (ends fails) (buffer_options s @
             (if has_ipv6_mtu_discover b then [(IPV6_MTU_DISCOVER, so_mtu s, 4, True)] else []))
        then s else s\<lparr>so_family := AF_INET\<rparr>)"
      by (rule setup_sockets_record [OF True])
    ultimately show ?thesis using True by (auto simp: opts intro: rev_image_eqI)
  next
    case False
    then have "set (up_to (ends fails) (wanted_options b e s)) \<subseteq> set (buffer_options s)"
      using sub [of "ends fails" "wanted_options b e s"] by (simp add: wanted_options_def)
    moreover have "snd (setup_sockets b fails e s) = s" using False by (simp add: setup_sockets_def Let_def)
    ultimately show ?thesis
      using False by (auto simp: opts buffer_options_def split: if_splits)
  qed
qed

end
