(* ===== verification/Remote_Options.thy ===== *)
theory Remote_Options
  imports Options
begin

text \<open>
  The three option records of \<open>options.c\<close>. The last initialiser separates its fields with
  semicolons and gives null pointers for \<open>hosts\<close> and \<open>server_address\<close>, which the option
  record of this development does not hold; nothing in the repository reads the records.
\<close>

definition default_client_options :: twd_options where "default_client_options = zero_options"

definition default_server_options :: twd_options where "default_server_options = zero_options"

definition default_remote_options :: twd_options where
  "default_remote_options =
     \<lparr>o_verbose = False, o_up = True, o_dn = True, o_bidir = True, o_dontfork = False,
      o_help = False, o_randomize_data = False, o_randomize_size = False, o_passfail = False,
      o_ecn = False, o_ipv4 = True, o_ipv6 = True, o_server = True, o_multicast = False,
      o_test_owd = True, o_test_ecn = True, o_test_diffserv = True, o_test_tos = True,
      o_test_all = False, o_test_self = False, o_test_fq = True, o_test_bw = False,
      o_inetd = False, o_debug = 0, o_packet_size = TWD_DEFAULT_PACKET_SIZE, o_tests = 0,
      o_length = TWD_DEFAULT_DURATION, o_interval = TWD_DEFAULT_INTERVAL, o_diffserv = 0,
      o_format = 2, o_logdir = Some ''/tmp/'', o_filename = None\<rparr>"

text \<open>
  the command line \<open>-S -3 -4 -6 -t -E -C -Q -L /tmp/\<close> gives these defaults up to three
  fields: no option sets \<open>bidir\<close> or \<open>test_tos\<close>, and \<open>-o json\<close>, which would set the
  format, reads beyond its table.
\<close>

theorem remote_defaults_command_line:
  "process_options (default_options zero_options)
     ([(CHR ''S'', None), (CHR ''3'', None), (CHR ''4'', None), (CHR ''6'', None), (CHR ''t'', None),
       (CHR ''E'', None), (CHR ''C'', None), (CHR ''Q'', None), (CHR ''L'', Some ''/tmp/'')] @ rest) =
   process_options (default_remote_options\<lparr>o_bidir := False, o_test_tos := False, o_format := 0\<rparr>) rest \<and>
   process_options opts [(CHR ''o'', Some ''json'')] = Inl OutOfBounds"
  by (simp add: process_option_def default_options_def zero_options_def default_remote_options_def
      with_arg_def output_type_def)

end
