(* ===== verification/Bitset.thy ===== *)
theory Bitset
  imports Prelude
begin

text \<open>
  \<open>bitset.h\<close>, which no file includes. It does not compile; its three operations are read as
  working on the array of words their first argument is indexed as. \<open>word_t\<close> is an
  enumeration and so 32 bits wide; \<open>WORD_SIZE\<close> is 64. \<open>bindex\<close>, which exists nowhere, is
  a parameter.
\<close>

definition WORD_SIZE :: u64 where "WORD_SIZE = 64"

definition bitset_index :: "size_t \<Rightarrow> int" where
  "bitset_index b = to_int32 (uint (b div WORD_SIZE))"

definition bitset_boffset :: "size_t \<Rightarrow> int" where
  "bitset_boffset b = to_int32 (uint (b mod WORD_SIZE))"

text \<open>\<open>1 << n\<close> is an \<open>int\<close>.\<close>

definition one_shl :: "int \<Rightarrow> u32 result" where
  "one_shl n = (if 0 \<le> n \<and> n < 31 then Inr (push_bit (nat n) 1) else Inl SignedOverflow)"

definition word_at :: "u32 list \<Rightarrow> nat \<Rightarrow> u32 result" where
  "word_at data i = (if i < length data then Inr (data ! i) else Inl OutOfBounds)"

definition bitset_set :: "(size_t \<Rightarrow> nat) \<Rightarrow> u32 list \<Rightarrow> size_t \<Rightarrow> u32 list result" where
  "bitset_set bindex data b =
     bind_r (one_shl (bitset_boffset b)) (\<lambda>m.
     bind_r (word_at data (bindex b)) (\<lambda>w. Inr (data[bindex b := w OR m])))"

definition bitset_clear :: "(size_t \<Rightarrow> nat) \<Rightarrow> u32 list \<Rightarrow> size_t \<Rightarrow> u32 list result" where
  "bitset_clear bindex data b =
     bind_r (one_shl (bitset_boffset b)) (\<lambda>m.
     bind_r (word_at data (bindex b)) (\<lambda>w. Inr (data[bindex b := w AND NOT m])))"

definition bitset_get :: "(size_t \<Rightarrow> nat) \<Rightarrow> u32 list \<Rightarrow> size_t \<Rightarrow> int result" where
  "bitset_get bindex data b =
     bind_r (one_shl (bitset_boffset b)) (\<lambda>m.
     bind_r (word_at data (bindex b)) (\<lambda>w. Inr (sint (w AND m))))"

lemma bitset_boffset_eq: "bitset_boffset b = uint b mod 64"
proof -
  have "uint (b mod WORD_SIZE) = uint b mod 64" by (simp add: WORD_SIZE_def uint_mod)
  moreover have "0 \<le> uint b mod 64" "uint b mod 64 < 64" by simp_all
  ultimately show ?thesis by (simp add: bitset_boffset_def INT_MIN_def INT_MAX_def)
qed

lemma sint_zero: "sint (w :: u32) = 0 \<longleftrightarrow> w = 0"
  by (metis sint_0 signed_word_eqI)

lemma bitset_get_bit:
  assumes "uint b mod 64 < 31" "bindex b < length data"
  shows "\<exists>v. bitset_get bindex data b = Inr v \<and> (v = 0) = (\<not> bit (data ! bindex b) (nat (uint b mod 64)))"
  using assms
  by (simp add: bitset_get_def one_shl_def bitset_boffset_eq word_at_def sint_zero and_exp_eq_0_iff_not_bit)

text \<open>
  on a bit whose number within its group of 64 is below 31 the operations are those of
  a set: \<open>bitset_set\<close> adds it, \<open>bitset_clear\<close> removes it, and every other such bit stays.
  On the other 33 bits of a group all three shift an \<open>int\<close> too far.
\<close>

theorem bitset_operations:
  assumes "bindex b < length data" "bindex c < length data"
  shows "if uint b mod 64 < 31 \<and> uint c mod 64 < 31 then
      \<exists>s r v v' w. bitset_set bindex data b = Inr s \<and> bitset_clear bindex data b = Inr r \<and>
        bitset_get bindex data c = Inr w \<and> bitset_get bindex s c = Inr v \<and> bitset_get bindex r c = Inr v' \<and>
        (v \<noteq> 0) = (w \<noteq> 0 \<or> bindex c = bindex b \<and> uint c mod 64 = uint b mod 64) \<and>
        (v' \<noteq> 0) = (w \<noteq> 0 \<and> \<not> (bindex c = bindex b \<and> uint c mod 64 = uint b mod 64))
    else if uint b mod 64 < 31 then True
    else bitset_set bindex data b = Inl SignedOverflow \<and> bitset_clear bindex data b = Inl SignedOverflow \<and>
      bitset_get bindex data b = Inl SignedOverflow"
proof (cases "uint b mod 64 < 31")
  case False
  then have "one_shl (bitset_boffset b) = Inl SignedOverflow" by (simp add: one_shl_def bitset_boffset_eq)
  with False show ?thesis by (simp add: bitset_set_def bitset_clear_def bitset_get_def)
next
  case b: True
  show ?thesis
  proof (cases "uint c mod 64 < 31")
    case c: True
    let ?n = "nat (uint b mod 64)" and ?k = "nat (uint c mod 64)"
    let ?s = "data[bindex b := data ! bindex b OR push_bit ?n 1]"
    let ?r = "data[bindex b := data ! bindex b AND NOT (push_bit ?n 1)]"
    have same: "?k = ?n \<longleftrightarrow> uint c mod 64 = uint b mod 64" by (auto simp: eq_nat_nat_iff)
    have small: "?k < 32" "?n < 32" using b c by (simp_all add: nat_less_iff)
    obtain w where w: "bitset_get bindex data c = Inr w" "(w = 0) = (\<not> bit (data ! bindex c) ?k)"
      using bitset_get_bit [where data = data and bindex = bindex, OF c] assms(2) by blast
    obtain v where v: "bitset_get bindex ?s c = Inr v" "(v = 0) = (\<not> bit (?s ! bindex c) ?k)"
      using bitset_get_bit [where data = ?s and bindex = bindex, OF c] assms(2) by auto
    obtain v' where v': "bitset_get bindex ?r c = Inr v'" "(v' = 0) = (\<not> bit (?r ! bindex c) ?k)"
      using bitset_get_bit [where data = ?r and bindex = bindex, OF c] assms(2) by auto
    have "bitset_set bindex data b = Inr ?s" "bitset_clear bindex data b = Inr ?r"
      using b assms(1) by (simp_all add: bitset_set_def bitset_clear_def one_shl_def bitset_boffset_eq word_at_def)
    moreover have "(v \<noteq> 0) = (w \<noteq> 0 \<or> bindex c = bindex b \<and> uint c mod 64 = uint b mod 64)"
      using v(2) w(2) small assms same by (cases "bindex c = bindex b") (auto simp: bit_simps)
    moreover have "(v' \<noteq> 0) = (w \<noteq> 0 \<and> \<not> (bindex c = bindex b \<and> uint c mod 64 = uint b mod 64))"
      using v'(2) w(2) small assms same by (cases "bindex c = bindex b") (auto simp: bit_simps)
    ultimately show ?thesis using b c w(1) v(1) v'(1) by auto
  qed (use b in simp)
qed

theorem bitset_operations_witness:
  "bitset_set (\<lambda>b. unat b div 64) [0, 0] 40 = Inl SignedOverflow"
  using bitset_operations [of "\<lambda>b. unat b div 64" 40 "[0, 0]" 40] by simp

end
