(* ===== verification/Spec2Isabelle.thy ===== *)
theory Spec2Isabelle
  imports
    Prelude Seqno Byte_Order Cstring
    Ringbuffer Ringbuffer_Init Ring_Threads Ring_Test Ring_Test_Threads
    Infbuffer Infbuffer_Test Infbuffer_Runs
    Dscp Timeval Parse_Num Prefix Addr_Text
    Parse_Addr Addr_Main Options Usage Twd_Main
    Logging Fdset Timer Simple_Test Clock_Test Server Client_Threads Network Protocol Formats Sieve
    Cmsg Recv_Fields Packet Sockopts Remote_Options Bitset
begin

text \<open>
  A verification library for twd, a tool that measures delay and loss between two hosts.

  \<^bold>\<open>The program.\<close> \<open>twd.c\<close> reads its command line, resolves the addresses on it and prints them;
  the measurement itself is not written yet. Around it stand the parts the measurement is to be
  made of, each usable alone: buffers between threads (\<open>ringbuffer.c\<close>, \<open>infbuffer.c\<close>) with
  their test programs, times,
  numbers, prefixes and addresses as text (\<open>util.c\<close>, \<open>util.h\<close>, \<open>twd_time.h\<close>), names of code
  points (\<open>dscp.c\<close>), addresses with a port (\<open>parse_addr.c\<close>), loggers (\<open>log.c\<close>), a timer thread
  (\<open>thread_timer.c\<close>), sockets (\<open>network.c\<close>, \<open>server_example.c\<close>), a pair of client threads
  (\<open>client_thread.c\<close>), a packet parser (\<open>protocol.c\<close>) and bit macros (\<open>bits.h\<close>). Beside the program lie drafts
  that do not compile yet: packets with their hop limit, type of service and time stamp
  (\<open>packet.c\<close>, \<open>cmsg.c\<close>, \<open>recvmsg.c\<close>), socket options (\<open>useful_setsockopts.c\<close>), option records
  (\<open>options.c\<close>) and a bit set (\<open>bitset.h\<close>).

  \<^bold>\<open>How code is modelled.\<close> Each function of the source is a definition of the same name; a struct
  is a record, an enum a datatype, an unsigned integer a word of its width. A signed integer is
  an \<open>int\<close> with the conversion \<open>to_int32\<close> or the checks \<open>int_c\<close> and \<open>long_c\<close> written out where
  its range matters. What ends or derails a run is a value of \<open>fault\<close>: a failed assertion, an access out
  of bounds, a use after free, \<open>exit\<close>. The answers of the operating system and of libraries
  whose behaviour varies (\<open>getaddrinfo\<close>, \<open>select\<close>, \<open>inet_pton\<close>, \<open>mmap\<close>, ..) are arguments.
  Threads are step functions over a shared state, run by a schedule.

  \<^bold>\<open>The theories.\<close>

  \<^item> \<open>Prelude\<close>: machine types, faults and their sequencing. \<open>Cstring\<close>: the functions of the C
    library on strings that the code uses (\<open>strtol\<close>, \<open>strtoul\<close>, \<open>strcasecmp\<close>, number formats).

  \<^item> \<open>Ringbuffer\<close>: the operations of \<open>ringbuffer.c\<close> over the doubly mapped file, with the
    invariant of the indices; the ring refines a bounded queue of bytes. \<open>Ringbuffer_Init\<close>: its
    set-up with every failing call, over a model of the address space, the temporary file and
    its descriptor, from which what the ring can reach at its address is read off. \<open>Ring_Threads\<close>: a writer and a reader that interleave at the
    grain of single loads and stores; the runs for which the queue is kept, and two races for
    which it is not. \<open>Ring_Test\<close> and \<open>Ring_Test_Threads\<close>: the program \<open>test_ringbuffer.c\<close> on
    top of the three: its tests in one thread always pass, and its reader and writer exchange
    all records in order whenever the run is one that keeps the queue.

  \<^item> \<open>Infbuffer\<close>: the one-pass buffer of pointers of \<open>infbuffer.c\<close>, alone and with any number
    of threads. \<open>Infbuffer_Test\<close>: the program \<open>test_infbuffer.c\<close>, whose threads move that
    buffer; \<open>Infbuffer_Runs\<close>: its runs with one writer, with the exact number of readers for
    which \<open>main\<close> returns under every fair schedule.

  \<^item> \<open>Timeval\<close>: \<open>roughly\<close> and the operations on times, with the instance of \<open>linorder\<close> for
    times and the contract \<open>three_way\<close> of a comparison. \<open>Seqno\<close>: sequence numbers modulo
    \<open>2^16\<close>. \<open>Byte_Order\<close>: the macros for network order, both implementations. \<open>Formats\<close>: the
    bit-fields and unions of \<open>protocol.h\<close> and \<open>packet.h\<close>. \<open>Parse_Num\<close>: \<open>parse_nat\<close> and
    \<open>parse_msec\<close>. \<open>Dscp\<close>: the table of code points, its parser and its printer.

  \<^item> \<open>Prefix\<close>: \<open>in_prefix\<close>, \<open>mask_prefix\<close>, \<open>prefixes_cmp\<close>, \<open>martian_prefix\<close> and the address
    classes, related to each other and to sequences of bits. \<open>Addr_Text\<close>: the formatters with
    their rotating buffers and the parsers of addresses, prefixes and EUI-64 identifiers.

  \<^item> \<open>Parse_Addr\<close>: \<open>to_addr_port\<close>; \<open>Addr_Main\<close>: the test program of its file. \<open>Options\<close>: the
    option tables and \<open>process_options\<close>; \<open>Usage\<close>: the usage text compared with them.
    \<open>Twd_Main\<close>: \<open>finish_setup\<close> and \<open>main\<close>, which compose the two.

  \<^item> \<open>Logging\<close>: both loggers behind their table of functions, with the contract
    \<open>counting_logger\<close> that both keep, and the debugging output of \<open>util.c\<close>. \<open>Fdset\<close>: descriptor
    sets, \<open>wait_for_fd\<close>, \<open>daemonise\<close>. \<open>Timer\<close>: \<open>thread_timer\<close>. \<open>Simple_Test\<close>: the part of
    \<open>test_simple.c\<close> that \<open>main\<close> reaches, with its own loop over three timers. \<open>Clock_Test\<close>:
    \<open>test_clock.c\<close>. \<open>Server\<close>: the example server, pass by pass. \<open>Client_Threads\<close>: the client
    with its two pairs of threads, for any queue between them; what is said of an ideal queue
    rests on the assumption \<open>fifo_ops\<close>, since the repository has no queue. \<open>Network\<close>:
    \<open>netlib_connectsock\<close> and its companions. \<open>Protocol\<close>: \<open>parse_packet\<close>. \<open>Sieve\<close>: the macros of
    \<open>bits.h\<close>, with the contract \<open>bit_array\<close>, and the sieve that uses them.

  \<^item> \<open>Cmsg\<close>: control messages as the C library passes them, byte for byte, with the loop over
    the headers of a buffer; on a buffer of well-formed messages it refines the same loop over
    the list of messages, by the contracts \<open>cmsg_reader\<close> and \<open>first_reader\<close> of its body, which
    the four loops of the drafts keep.
    \<open>Recv_Fields\<close>: \<open>parse_header\<close>, which reads a structure it never fills in, and the loops of \<open>recvmsg.c\<close>. \<open>Packet\<close>: \<open>send_packet\<close> and
    \<open>recv_pbuffer\<close>. \<open>Sockopts\<close>: \<open>setup_sockets\<close>, compared with a list of wanted options.
    \<open>Remote_Options\<close>: the records of \<open>options.c\<close>. \<open>Bitset\<close>: the operations of \<open>bitset.h\<close>. The
    sources of these theories are the drafts named above: each theory says at its start how
    the undeclared names and the errors of type or syntax of its file are read, and what the
    code cannot be read for is a parameter.

  \<^bold>\<open>What is shown.\<close> Functional behaviour on every branch, errors included; that optimised
  routines agree with what they stand for (prefix matching, martian addresses, the sieve); that
  printers and parsers undo each other; invariants of buffers and threads under every
  interleaving; that loops end, and which do not; and, where the code does not do what it means
  to, the exact condition under which it fails.

  \<^bold>\<open>Bounds and loops.\<close> Loops that end are recursive functions with a termination proof; no fuel
  is used. The retry loop of \<open>ringbuffer_read\<close> ends at its first exchange when the ring is not
  shared; between threads each attempt is a step of its own. The loop of \<open>parse_packet\<close> is a partial function whose value \<open>None\<close> means that it
  does not end. The endless loop of the server is modelled by its first passes, for every
  number of them. Threads run for schedules of any length. That \<open>main\<close> of \<open>test_infbuffer.c\<close>
  returns is shown for schedules cut into \<open>9 * items + 7 * readers + 7\<close> segments, each of which
  runs every thread: a step either changes nothing or lowers a measure that starts at this
  number, and some thread can always take a step that changes something.

  \<^bold>\<open>Not modelled.\<close> Of \<open>test_simple.c\<close>, which does not compile as a whole, only what \<open>main\<close>
  reaches; of \<open>bitset.h\<close> not the functions that are empty or use undeclared sizes; of
  \<open>recvmsg.c\<close> not the lines that only fill in a \<open>msghdr\<close>. \<open>client.c\<close>, \<open>timestamping.h\<close> and
  \<open>twd-remote.c\<close> hold sketches that are never compiled, macros or a comment; the remaining
  \<open>test_*.c\<close> are comments, and \<open>t/test_packet.c\<close> does not compile. The contents of a
  descriptor's traffic, signal masks, processor affinity, the sizes of automatic arrays and
  the buffering of standard output are not part of any model.
\<close>

end
